(* ===== verification/Prelude.thy ===== *)
theory Prelude
  imports Main "HOL-Library.Word"
begin

text \<open>
  Shared vocabulary of the development: the machine types of the C code, C strings and
  buffers as lists of characters, the collections of hints the component theories extend,
  and the generic facts on lists and words that more than one component uses.
\<close>

unbundle bit_operations_syntax

section \<open>Machine types\<close>

type_synonym u8 = "8 word"
type_synonym u16 = "16 word"
type_synonym u32 = "32 word"
type_synonym u64 = "64 word"
type_synonym i32 = "32 word"

type_synonym bytes = "u8 list"

text \<open>
  A C string is the list of its characters before the terminating NUL; a C buffer is a list
  of characters in which NUL may occur.
\<close>

type_synonym cstring = string
type_synonym cbuffer = "char list"

abbreviation NUL :: char where
  "NUL \<equiv> CHR 0x00"

definition strlen :: "cbuffer \<Rightarrow> nat" where
  "strlen b = length (takeWhile (\<lambda>c. c \<noteq> NUL) b)"

definition cstr :: "cbuffer \<Rightarrow> cstring" where
  "cstr b = takeWhile (\<lambda>c. c \<noteq> NUL) b"

text \<open>A buffer holds a C string when a NUL occurs in it.\<close>

definition terminated :: "cbuffer \<Rightarrow> bool" where
  "terminated b \<longleftrightarrow> NUL \<in> set b"

text \<open>Characters as the bytes a byte-oriented routine reads through a cast pointer.\<close>

definition to_bytes :: "char list \<Rightarrow> bytes" where
  "to_bytes s = map of_char s"

section \<open>Hint collections\<close>

named_theorems frame_simps \<open>what an operation leaves unchanged\<close>
named_theorems op_defs \<open>definitions of straight-line helpers, for symbolic execution\<close>

section \<open>Lists\<close>

text \<open>Overwriting part of an array: \<open>memcpy(dst + off, src, length src)\<close>.\<close>

definition memcpy_at :: "'a list \<Rightarrow> nat \<Rightarrow> 'a list \<Rightarrow> 'a list" where
  "memcpy_at dst off src = take off dst @ src @ drop (off + length src) dst"

lemma length_memcpy_at [simp]:
  "off + length src \<le> length dst \<Longrightarrow> length (memcpy_at dst off src) = length dst"
  by (simp add: memcpy_at_def)

lemma take_memcpy_at:
  assumes "off \<le> length dst"
  shows "take (off + length src) (memcpy_at dst off src) = take off dst @ src"
  using assms by (simp add: memcpy_at_def min_def)

lemma cstr_append_NUL [simp]: "NUL \<notin> set s \<Longrightarrow> cstr (s @ NUL # r) = s"
  by (induction s) (auto simp: cstr_def)

lemma cstr_id: "NUL \<notin> set s \<Longrightarrow> cstr s = s"
  by (induction s) (auto simp: cstr_def)

lemma cstr_no_NUL [simp]: "NUL \<notin> set (cstr b)"
  by (auto simp: cstr_def dest: set_takeWhileD)

lemma strlen_cstr: "strlen b = length (cstr b)"
  by (simp add: strlen_def cstr_def)

lemma terminated_split:
  assumes "terminated b"
  shows "\<exists>r. b = cstr b @ NUL # r"
proof -
  from assms obtain s r where "b = s @ NUL # r" "NUL \<notin> set s"
    by (auto simp: terminated_def dest: split_list_first)
  then show ?thesis by auto
qed

text \<open>\<open>strchr(buf + pos, ch)\<close>: the index in the buffer of the character found.\<close>

definition strchr_at :: "cbuffer \<Rightarrow> nat \<Rightarrow> char \<Rightarrow> nat option" where
  "strchr_at buf pos ch =
    (let s = cstr (drop pos buf)
     in if ch \<in> set s then Some (pos + length (takeWhile (\<lambda>x. x \<noteq> ch) s)) else None)"

lemma strchr_at_bounds: "strchr_at buf pos ch = Some e \<Longrightarrow> pos \<le> e \<and> e < length buf"
proof -
  assume e: "strchr_at buf pos ch = Some e"
  let ?s = "cstr (drop pos buf)"
  from e have m: "ch \<in> set ?s" and "e = pos + length (takeWhile (\<lambda>x. x \<noteq> ch) ?s)"
    by (auto simp: strchr_at_def Let_def split: if_splits)
  moreover have "takeWhile (\<lambda>x. x \<noteq> ch) ?s \<noteq> ?s" using m by (auto simp: takeWhile_eq_all_conv)
  then have "length (takeWhile (\<lambda>x. x \<noteq> ch) ?s) < length ?s"
    by (metis length_takeWhile_le nat_less_le takeWhile_eq_take take_all)
  moreover have "length ?s \<le> length buf - pos"
    using length_takeWhile_le [of _ "drop pos buf"] by (simp add: cstr_def)
  ultimately show ?thesis by linarith
qed

lemma strchr_at_None:
  "NUL \<notin> set s \<Longrightarrow> CHR ''/'' \<notin> set s \<Longrightarrow> strchr_at (pre @ s @ NUL # post) (length pre) (CHR ''/'') = None"
  by (simp add: strchr_at_def)

lemma strchr_at_Some:
  assumes "NUL \<notin> set (a @ CHR ''/'' # s)" "CHR ''/'' \<notin> set a"
  shows "strchr_at (pre @ (a @ CHR ''/'' # s) @ NUL # post) (length pre) (CHR ''/'') = Some (length pre + length a)"
proof -
  have "cstr ((a @ CHR ''/'' # s) @ NUL # post) = a @ CHR ''/'' # s"
    using assms(1) by (rule cstr_append_NUL)
  moreover have "takeWhile (\<lambda>x. x \<noteq> CHR ''/'') (a @ CHR ''/'' # s) = a"
    using assms(2) by (induction a) auto
  ultimately show ?thesis by (simp add: strchr_at_def Let_def)
qed

section \<open>Words\<close>

lemma unat_and_63: "unat (x AND 63 :: u64) = unat x mod 64"
proof -
  have "x AND 63 = x mod 64"
    by (simp add: take_bit_eq_mask mask_eq_exp_minus_1 flip: take_bit_eq_mod [of 6, simplified])
  then show ?thesis by (simp add: unat_mod)
qed

lemma unat_drop_bit_3: "unat (drop_bit 3 x :: u64) = unat x div 8"
  by (simp add: drop_bit_eq_div unat_div)

end
