(* ===== verification/Posix.thy ===== *)
theory Posix
  imports Prelude "HOL-Library.Signed_Division"
begin

text \<open>
  The operating system and C library calls the program makes, as functions on an explicit
  world: a tree of inodes, the descriptor table of the process, its advisory locks, its heap
  and \<open>errno\<close>. Every call that can fail first consumes one element of the list
  \<open>faults\<close>, so that a theorem about an arbitrary list covers every finite pattern of
  failures and of partial transfers, and a theorem about the empty list says what happens on
  a system that does what it is asked. Undefined behaviour is recorded in \<open>ub_log\<close>.
  Not modelled: symbolic links, permission bits (a refusal is a fault), other processes.
\<close>

section \<open>Error numbers\<close>

datatype errno = EPERM | ENOENT | EINTR | EIO | E2BIG | EBADF | ECHILD | EAGAIN | ENOMEM | EACCES
  | EEXIST | ENOTDIR | EISDIR | EINVAL | EMFILE | ENOSPC | EPIPE | ENAMETOOLONG | ELOOP | EOVERFLOW
  | EOTHER nat

fun errno_val :: "errno \<Rightarrow> int" where
  "errno_val EPERM = 1"
| "errno_val ENOENT = 2"
| "errno_val EINTR = 4"
| "errno_val EIO = 5"
| "errno_val E2BIG = 7"
| "errno_val EBADF = 9"
| "errno_val ECHILD = 10"
| "errno_val EAGAIN = 11"
| "errno_val ENOMEM = 12"
| "errno_val EACCES = 13"
| "errno_val EEXIST = 17"
| "errno_val ENOTDIR = 20"
| "errno_val EISDIR = 21"
| "errno_val EINVAL = 22"
| "errno_val EMFILE = 24"
| "errno_val ENOSPC = 28"
| "errno_val EPIPE = 32"
| "errno_val ENAMETOOLONG = 36"
| "errno_val ELOOP = 40"
| "errno_val EOVERFLOW = 75"
| "errno_val (EOTHER n) = 200 + int n"

lemma errno_val_pos [simp]: "0 < errno_val e" "errno_val e \<noteq> 0" "\<not> errno_val e < 0"
  "- errno_val e < 0" "\<not> errno_val e \<le> 0"
  by (cases e; simp)+

definition EXIT_FAILURE :: int where "EXIT_FAILURE = 1"

text \<open>A scheduled deviation of one call: it fails, or transfers only \<open>Suc n\<close> bytes.\<close>

datatype fault = Pass | Fail errno | Short nat

section \<open>The world\<close>

type_synonym ino = nat
type_synonym ptr = nat

abbreviation (input) NULL :: ptr where
  "NULL \<equiv> 0"

datatype content = Dir "cstring \<rightharpoonup> ino" ino | Reg cbuffer

record inode =
  i_dev :: u64
  i_mtime_sec :: int
  i_mtime_nsec :: int
  i_content :: content

datatype fd_obj = OFile ino nat bool bool | OPath ino | PipeRead nat | PipeWrite nat

datatype lock_kind = LOCK_SH | LOCK_EX

datatype ub = Bad_free ptr | Out_of_bounds | Unterminated_string | Dangling_pointer ptr
  | Signed_overflow | Ctype_domain

record world =
  inodes :: "ino \<rightharpoonup> inode"
  root_ino :: ino
  cwd_ino :: ino
  next_ino :: ino
  clock_sec :: int
  clock_nsec :: int
  fds :: "nat \<rightharpoonup> fd_obj"
  fd_max :: nat
  flocks :: "nat \<rightharpoonup> lock_kind"
  heap :: "ptr \<rightharpoonup> cbuffer"
  next_ptr :: ptr
  errno :: int
  faults :: "fault list"
  stack_byte :: "nat \<Rightarrow> char"
  ub_log :: "ub list"

definition next_fault :: "world \<Rightarrow> fault \<times> world" where
  "next_fault w = (case faults w of [] \<Rightarrow> (Pass, w) | f # fs \<Rightarrow> (f, w\<lparr>faults := fs\<rparr>))"

text \<open>A failing call returns \<open>-1\<close> and sets \<open>errno\<close>; success leaves \<open>errno\<close> alone.\<close>

definition fail_with :: "errno \<Rightarrow> world \<Rightarrow> int \<times> world" where
  "fail_with e w = (-1, w\<lparr>errno := errno_val e\<rparr>)"

definition log_ub :: "ub \<Rightarrow> world \<Rightarrow> world" where
  "log_ub u w = w\<lparr>ub_log := ub_log w @ [u]\<rparr>"

section \<open>Path names\<close>

fun split_path :: "cstring \<Rightarrow> cstring list" where
  "split_path [] = [[]]"
| "split_path (c # cs) =
    (if c = CHR ''/'' then [] # split_path cs
     else case split_path cs of [] \<Rightarrow> [[c]] | p # ps \<Rightarrow> (c # p) # ps)"

lemma split_path_no_slash: "CHR ''/'' \<notin> set p \<Longrightarrow> split_path p = [p]"
  by (induction p) auto

lemma split_path_nonempty [simp]: "split_path p \<noteq> []"
  by (induction p) (auto split: list.splits)

fun resolve :: "(ino \<rightharpoonup> inode) \<Rightarrow> ino \<Rightarrow> cstring list \<Rightarrow> errno + ino" where
  "resolve fs i [] = Inr i"
| "resolve fs i (c # cs) =
    (case map_option i_content (fs i) of
       None \<Rightarrow> Inl ENOENT
     | Some (Reg _) \<Rightarrow> Inl ENOTDIR
     | Some (Dir ents par) \<Rightarrow>
         if c = [] \<or> c = ''.'' then resolve fs i cs
         else if c = ''..'' then resolve fs par cs
         else case ents c of None \<Rightarrow> Inl ENOENT | Some j \<Rightarrow> resolve fs j cs)"

text \<open>The directory a path name starts from.\<close>

definition AT_FDCWD :: int where "AT_FDCWD = -100"

definition start_dir :: "world \<Rightarrow> int \<Rightarrow> cstring \<Rightarrow> errno + ino" where
  "start_dir w dirfd path =
    (if path = [] then Inl ENOENT
     else if hd path = CHR ''/'' then Inr (root_ino w)
     else if dirfd = AT_FDCWD then Inr (cwd_ino w)
     else if dirfd < 0 then Inl EBADF
     else case fds w (nat dirfd) of
            Some (OFile i _ _ _) \<Rightarrow> Inr i
          | Some (OPath i) \<Rightarrow> Inr i
          | _ \<Rightarrow> Inl EBADF)"

definition lookup_path :: "world \<Rightarrow> int \<Rightarrow> cstring \<Rightarrow> errno + ino" where
  "lookup_path w dirfd path =
    (case start_dir w dirfd path of Inl e \<Rightarrow> Inl e
     | Inr i \<Rightarrow> resolve (inodes w) i (split_path path))"

text \<open>The directory that holds, or would hold, the last component, and that component.\<close>

definition lookup_parent :: "world \<Rightarrow> int \<Rightarrow> cstring \<Rightarrow> errno + (ino \<times> cstring)" where
  "lookup_parent w dirfd path =
    (case start_dir w dirfd path of Inl e \<Rightarrow> Inl e
     | Inr i \<Rightarrow>
         (case resolve (inodes w) i (butlast (split_path path)) of Inl e \<Rightarrow> Inl e
          | Inr d \<Rightarrow> Inr (d, last (split_path path))))"

definition dir_entries :: "world \<Rightarrow> ino \<Rightarrow> (cstring \<rightharpoonup> ino) option" where
  "dir_entries w d =
    (case map_option i_content (inodes w d) of Some (Dir ents _) \<Rightarrow> Some ents | _ \<Rightarrow> None)"

definition file_data :: "world \<Rightarrow> ino \<Rightarrow> cbuffer option" where
  "file_data w i =
    (case map_option i_content (inodes w i) of Some (Reg d) \<Rightarrow> Some d | _ \<Rightarrow> None)"

text \<open>Changing the content of an inode sets its modification time.\<close>

definition set_content :: "ino \<Rightarrow> content \<Rightarrow> world \<Rightarrow> world" where
  "set_content i c w =
    (case inodes w i of None \<Rightarrow> w
     | Some nd \<Rightarrow> w\<lparr>inodes := (inodes w)(i \<mapsto> nd\<lparr>i_content := c, i_mtime_sec := clock_sec w,
         i_mtime_nsec := clock_nsec w\<rparr>)\<rparr>)"

definition set_entry :: "ino \<Rightarrow> cstring \<Rightarrow> ino option \<Rightarrow> world \<Rightarrow> world" where
  "set_entry d name j w =
    (case map_option i_content (inodes w d) of
       Some (Dir ents par) \<Rightarrow> set_content d (Dir (ents(name := j)) par) w
     | _ \<Rightarrow> w)"

definition new_inode :: "ino \<Rightarrow> cstring \<Rightarrow> content \<Rightarrow> world \<Rightarrow> ino \<times> world" where
  "new_inode d name c w =
    (let j = next_ino w;
         dev = (case inodes w d of Some nd \<Rightarrow> i_dev nd | None \<Rightarrow> 0);
         nd = \<lparr>i_dev = dev, i_mtime_sec = clock_sec w, i_mtime_nsec = clock_nsec w, i_content = c\<rparr>
     in (j, set_entry d name (Some j) (w\<lparr>next_ino := Suc j, inodes := (inodes w)(j \<mapsto> nd)\<rparr>)))"

section \<open>Descriptors\<close>

definition free_fd :: "world \<Rightarrow> nat option" where
  "free_fd w = find (\<lambda>n. fds w n = None) [0..<fd_max w]"

definition install_fd :: "nat \<Rightarrow> fd_obj \<Rightarrow> world \<Rightarrow> int \<times> world" where
  "install_fd n f w = (int n, w\<lparr>fds := (fds w)(n \<mapsto> f)\<rparr>)"

definition fd_lookup :: "world \<Rightarrow> int \<Rightarrow> fd_obj option" where
  "fd_lookup w fd = (if fd < 0 then None else fds w (nat fd))"

datatype oflag = O_RDONLY | O_WRONLY | O_TRUNC | O_CREAT | O_PATH | O_DIRECTORY | O_NOFOLLOW

definition open_obj :: "oflag list \<Rightarrow> ino \<Rightarrow> fd_obj" where
  "open_obj flags i =
    (if O_PATH \<in> set flags then OPath i
     else OFile i 0 (O_RDONLY \<in> set flags) (O_WRONLY \<in> set flags))"

definition open_existing :: "oflag list \<Rightarrow> nat \<Rightarrow> ino \<Rightarrow> world \<Rightarrow> int \<times> world" where
  "open_existing flags n i w =
    (case map_option i_content (inodes w i) of
       None \<Rightarrow> fail_with ENOENT w
     | Some (Dir _ _) \<Rightarrow>
         if O_WRONLY \<in> set flags \<or> O_CREAT \<in> set flags then fail_with EISDIR w
         else install_fd n (open_obj flags i) w
     | Some (Reg _) \<Rightarrow>
         if O_DIRECTORY \<in> set flags then fail_with ENOTDIR w
         else install_fd n (open_obj flags i)
                (if O_TRUNC \<in> set flags then set_content i (Reg []) w else w))"

definition sys_openat :: "int \<Rightarrow> cstring \<Rightarrow> oflag list \<Rightarrow> world \<Rightarrow> int \<times> world" where
  "sys_openat dirfd path flags w =
    (case next_fault w of
       (Fail e, w) \<Rightarrow> fail_with e w
     | (_, w) \<Rightarrow>
        (case free_fd w of
           None \<Rightarrow> fail_with EMFILE w
         | Some n \<Rightarrow>
            (case lookup_path w dirfd path of
               Inr i \<Rightarrow> open_existing flags n i w
             | Inl e \<Rightarrow>
                (case lookup_parent w dirfd path of
                   Inr (d, name) \<Rightarrow>
                     (case dir_entries w d of
                        Some ents \<Rightarrow>
                          if e = ENOENT \<and> O_CREAT \<in> set flags \<and> name \<noteq> [] \<and> ents name = None then
                            let (j, w) = new_inode d name (Reg []) w
                            in install_fd n (open_obj flags j) w
                          else fail_with e w
                      | None \<Rightarrow> fail_with e w)
                 | Inl _ \<Rightarrow> fail_with e w))))"

definition sys_open :: "cstring \<Rightarrow> oflag list \<Rightarrow> world \<Rightarrow> int \<times> world" where
  "sys_open path flags w = sys_openat AT_FDCWD path flags w"

text \<open>The descriptor is released even when \<open>close\<close> reports an error, as on Linux.\<close>

definition sys_close :: "int \<Rightarrow> world \<Rightarrow> int \<times> world" where
  "sys_close fd w =
    (case fd_lookup w fd of
       None \<Rightarrow> fail_with EBADF w
     | Some _ \<Rightarrow>
        (case next_fault w of (f, w) \<Rightarrow>
          let w = w\<lparr>fds := (fds w)(nat fd := None), flocks := (flocks w)(nat fd := None)\<rparr>
          in (case f of Fail e \<Rightarrow> fail_with e w | _ \<Rightarrow> (0, w))))"

text \<open>\<open>flock\<close> waits until the lock is granted, so only a fault makes it fail.\<close>

definition sys_flock :: "int \<Rightarrow> lock_kind option \<Rightarrow> world \<Rightarrow> int \<times> world" where
  "sys_flock fd op w =
    (case next_fault w of
       (Fail e, w) \<Rightarrow> fail_with e w
     | (_, w) \<Rightarrow>
        (case fd_lookup w fd of
           None \<Rightarrow> fail_with EBADF w
         | Some _ \<Rightarrow> (0, w\<lparr>flocks := (flocks w)(nat fd := op)\<rparr>)))"

definition sys_read :: "int \<Rightarrow> nat \<Rightarrow> world \<Rightarrow> int \<times> cbuffer \<times> world" where
  "sys_read fd len w =
    (case next_fault w of (f, w) \<Rightarrow>
      (case f of
         Fail e \<Rightarrow> (-1, [], snd (fail_with e w))
       | _ \<Rightarrow>
          (case fd_lookup w fd of
             Some (OFile i pos True wr) \<Rightarrow>
               (case file_data w i of
                  None \<Rightarrow> (-1, [], snd (fail_with EISDIR w))
                | Some d \<Rightarrow>
                    let n = (case f of Short k \<Rightarrow> min (Suc k) len | _ \<Rightarrow> len);
                        chunk = take n (drop pos d)
                    in (int (length chunk), chunk,
                        w\<lparr>fds := (fds w)(nat fd \<mapsto> OFile i (pos + length chunk) True wr)\<rparr>))
           | _ \<Rightarrow> (-1, [], snd (fail_with EBADF w)))))"

definition overwrite :: "cbuffer \<Rightarrow> nat \<Rightarrow> cbuffer \<Rightarrow> cbuffer" where
  "overwrite d pos chunk =
    take pos (d @ replicate (pos - length d) NUL) @ chunk @ drop (pos + length chunk) d"

definition sys_write :: "int \<Rightarrow> cbuffer \<Rightarrow> world \<Rightarrow> int \<times> world" where
  "sys_write fd data w =
    (case next_fault w of (f, w) \<Rightarrow>
      (case f of
         Fail e \<Rightarrow> fail_with e w
       | _ \<Rightarrow>
          (case fd_lookup w fd of
             Some (OFile i pos rd True) \<Rightarrow>
               (case file_data w i of
                  None \<Rightarrow> fail_with EISDIR w
                | Some d \<Rightarrow>
                    let chunk = (case f of Short k \<Rightarrow> take (Suc k) data | _ \<Rightarrow> data)
                    in (int (length chunk),
                        set_content i (Reg (overwrite d pos chunk))
                          (w\<lparr>fds := (fds w)(nat fd \<mapsto> OFile i (pos + length chunk) rd True)\<rparr>)))
           | _ \<Rightarrow> fail_with EBADF w)))"

definition sys_fsync :: "int \<Rightarrow> world \<Rightarrow> int \<times> world" where
  "sys_fsync fd w =
    (case next_fault w of
       (Fail e, w) \<Rightarrow> fail_with e w
     | (_, w) \<Rightarrow> (case fd_lookup w fd of None \<Rightarrow> fail_with EBADF w | Some _ \<Rightarrow> (0, w)))"

definition sys_mkdirat :: "int \<Rightarrow> cstring \<Rightarrow> world \<Rightarrow> int \<times> world" where
  "sys_mkdirat dirfd path w =
    (case next_fault w of
       (Fail e, w) \<Rightarrow> fail_with e w
     | (_, w) \<Rightarrow>
        (case lookup_path w dirfd path of
           Inr _ \<Rightarrow> fail_with EEXIST w
         | Inl e \<Rightarrow>
            (case lookup_parent w dirfd path of
               Inl _ \<Rightarrow> fail_with e w
             | Inr (d, name) \<Rightarrow>
                (case dir_entries w d of
                   None \<Rightarrow> fail_with e w
                 | Some ents \<Rightarrow>
                    if e = ENOENT \<and> name \<noteq> [] \<and> ents name = None then
                      (0, snd (new_inode d name (Dir Map.empty d) w))
                    else fail_with e w))))"

definition sys_unlinkat :: "int \<Rightarrow> cstring \<Rightarrow> world \<Rightarrow> int \<times> world" where
  "sys_unlinkat dirfd path w =
    (case next_fault w of
       (Fail e, w) \<Rightarrow> fail_with e w
     | (_, w) \<Rightarrow>
        (case lookup_path w dirfd path of
           Inl e \<Rightarrow> fail_with e w
         | Inr i \<Rightarrow>
            (case lookup_parent w dirfd path of
               Inl e \<Rightarrow> fail_with e w
             | Inr (d, name) \<Rightarrow>
                if file_data w i = None then fail_with EISDIR w
                else (0, set_entry d name None w))))"

text \<open>The fields of \<open>struct stat\<close> the program reads, at their C types.\<close>

record stat_buf =
  st_dev :: u64
  st_ino :: u64
  st_size :: u64
  st_mtim_sec :: int
  st_mtim_nsec :: int

definition stat_of :: "ino \<Rightarrow> inode \<Rightarrow> stat_buf" where
  "stat_of i nd = \<lparr>st_dev = i_dev nd, st_ino = of_nat i,
     st_size = (case i_content nd of Reg d \<Rightarrow> of_nat (length d) | Dir _ _ \<Rightarrow> 4096),
     st_mtim_sec = i_mtime_sec nd, st_mtim_nsec = i_mtime_nsec nd\<rparr>"

definition stat_path :: "world \<Rightarrow> cstring \<Rightarrow> errno + stat_buf" where
  "stat_path w path =
    (case lookup_path w AT_FDCWD path of Inl e \<Rightarrow> Inl e
     | Inr i \<Rightarrow> (case inodes w i of None \<Rightarrow> Inl ENOENT | Some nd \<Rightarrow> Inr (stat_of i nd)))"

definition sys_stat :: "cstring \<Rightarrow> world \<Rightarrow> int \<times> stat_buf option \<times> world" where
  "sys_stat path w =
    (case next_fault w of
       (Fail e, w) \<Rightarrow> (-1, None, snd (fail_with e w))
     | (_, w) \<Rightarrow>
        (case stat_path w path of
           Inl e \<Rightarrow> (-1, None, snd (fail_with e w))
         | Inr st \<Rightarrow> (0, Some st, w)))"

section \<open>The heap\<close>

definition alloc :: "cbuffer \<Rightarrow> world \<Rightarrow> ptr \<times> world" where
  "alloc b w = (next_ptr w, w\<lparr>heap := (heap w)(next_ptr w \<mapsto> b), next_ptr := Suc (next_ptr w)\<rparr>)"

definition c_free :: "ptr \<Rightarrow> world \<Rightarrow> world" where
  "c_free p w =
    (if p = NULL then w
     else if heap w p = None then log_ub (Bad_free p) w
     else w\<lparr>heap := (heap w)(p := None)\<rparr>)"

text \<open>\<open>asprintf\<close> with its text already formatted: the length and the new string, or \<open>-1\<close>.\<close>

definition c_asprintf :: "cstring \<Rightarrow> world \<Rightarrow> int \<times> ptr \<times> world" where
  "c_asprintf s w =
    (case next_fault w of
       (Fail e, w) \<Rightarrow> (-1, NULL, w\<lparr>errno := errno_val ENOMEM\<rparr>)
     | (_, w) \<Rightarrow> (case alloc (s @ [NUL]) w of (p, w) \<Rightarrow> (int (length s), p, w)))"

text \<open>\<open>strdup\<close> of a buffer of known extent; without a NUL in it the copy reads past its end.\<close>

definition c_strdup :: "cbuffer \<Rightarrow> world \<Rightarrow> ptr \<times> world" where
  "c_strdup b w =
    (let w = (if terminated b then w else log_ub Unterminated_string w)
     in case next_fault w of
          (Fail e, w) \<Rightarrow> (NULL, w\<lparr>errno := errno_val ENOMEM\<rparr>)
        | (_, w) \<Rightarrow> alloc (cstr b @ [NUL]) w)"

text \<open>The string a pointer designates; \<open>None\<close> for a null or dangling pointer.\<close>

definition heap_str :: "world \<Rightarrow> ptr \<Rightarrow> cstring option" where
  "heap_str w p = (if p = NULL then None else map_option cstr (heap w p))"

text \<open>The heap allocator never hands out a block that is in use, nor the null pointer.\<close>

definition heap_ok :: "world \<Rightarrow> bool" where
  "heap_ok w \<longleftrightarrow> 0 < next_ptr w \<and> (\<forall>p \<ge> next_ptr w. heap w p = None)"

text \<open>Inode numbers handed out are fresh.\<close>

definition fs_ok :: "world \<Rightarrow> bool" where
  "fs_ok w \<longleftrightarrow> (\<forall>i \<ge> next_ino w. inodes w i = None)"

end
