(* ===== verification/MD5.thy ===== *)
theory MD5
  imports Prelude
begin

text \<open>
  The message digest of \<^verbatim>\<open>c/md5.c\<close> and \<^verbatim>\<open>c/md5.h\<close>: the context record, the streaming
  interface \<open>MD5Init\<close>, \<open>MD5Update\<close>, \<open>MD5Pad\<close>, \<open>MD5Final\<close>, the compression
  function \<open>MD5Transform\<close> with its 64 unrolled steps, and \<open>MD5Digest\<close>, which renders the
  digest as a NUL terminated string of 32 hexadecimal digits. The bit counter is kept at its
  64-bit width; a buffer and the length the C code passes with it are one list.
\<close>

section \<open>The context\<close>

definition MD5_BLOCK_LENGTH :: nat where "MD5_BLOCK_LENGTH = 64"
definition MD5_DIGEST_LENGTH :: nat where "MD5_DIGEST_LENGTH = 16"
definition MD5_DIGEST_STRING_LENGTH :: nat where
  "MD5_DIGEST_STRING_LENGTH = MD5_DIGEST_LENGTH * 2 + 1"

record MD5_CTX =
  ctx_state :: "u32 list"
  ctx_count :: u64
  ctx_buffer :: bytes

section \<open>Little-endian stores\<close>

definition PUT_64BIT_LE :: "u64 \<Rightarrow> bytes" where
  "PUT_64BIT_LE v = [ucast v, ucast (drop_bit 8 v), ucast (drop_bit 16 v), ucast (drop_bit 24 v),
     ucast (drop_bit 32 v), ucast (drop_bit 40 v), ucast (drop_bit 48 v), ucast (drop_bit 56 v)]"

definition PUT_32BIT_LE :: "u32 \<Rightarrow> bytes" where
  "PUT_32BIT_LE v = [ucast v, ucast (drop_bit 8 v), ucast (drop_bit 16 v), ucast (drop_bit 24 v)]"

definition PADDING :: bytes where
  "PADDING = 0x80 # replicate 63 0"

section \<open>The compression function\<close>

text \<open>The four core functions, in the optimised form of the source.\<close>

definition F1 :: "u32 \<Rightarrow> u32 \<Rightarrow> u32 \<Rightarrow> u32" where
  "F1 x y z = z XOR (x AND (y XOR z))"

definition F2 :: "u32 \<Rightarrow> u32 \<Rightarrow> u32 \<Rightarrow> u32" where
  "F2 x y z = F1 z x y"

definition F3 :: "u32 \<Rightarrow> u32 \<Rightarrow> u32 \<Rightarrow> u32" where
  "F3 x y z = x XOR y XOR z"

definition F4 :: "u32 \<Rightarrow> u32 \<Rightarrow> u32 \<Rightarrow> u32" where
  "F4 x y z = y XOR (x OR NOT z)"

text \<open>The value the macro leaves in its register argument \<open>w\<close>.\<close>

definition MD5STEP ::
  "(u32 \<Rightarrow> u32 \<Rightarrow> u32 \<Rightarrow> u32) \<Rightarrow> u32 \<Rightarrow> u32 \<Rightarrow> u32 \<Rightarrow> u32 \<Rightarrow> u32 \<Rightarrow> nat \<Rightarrow> u32" where
  "MD5STEP f w x y z data s =
    (let w = w + (f x y z + data);
         w = push_bit s w OR drop_bit (32 - s) w
     in w + x)"

text \<open>The four registers of the compression function.\<close>

type_synonym chain = "u32 \<times> u32 \<times> u32 \<times> u32"

text \<open>
  The block read as sixteen longwords. The source has a \<open>memcpy\<close> for little-endian hosts
  and this assembly of bytes for the others; the two agree.
\<close>

definition block_words :: "bytes \<Rightarrow> u32 list" where
  "block_words block = map (\<lambda>a.
     ucast (block ! (a * 4)) OR push_bit 8 (ucast (block ! (a * 4 + 1))) OR
     push_bit 16 (ucast (block ! (a * 4 + 2))) OR push_bit 24 (ucast (block ! (a * 4 + 3))))
     [0..<16]"

text \<open>The sixteen steps of each round, as the source unrolls them.\<close>

definition MD5_round1 :: "u32 list \<Rightarrow> chain \<Rightarrow> chain" where
  "MD5_round1 X = (\<lambda>(a, b, c, d).
    let a = MD5STEP F1 a b c d (X ! 0 + 0xd76aa478) 7 in
    let d = MD5STEP F1 d a b c (X ! 1 + 0xe8c7b756) 12 in
    let c = MD5STEP F1 c d a b (X ! 2 + 0x242070db) 17 in
    let b = MD5STEP F1 b c d a (X ! 3 + 0xc1bdceee) 22 in
    let a = MD5STEP F1 a b c d (X ! 4 + 0xf57c0faf) 7 in
    let d = MD5STEP F1 d a b c (X ! 5 + 0x4787c62a) 12 in
    let c = MD5STEP F1 c d a b (X ! 6 + 0xa8304613) 17 in
    let b = MD5STEP F1 b c d a (X ! 7 + 0xfd469501) 22 in
    let a = MD5STEP F1 a b c d (X ! 8 + 0x698098d8) 7 in
    let d = MD5STEP F1 d a b c (X ! 9 + 0x8b44f7af) 12 in
    let c = MD5STEP F1 c d a b (X ! 10 + 0xffff5bb1) 17 in
    let b = MD5STEP F1 b c d a (X ! 11 + 0x895cd7be) 22 in
    let a = MD5STEP F1 a b c d (X ! 12 + 0x6b901122) 7 in
    let d = MD5STEP F1 d a b c (X ! 13 + 0xfd987193) 12 in
    let c = MD5STEP F1 c d a b (X ! 14 + 0xa679438e) 17 in
    let b = MD5STEP F1 b c d a (X ! 15 + 0x49b40821) 22 in
    (a, b, c, d))"

definition MD5_round2 :: "u32 list \<Rightarrow> chain \<Rightarrow> chain" where
  "MD5_round2 X = (\<lambda>(a, b, c, d).
    let a = MD5STEP F2 a b c d (X ! 1 + 0xf61e2562) 5 in
    let d = MD5STEP F2 d a b c (X ! 6 + 0xc040b340) 9 in
    let c = MD5STEP F2 c d a b (X ! 11 + 0x265e5a51) 14 in
    let b = MD5STEP F2 b c d a (X ! 0 + 0xe9b6c7aa) 20 in
    let a = MD5STEP F2 a b c d (X ! 5 + 0xd62f105d) 5 in
    let d = MD5STEP F2 d a b c (X ! 10 + 0x02441453) 9 in
    let c = MD5STEP F2 c d a b (X ! 15 + 0xd8a1e681) 14 in
    let b = MD5STEP F2 b c d a (X ! 4 + 0xe7d3fbc8) 20 in
    let a = MD5STEP F2 a b c d (X ! 9 + 0x21e1cde6) 5 in
    let d = MD5STEP F2 d a b c (X ! 14 + 0xc33707d6) 9 in
    let c = MD5STEP F2 c d a b (X ! 3 + 0xf4d50d87) 14 in
    let b = MD5STEP F2 b c d a (X ! 8 + 0x455a14ed) 20 in
    let a = MD5STEP F2 a b c d (X ! 13 + 0xa9e3e905) 5 in
    let d = MD5STEP F2 d a b c (X ! 2 + 0xfcefa3f8) 9 in
    let c = MD5STEP F2 c d a b (X ! 7 + 0x676f02d9) 14 in
    let b = MD5STEP F2 b c d a (X ! 12 + 0x8d2a4c8a) 20 in
    (a, b, c, d))"

definition MD5_round3 :: "u32 list \<Rightarrow> chain \<Rightarrow> chain" where
  "MD5_round3 X = (\<lambda>(a, b, c, d).
    let a = MD5STEP F3 a b c d (X ! 5 + 0xfffa3942) 4 in
    let d = MD5STEP F3 d a b c (X ! 8 + 0x8771f681) 11 in
    let c = MD5STEP F3 c d a b (X ! 11 + 0x6d9d6122) 16 in
    let b = MD5STEP F3 b c d a (X ! 14 + 0xfde5380c) 23 in
    let a = MD5STEP F3 a b c d (X ! 1 + 0xa4beea44) 4 in
    let d = MD5STEP F3 d a b c (X ! 4 + 0x4bdecfa9) 11 in
    let c = MD5STEP F3 c d a b (X ! 7 + 0xf6bb4b60) 16 in
    let b = MD5STEP F3 b c d a (X ! 10 + 0xbebfbc70) 23 in
    let a = MD5STEP F3 a b c d (X ! 13 + 0x289b7ec6) 4 in
    let d = MD5STEP F3 d a b c (X ! 0 + 0xeaa127fa) 11 in
    let c = MD5STEP F3 c d a b (X ! 3 + 0xd4ef3085) 16 in
    let b = MD5STEP F3 b c d a (X ! 6 + 0x04881d05) 23 in
    let a = MD5STEP F3 a b c d (X ! 9 + 0xd9d4d039) 4 in
    let d = MD5STEP F3 d a b c (X ! 12 + 0xe6db99e5) 11 in
    let c = MD5STEP F3 c d a b (X ! 15 + 0x1fa27cf8) 16 in
    let b = MD5STEP F3 b c d a (X ! 2 + 0xc4ac5665) 23 in
    (a, b, c, d))"

definition MD5_round4 :: "u32 list \<Rightarrow> chain \<Rightarrow> chain" where
  "MD5_round4 X = (\<lambda>(a, b, c, d).
    let a = MD5STEP F4 a b c d (X ! 0 + 0xf4292244) 6 in
    let d = MD5STEP F4 d a b c (X ! 7 + 0x432aff97) 10 in
    let c = MD5STEP F4 c d a b (X ! 14 + 0xab9423a7) 15 in
    let b = MD5STEP F4 b c d a (X ! 5 + 0xfc93a039) 21 in
    let a = MD5STEP F4 a b c d (X ! 12 + 0x655b59c3) 6 in
    let d = MD5STEP F4 d a b c (X ! 3 + 0x8f0ccc92) 10 in
    let c = MD5STEP F4 c d a b (X ! 10 + 0xffeff47d) 15 in
    let b = MD5STEP F4 b c d a (X ! 1 + 0x85845dd1) 21 in
    let a = MD5STEP F4 a b c d (X ! 8 + 0x6fa87e4f) 6 in
    let d = MD5STEP F4 d a b c (X ! 15 + 0xfe2ce6e0) 10 in
    let c = MD5STEP F4 c d a b (X ! 6 + 0xa3014314) 15 in
    let b = MD5STEP F4 b c d a (X ! 13 + 0x4e0811a1) 21 in
    let a = MD5STEP F4 a b c d (X ! 4 + 0xf7537e82) 6 in
    let d = MD5STEP F4 d a b c (X ! 11 + 0xbd3af235) 10 in
    let c = MD5STEP F4 c d a b (X ! 2 + 0x2ad7d2bb) 15 in
    let b = MD5STEP F4 b c d a (X ! 9 + 0xeb86d391) 21 in
    (a, b, c, d))"

definition MD5Transform :: "u32 list \<Rightarrow> bytes \<Rightarrow> u32 list" where
  "MD5Transform st block =
    (let X = block_words block;
         (a, b, c, d) =
           MD5_round4 X (MD5_round3 X (MD5_round2 X (MD5_round1 X (st ! 0, st ! 1, st ! 2, st ! 3))))
     in [st ! 0 + a, st ! 1 + b, st ! 2 + c, st ! 3 + d])"

section \<open>The streaming interface\<close>

definition MD5Init :: "MD5_CTX \<Rightarrow> MD5_CTX" where
  "MD5Init ctx = ctx\<lparr>ctx_count := 0,
     ctx_state := [0x67452301, 0xefcdab89, 0x98badcfe, 0x10325476]\<rparr>"

text \<open>\<open>(ctx->count >> 3) & (MD5_BLOCK_LENGTH - 1)\<close>: the bytes waiting in the buffer.\<close>

definition ctx_have :: "MD5_CTX \<Rightarrow> nat" where
  "ctx_have ctx = unat (drop_bit 3 (ctx_count ctx) AND 63)"

text \<open>The loop of \<open>MD5Update\<close> over whole blocks; it returns the state and the rest.\<close>

function MD5_blocks :: "u32 list \<Rightarrow> bytes \<Rightarrow> u32 list \<times> bytes" where
  "MD5_blocks st input =
    (if MD5_BLOCK_LENGTH \<le> length input
     then MD5_blocks (MD5Transform st (take MD5_BLOCK_LENGTH input)) (drop MD5_BLOCK_LENGTH input)
     else (st, input))"
  by pat_completeness auto
termination
  by (relation "measure (\<lambda>(st, input). length input)") (auto simp: MD5_BLOCK_LENGTH_def)

declare MD5_blocks.simps [simp del]

definition MD5Update :: "MD5_CTX \<Rightarrow> bytes \<Rightarrow> MD5_CTX" where
  "MD5Update ctx input =
    (let have = ctx_have ctx;
         need = MD5_BLOCK_LENGTH - have;
         ctx = ctx\<lparr>ctx_count := ctx_count ctx + push_bit 3 (of_nat (length input))\<rparr>;
         (ctx, have, input) =
           (if need \<le> length input then
              let (ctx, have, input) =
                    (if have \<noteq> 0 then
                       let buf = memcpy_at (ctx_buffer ctx) have (take need input)
                       in (ctx\<lparr>ctx_buffer := buf, ctx_state := MD5Transform (ctx_state ctx) buf\<rparr>,
                           0, drop need input)
                     else (ctx, have, input));
                  (st, input) = MD5_blocks (ctx_state ctx) input
              in (ctx\<lparr>ctx_state := st\<rparr>, have, input)
            else (ctx, have, input))
     in if input \<noteq> [] then ctx\<lparr>ctx_buffer := memcpy_at (ctx_buffer ctx) have input\<rparr> else ctx)"

definition MD5Pad :: "MD5_CTX \<Rightarrow> MD5_CTX" where
  "MD5Pad ctx =
    (let count = PUT_64BIT_LE (ctx_count ctx);
         padlen = MD5_BLOCK_LENGTH - ctx_have ctx;
         padlen = (if padlen < 1 + 8 then padlen + MD5_BLOCK_LENGTH else padlen);
         ctx = MD5Update ctx (take (padlen - 8) PADDING)
     in MD5Update ctx count)"

text \<open>
  \<open>MD5Final\<close> with a digest pointer stores sixteen bytes and clears the context; with a null
  pointer it only pads.
\<close>

definition MD5Final :: "bool \<Rightarrow> MD5_CTX \<Rightarrow> bytes \<times> MD5_CTX" where
  "MD5Final digest_nonnull ctx =
    (let ctx = MD5Pad ctx
     in if digest_nonnull
        then (concat (map (\<lambda>i. PUT_32BIT_LE (ctx_state ctx ! i)) [0..<4]),
              \<lparr>ctx_state = replicate 4 0, ctx_count = 0, ctx_buffer = replicate 64 0\<rparr>)
        else ([], ctx))"

section \<open>The digest string\<close>

definition hex :: string where
  "hex = ''0123456789abcdef''"

definition hex_byte :: "u8 \<Rightarrow> char list" where
  "hex_byte d = [hex ! unat (drop_bit 4 d), hex ! unat (d AND 0x0f)]"

text \<open>
  \<open>MD5Digest\<close> works on a context it leaves uninitialised on the stack: \<open>stack\<close> is what
  happens to be there. The result is the whole array of 33 characters.
\<close>

definition MD5Digest :: "MD5_CTX \<Rightarrow> bytes \<Rightarrow> cbuffer" where
  "MD5Digest stack data =
    (let ctx = MD5Init stack;
         ctx = MD5Update ctx data;
         (digest, ctx) = MD5Final True ctx
     in concat (map hex_byte digest) @ [NUL])"

text \<open>
  The \<open>main\<close> of the \<^verbatim>\<open>MD5_TEST\<close> build: the exit status and what it prints.
\<close>

definition md5_test_main :: "MD5_CTX \<Rightarrow> cstring list \<Rightarrow> nat \<times> string" where
  "md5_test_main stack argv =
    (if length argv \<noteq> 2 then (1, ''usage: md5_test string_to_hash'' @ [CHR 0x0A])
     else (0, ''md5('' @ argv ! 1 @ '') = '' @ cstr (MD5Digest stack (to_bytes (argv ! 1))) @ [CHR 0x0A]))"

end
