(* ===== verification/Inode_Cache.thy ===== *)
theory Inode_Cache
  imports Posix MD5
begin

text \<open>
  The cache of \<^verbatim>\<open>c/inodecache.c\<close>: an entry is a file of the cache directory named by the MD5
  digest of the identity of an inode (device, number, size, modification time) and of the kind
  of the value; a file with the suffix \<^verbatim>\<open>.lock\<close> guards it. Each function of the source is one
  definition; the code after its label \<^verbatim>\<open>out\<close> is a definition of its own, which takes the
  locals the label reads.
\<close>

definition INO_CACHE_VERSION :: u16 where "INO_CACHE_VERSION = 1"
definition INO_CACHE_ENTRY_MAX_SIZE :: nat where "INO_CACHE_ENTRY_MAX_SIZE = 512"

record inode_cache =
  ic_dir :: "cstring option"
  ic_dirfd :: int

section \<open>Opening and closing the directory\<close>

definition inode_cache_open :: "inode_cache \<Rightarrow> world \<Rightarrow> int \<times> inode_cache \<times> world" where
  "inode_cache_open cache w =
    (if 0 \<le> ic_dirfd cache then (0, cache, w)
     else case ic_dir cache of
            None \<Rightarrow> (-1, cache, w)
          | Some dir \<Rightarrow>
              let (dirfd, w) = sys_open dir [O_PATH, O_DIRECTORY] w
              in if dirfd < 0 then (dirfd, cache, w)
                 else (0, cache\<lparr>ic_dirfd := dirfd\<rparr>, w))"

definition inode_cache_close :: "inode_cache \<Rightarrow> world \<Rightarrow> inode_cache \<times> world" where
  "inode_cache_close cache w =
    (let (_, w) = sys_close (ic_dirfd cache) w in (cache\<lparr>ic_dirfd := -1\<rparr>, w))"

section \<open>The name of an entry\<close>

record ino_hash =
  h_version :: u16
  h_kind :: u16
  h_dev :: u32
  h_ino :: u64
  h_size :: u64
  h_mtime :: u64

text \<open>The packed struct in memory, on a little-endian host.\<close>

definition put_le :: "nat \<Rightarrow> 'a::len word \<Rightarrow> bytes" where
  "put_le n v = map (\<lambda>i. ucast (drop_bit (8 * i) v)) [0..<n]"

definition ino_hash_bytes :: "ino_hash \<Rightarrow> bytes" where
  "ino_hash_bytes b = put_le 2 (h_version b) @ put_le 2 (h_kind b) @ put_le 4 (h_dev b) @
     put_le 8 (h_ino b) @ put_le 8 (h_size b) @ put_le 8 (h_mtime b)"

text \<open>Microseconds: a 64-bit product, then the nanoseconds divided towards zero.\<close>

definition mtime_usec :: "stat_buf \<Rightarrow> u64" where
  "mtime_usec st = of_int (1000000 * st_mtim_sec st) + of_int (st_mtim_nsec st sdiv 1000)"

text \<open>
  The product is computed in a signed 64-bit integer: when it does not fit its overflow is
  undefined, and recorded; the sum is unsigned.
\<close>

definition mtime_overflows :: "stat_buf \<Rightarrow> bool" where
  "mtime_overflows st \<longleftrightarrow> \<not> (- (2 ^ 63) \<le> 1000000 * st_mtim_sec st \<and> 1000000 * st_mtim_sec st < 2 ^ 63)"

definition mtime_checked :: "stat_buf \<Rightarrow> world \<Rightarrow> world" where
  "mtime_checked st w = (if mtime_overflows st then log_ub Signed_overflow w else w)"

definition ino_hash_of :: "stat_buf \<Rightarrow> u16 \<Rightarrow> ino_hash" where
  "ino_hash_of st kind = \<lparr>h_version = INO_CACHE_VERSION, h_kind = kind, h_dev = ucast (st_dev st),
     h_ino = st_ino st, h_size = st_size st, h_mtime = mtime_usec st\<rparr>"

text \<open>What the uninitialised context on the stack happens to hold.\<close>

definition stack_ctx :: "world \<Rightarrow> MD5_CTX" where
  "stack_ctx w = \<lparr>ctx_state = [], ctx_count = 0,
     ctx_buffer = map (\<lambda>i. of_char (stack_byte w i)) [0..<64]\<rparr>"

definition hash_inode :: "ptr \<Rightarrow> cstring \<Rightarrow> u16 \<Rightarrow> world \<Rightarrow> int \<times> ptr \<times> world" where
  "hash_inode entry_name path kind w =
    (case sys_stat path w of
       (_, None, w) \<Rightarrow> (- errno w, entry_name, w)
     | (_, Some st, w) \<Rightarrow>
         let w = mtime_checked st w;
             buf = ino_hash_of st kind;
             digest = MD5Digest (stack_ctx w) (ino_hash_bytes buf);
             (err, p, w) = c_asprintf (cstr digest) w
         in if err \<noteq> -1 then (0, p, w) else (- errno_val ENOMEM, NULL, w))"

section \<open>Reading and writing an entry\<close>

lemma sys_read_le:
  "sys_read fd len w = (n, data, w') \<Longrightarrow> 0 < n \<Longrightarrow> n = int (length data) \<and> length data \<le> len"
  by (auto simp: sys_read_def Let_def split: prod.splits fault.splits option.splits fd_obj.splits
    bool.splits)

lemma sys_write_le:
  "sys_write fd data w = (n, w') \<Longrightarrow> 0 \<le> n \<Longrightarrow> data \<noteq> [] \<Longrightarrow> 0 < n \<and> nat n \<le> length data"
  by (auto simp: sys_write_def fail_with_def Let_def
    split: prod.splits fault.splits option.splits fd_obj.splits bool.splits)

text \<open>
  The loop of \<open>read_entry\<close>: \<open>pos\<close> is how far \<open>result\<close> has advanced in the buffer,
  \<open>len\<close> what is left, \<open>bytes_read\<close> the result of the last call.
\<close>

function read_loop ::
  "int \<Rightarrow> nat \<Rightarrow> nat \<Rightarrow> int \<Rightarrow> cbuffer \<Rightarrow> world \<Rightarrow> int \<times> nat \<times> cbuffer \<times> world" where
  "read_loop fd pos len bytes_read buf w =
    (if 0 < len then
       (case sys_read fd len w of (n, data, w') \<Rightarrow>
          if 0 < n then read_loop fd (pos + nat n) (len - nat n) n (memcpy_at buf pos data) w'
          else (n, pos, buf, w'))
     else (bytes_read, pos, buf, w))"
  by pat_completeness auto
termination
  by (relation "measure (\<lambda>(fd, pos, len, _). len)") (auto dest: sys_read_le)

declare read_loop.simps [simp del]

definition read_entry :: "int \<Rightarrow> cbuffer \<Rightarrow> world \<Rightarrow> int \<times> cbuffer \<times> world" where
  "read_entry fd buf w =
    (if length buf \<le> 1 then (- errno_val EINVAL, buf, w)
     else
       let (bytes_read, pos, buf, w) = read_loop fd 0 (length buf - 1) 0 buf w
       in if bytes_read < 0 then (- errno w, buf, w)
          else if bytes_read = 0 then
            \<comment> \<open>\<open>result[-1]\<close> lies before the buffer when nothing has been read\<close>
            (let w = (if pos = 0 then log_ub Out_of_bounds w else w);
                 prev = (if pos = 0 then stack_byte w (length buf) else buf ! (pos - 1))
             in (0, if prev \<noteq> NUL then buf[pos := NUL] else buf, w))
          else (- EXIT_FAILURE, buf, w))"

function write_entry :: "int \<Rightarrow> cbuffer \<Rightarrow> world \<Rightarrow> int \<times> world" where
  "write_entry fd value w =
    (if value \<noteq> [] then
       (case sys_write fd value w of (n, w') \<Rightarrow>
          if n < 0 then (- errno w', w')
          else write_entry fd (drop (nat n) value) w')
     else (0, w))"
  by pat_completeness auto
termination
  by (relation "measure (\<lambda>(fd, value, w). length value)") (auto dest!: sys_write_le [OF sym])

declare write_entry.simps [simp del]

section \<open>The lock of an entry\<close>

text \<open>The string a pointer designates, as a call that takes it reads it.\<close>

definition load_str :: "ptr \<Rightarrow> world \<Rightarrow> cstring \<times> world" where
  "load_str p w =
    (case heap_str w p of Some s \<Rightarrow> (s, w) | None \<Rightarrow> ([], log_ub (Dangling_pointer p) w))"

definition inode_cache_lock_out :: "int \<Rightarrow> int \<Rightarrow> ptr \<Rightarrow> world \<Rightarrow> int \<times> world" where
  "inode_cache_lock_out fd err lock_name w =
    (let w = c_free lock_name w
     in if err \<noteq> 0 then
          let w = (if 0 \<le> fd then snd (sys_close fd w) else w)
          in (if 0 < err then - err else err, w)
        else (fd, w))"

definition inode_cache_lock :: "int \<Rightarrow> ptr \<Rightarrow> bool \<Rightarrow> world \<Rightarrow> int \<times> world" where
  "inode_cache_lock dirfd entry_name exclusive w =
    (let (name, w) = load_str entry_name w;
         (n, lock_name, w) = c_asprintf (name @ ''.lock'') w
     in if n < 0 then inode_cache_lock_out (- errno_val ENOMEM) 0 NULL w
        else
          let (fd, w) = sys_openat dirfd (name @ ''.lock'')
                (if exclusive then [O_WRONLY, O_TRUNC, O_CREAT] else [O_RDONLY]) w
          in if fd < 0 then inode_cache_lock_out fd (- errno w) lock_name w
             else
               let (r, w) = sys_flock fd (Some (if exclusive then LOCK_EX else LOCK_SH)) w
               in if r < 0 then inode_cache_lock_out fd (- errno w) lock_name w
                  else inode_cache_lock_out fd 0 lock_name w)"

definition inode_cache_unlock :: "int \<Rightarrow> world \<Rightarrow> int \<times> world" where
  "inode_cache_unlock lockfd w =
    (let (_, w) = sys_flock lockfd None w;
         (_, w) = sys_close lockfd w
     in (-1, w))"

section \<open>The three operations\<close>

text \<open>
  The out parameter \<open>result\<close>: \<open>None\<close> is a null pointer, \<open>Some p\<close> the address of a
  variable that holds \<open>p\<close>.
\<close>

definition get_out :: "int \<Rightarrow> int \<Rightarrow> int \<Rightarrow> ptr \<Rightarrow> ptr option \<Rightarrow> world \<Rightarrow> int \<times> ptr option \<times> world" where
  "get_out err entry_fd lock_fd entry_name result w =
    (let w = (if 0 \<le> entry_fd then snd (sys_close entry_fd w) else w);
         w = (if 0 \<le> lock_fd then snd (inode_cache_unlock lock_fd w) else w);
         w = c_free entry_name w
     in (err, result, w))"

text \<open>\<open>inode_cache_get\<close> from the point where it holds the lock.\<close>

definition get_locked :: "inode_cache \<Rightarrow> ptr \<Rightarrow> int \<Rightarrow> ptr option \<Rightarrow> world \<Rightarrow> int \<times> ptr option \<times> world" where
  "get_locked cache entry_name lock_fd result w =
    (let (name, w) = load_str entry_name w;
         (entry_fd, w) = sys_openat (ic_dirfd cache) name [O_RDONLY, O_NOFOLLOW] w
     in if entry_fd < 0 then get_out (- errno w) entry_fd lock_fd entry_name result w
        else
          let val_buf = map (stack_byte w) [0..<INO_CACHE_ENTRY_MAX_SIZE];
              (err, val_buf, w) = read_entry entry_fd val_buf w;
              (p, w) = c_strdup val_buf w
          in if p = NULL
             then get_out (- errno_val ENOMEM) entry_fd lock_fd entry_name (Some p) w
             else get_out err entry_fd lock_fd entry_name (Some p) w)"

definition inode_cache_get ::
  "inode_cache \<Rightarrow> cstring \<Rightarrow> u16 \<Rightarrow> ptr option \<Rightarrow> world \<Rightarrow> int \<times> ptr option \<times> world" where
  "inode_cache_get cache path kind result w =
    (if result = None then get_out (- errno_val EINVAL) (-1) (-1) NULL result w
     else
       let (err, entry_name, w) = hash_inode NULL path kind w
       in if err \<noteq> 0 then get_out err (-1) (-1) NULL result w
          else
            let (lock_fd, w) = inode_cache_lock (ic_dirfd cache) entry_name False w
            in if lock_fd < 0 then get_out lock_fd (-1) lock_fd entry_name result w
               else get_locked cache entry_name lock_fd result w)"

definition put_out :: "int \<Rightarrow> int \<Rightarrow> int \<Rightarrow> ptr \<Rightarrow> world \<Rightarrow> int \<times> world" where
  "put_out err entry_fd lock_fd entry_name w =
    (let w = (if 0 \<le> lock_fd then snd (inode_cache_unlock lock_fd w) else w);
         w = c_free entry_name w;
         w = (if 0 \<le> entry_fd then snd (sys_close entry_fd w) else w)
     in (err, w))"

text \<open>\<open>inode_cache_put\<close> from the point where it holds the lock.\<close>

definition put_locked :: "inode_cache \<Rightarrow> ptr \<Rightarrow> int \<Rightarrow> cstring \<Rightarrow> world \<Rightarrow> int \<times> world" where
  "put_locked cache entry_name lock_fd value w =
    (let (name, w) = load_str entry_name w;
         (entry_fd, w) = sys_openat (ic_dirfd cache) name [O_WRONLY, O_TRUNC, O_CREAT] w
     in if entry_fd < 0 then put_out entry_fd entry_fd lock_fd entry_name w
        else
          let (err, w) = write_entry entry_fd (value @ [NUL]) w
          in if err \<noteq> 0 then put_out err entry_fd lock_fd entry_name w
             else
               let (r, w) = sys_fsync entry_fd w
               in if r < 0 then put_out (- errno w) entry_fd lock_fd entry_name w
                  else
                    let (r, w) = sys_close entry_fd w
                    in if r < 0 then put_out (- errno w) entry_fd lock_fd entry_name w
                       else put_out 0 (-1) lock_fd entry_name w)"

definition inode_cache_put ::
  "inode_cache option \<Rightarrow> cstring option \<Rightarrow> u16 \<Rightarrow> cstring option \<Rightarrow> world \<Rightarrow> int \<times> world" where
  "inode_cache_put cache path kind value w =
    (case cache of None \<Rightarrow> put_out (- errno_val EINVAL) (-1) (-1) NULL w
     | Some cache \<Rightarrow>
    (case path of None \<Rightarrow> put_out (- errno_val EINVAL) (-1) (-1) NULL w
     | Some path \<Rightarrow>
    (case value of None \<Rightarrow> put_out (- errno_val EINVAL) (-1) (-1) NULL w
     | Some value \<Rightarrow>
       let value_len = length value + 1
       in if INO_CACHE_ENTRY_MAX_SIZE < value_len
          then put_out (- errno_val E2BIG) (-1) (-1) NULL w
          else
            let (err, entry_name, w) = hash_inode NULL path kind w
            in if err \<noteq> 0 then put_out err (-1) (-1) NULL w
               else
                 let (lock_fd, w) = inode_cache_lock (ic_dirfd cache) entry_name True w
                 in if lock_fd < 0 then put_out lock_fd (-1) lock_fd entry_name w
                    else put_locked cache entry_name lock_fd value w)))"

definition del_out :: "int \<Rightarrow> int \<Rightarrow> ptr \<Rightarrow> world \<Rightarrow> int \<times> world" where
  "del_out err lock_fd entry_name w =
    (let w = (if 0 \<le> lock_fd then snd (inode_cache_unlock lock_fd w) else w);
         w = c_free entry_name w
     in (err, w))"

definition inode_cache_del :: "inode_cache \<Rightarrow> cstring \<Rightarrow> u16 \<Rightarrow> world \<Rightarrow> int \<times> world" where
  "inode_cache_del cache path kind w =
    (let (err, entry_name, w) = hash_inode NULL path kind w
     in if err \<noteq> 0 then del_out err (-1) entry_name w
        else
          let (lock_fd, w) = inode_cache_lock (ic_dirfd cache) entry_name True w
          in if lock_fd < 0 then del_out lock_fd lock_fd entry_name w
             else
               let (name, w) = load_str entry_name w;
                   (r, w) = sys_unlinkat (ic_dirfd cache) name w
               in if r \<noteq> 0 then
                    if errno w = errno_val ENOENT then del_out 0 lock_fd entry_name w
                    else del_out (- errno w) lock_fd entry_name w
                  else del_out 0 lock_fd entry_name w)"

end
