(* ===== verification/Posix_Frame.thy ===== *)
theory Posix_Frame
  imports Posix
begin

text \<open>
  What each call of \<open>Posix\<close> does to the resources of the process: its descriptors, locks
  and heap, and the log of undefined behaviour. Every lemma covers all outcomes of the call,
  whatever faults are scheduled; the component theories compose them.
\<close>

section \<open>The resources of the process\<close>

record resources =
  rs_fds :: "nat \<rightharpoonup> fd_obj"
  rs_flocks :: "nat \<rightharpoonup> lock_kind"
  rs_heap :: "ptr \<rightharpoonup> cbuffer"
  rs_next :: ptr
  rs_ub :: "ub list"
  rs_stack :: "nat \<Rightarrow> char"

definition res :: "world \<Rightarrow> resources" where
  "res w = \<lparr>rs_fds = fds w, rs_flocks = flocks w, rs_heap = heap w, rs_next = next_ptr w,
     rs_ub = ub_log w, rs_stack = stack_byte w\<rparr>"

lemma res_sel [simp]:
  "rs_fds (res w) = fds w" "rs_flocks (res w) = flocks w" "rs_heap (res w) = heap w"
  "rs_next (res w) = next_ptr w" "rs_ub (res w) = ub_log w" "rs_stack (res w) = stack_byte w"
  by (simp_all add: res_def)

lemma res_eqD:
  assumes "res w' = r"
  shows "fds w' = rs_fds r" "flocks w' = rs_flocks r" "heap w' = rs_heap r"
    "next_ptr w' = rs_next r" "ub_log w' = rs_ub r" "stack_byte w' = rs_stack r"
  using assms by auto

lemma res_frame [simp]:
  "res (w\<lparr>faults := f\<rparr>) = res w" "res (w\<lparr>errno := e\<rparr>) = res w" "res (w\<lparr>inodes := n\<rparr>) = res w"
  "res (w\<lparr>next_ino := k\<rparr>) = res w"
  "res (w\<lparr>fds := a\<rparr>) = res w\<lparr>rs_fds := a\<rparr>"
  "res (w\<lparr>flocks := b\<rparr>) = res w\<lparr>rs_flocks := b\<rparr>"
  "res (w\<lparr>heap := c\<rparr>) = res w\<lparr>rs_heap := c\<rparr>"
  "res (w\<lparr>next_ptr := d\<rparr>) = res w\<lparr>rs_next := d\<rparr>"
  "res (w\<lparr>ub_log := g\<rparr>) = res w\<lparr>rs_ub := g\<rparr>"
  by (simp_all add: res_def)

lemma res_next_fault [simp]: "res (snd (next_fault w)) = res w"
  by (simp add: next_fault_def split: list.split)

lemma next_fault_res: "next_fault w = (f, w') \<Longrightarrow> res w' = res w"
  using res_next_fault [of w] by simp

lemma fail_with_res [simp]: "res (snd (fail_with e w)) = res w" "fst (fail_with e w) = -1"
  "errno (snd (fail_with e w)) = errno_val e"
  by (simp_all add: fail_with_def)

lemma res_set_content [simp]: "res (set_content i c w) = res w"
  by (simp add: set_content_def split: option.split)

lemma res_set_entry [simp]: "res (set_entry d n j w) = res w"
  by (simp add: set_entry_def split: option.split content.split)

lemma res_new_inode [simp]: "res (snd (new_inode d n c w)) = res w"
  by (simp add: new_inode_def Let_def)

lemma free_fd_None: "free_fd w = Some n \<Longrightarrow> fds w n = None \<and> n < fd_max w"
  by (auto simp: free_fd_def find_Some_iff)

text \<open>A call that returns a result and leaves the resources alone.\<close>

definition plain_result :: "world \<Rightarrow> int \<Rightarrow> world \<Rightarrow> bool" where
  "plain_result w r w' \<longleftrightarrow> res w' = res w \<and> (r = 0 \<or> r = -1 \<and> 0 < errno w')"

lemma plain_fail: "res w = res w0 \<Longrightarrow> fail_with e w = (r, w') \<Longrightarrow> plain_result w0 r w'"
  by (auto simp: plain_result_def fail_with_def)

lemma plain_ok: "res w' = res w0 \<Longrightarrow> plain_result w0 0 w'"
  by (simp add: plain_result_def)

lemmas fault_cases = fault.splits prod.splits option.splits sum.splits content.splits if_splits

section \<open>Opening and closing\<close>

definition opened :: "world \<Rightarrow> int \<Rightarrow> world \<Rightarrow> bool" where
  "opened w r w' \<longleftrightarrow>
     r = -1 \<and> res w' = res w \<and> 0 < errno w' \<or>
     (\<exists>n f. r = int n \<and> fds w n = None \<and> res w' = res w\<lparr>rs_fds := (fds w)(n \<mapsto> f)\<rparr>)"

lemma opened_fail: "res w = res w0 \<Longrightarrow> fail_with e w = (r, w') \<Longrightarrow> opened w0 r w'"
  by (auto simp: opened_def fail_with_def)

lemma opened_install:
  "res w = res w0 \<Longrightarrow> fds w0 n = None \<Longrightarrow> install_fd n f w = (r, w') \<Longrightarrow> opened w0 r w'"
  using res_eqD(1) [of w "res w0"] by (auto simp: opened_def install_fd_def)

lemma open_existing_opened:
  assumes "res w = res w0" "fds w0 n = None" "open_existing flags n i w = (r, w')"
  shows "opened w0 r w'"
  using assms
  by (auto simp: open_existing_def split: option.splits content.splits if_splits
      elim: opened_fail intro: opened_install [of "set_content i (Reg []) w"] opened_install)

lemma sys_openat_opened:
  assumes "sys_openat dirfd path flags w = (r, w')"
  shows "opened w r w'"
proof -
  obtain f w1 where nf: "next_fault w = (f, w1)" by (cases "next_fault w")
  then have r1: "res w1 = res w" by (rule next_fault_res)
  then have fd1: "fds w1 = fds w" using res_eqD(1) [of w1 "res w"] by simp
  show ?thesis
  proof (cases "(\<exists>e. f = Fail e) \<or> free_fd w1 = None")
    case True
    then show ?thesis using assms nf r1
      by (auto simp: sys_openat_def split: fault.splits intro: opened_fail)
  next
    case False
    then obtain n where n: "free_fd w1 = Some n" by auto
    then have free: "fds w n = None" using free_fd_None fd1 by metis
    have new: "opened w r w'"
      if "new_inode d nm c w1 = (j, w2)" "install_fd n g w2 = (r, w')" for d nm c j w2 g
    proof -
      have "res w2 = res w" using that(1) res_new_inode [of d nm c w1] r1 by simp
      then show ?thesis using free that(2) by (rule opened_install)
    qed
    show ?thesis using assms nf n False
      by (auto simp: sys_openat_def split: fault.splits sum.splits prod.splits option.splits if_splits
          intro: open_existing_opened [OF r1 free] opened_fail [OF r1] new)
  qed
qed

lemma sys_open_opened: "sys_open path flags w = (r, w') \<Longrightarrow> opened w r w'"
  unfolding sys_open_def by (rule sys_openat_opened)

lemma sys_close_res:
  assumes "fds w n \<noteq> None"
  shows "res (snd (sys_close (int n) w)) =
    res w\<lparr>rs_fds := (fds w)(n := None), rs_flocks := (flocks w)(n := None)\<rparr>"
proof -
  obtain f w1 where nf: "next_fault w = (f, w1)" by (cases "next_fault w")
  then have "res w1 = res w" by (rule next_fault_res)
  moreover from this have "fds w1 = fds w" "flocks w1 = flocks w"
    using res_eqD [of w1 "res w"] by simp_all
  ultimately show ?thesis using assms nf
    by (auto simp: sys_close_def fd_lookup_def Let_def split: fault.split)
qed

lemma sys_close_result: "fst (sys_close fd w) = 0 \<or> fst (sys_close fd w) = -1"
  by (auto simp: sys_close_def Let_def split: option.split fault.split prod.split)

lemma sys_close_errno: "fst (sys_close fd w) < 0 \<Longrightarrow> 0 < errno (snd (sys_close fd w))"
  by (auto simp: sys_close_def fail_with_def Let_def split: option.splits fault.splits prod.splits)

lemma sys_flock_cases:
  assumes "sys_flock (int n) op w = (r, w')" "fds w n \<noteq> None"
  shows "r = -1 \<and> res w' = res w \<and> 0 < errno w' \<or>
    r = 0 \<and> res w' = res w\<lparr>rs_flocks := (flocks w)(n := op)\<rparr>"
proof -
  obtain f w1 where nf: "next_fault w = (f, w1)" by (cases "next_fault w")
  then have "res w1 = res w" by (rule next_fault_res)
  moreover from this have "fds w1 = fds w" "flocks w1 = flocks w"
    using res_eqD [of w1 "res w"] by simp_all
  ultimately show ?thesis using assms nf
    by (auto simp: sys_flock_def fd_lookup_def fail_with_def split: fault.splits)
qed

section \<open>Input, output and names\<close>

text \<open>A transfer moves the offset of an open descriptor, nothing else.\<close>

definition transferred :: "world \<Rightarrow> nat \<Rightarrow> world \<Rightarrow> bool" where
  "transferred w n w' \<longleftrightarrow>
     (\<exists>g. res w' = res w\<lparr>rs_fds := g\<rparr> \<and> (\<forall>m. m \<noteq> n \<longrightarrow> g m = fds w m) \<and> (g n = None \<longleftrightarrow> fds w n = None))"

lemma transferred_same: "res w = res w0 \<Longrightarrow> transferred w0 n w"
  unfolding transferred_def by (rule exI [of _ "fds w0"]) (simp add: res_def)

lemma transferred_refl [simp]: "transferred w n w"
  by (simp add: transferred_same)

lemma transferred_trans:
  assumes "transferred w n w1" "transferred w1 n w2"
  shows "transferred w n w2"
proof -
  from assms(1) obtain g where g: "res w1 = res w\<lparr>rs_fds := g\<rparr>"
    "\<forall>m. m \<noteq> n \<longrightarrow> g m = fds w m" "g n = None \<longleftrightarrow> fds w n = None"
    by (auto simp: transferred_def)
  from g(1) have "fds w1 = g" by (auto dest: res_eqD)
  with assms(2) obtain h where "res w2 = res w1\<lparr>rs_fds := h\<rparr>"
    "\<forall>m. m \<noteq> n \<longrightarrow> h m = g m" "h n = None \<longleftrightarrow> g n = None"
    by (auto simp: transferred_def)
  with g show ?thesis unfolding transferred_def by (intro exI [of _ h]) simp
qed

lemma transferredI:
  assumes "res w = res w0" "fds w0 n = Some y"
  shows "transferred w0 n (w\<lparr>fds := (fds w0)(n \<mapsto> f)\<rparr>)"
  unfolding transferred_def by (rule exI [of _ "(fds w0)(n \<mapsto> f)"]) (simp add: assms)

lemma transferred_write:
  "res w = res w0 \<Longrightarrow> fds w0 n = Some y \<Longrightarrow> transferred w0 n (set_content i c (w\<lparr>fds := (fds w0)(n \<mapsto> f)\<rparr>))"
  using transferredI [of w w0 n y f] by (simp add: transferred_def)

lemma transferred_fail: "res w = res w0 \<Longrightarrow> transferred w0 n (w\<lparr>errno := e\<rparr>)"
  by (rule transferred_same) simp

lemma sys_read_transferred:
  assumes "sys_read (int n) len w = (r, d, w')"
  shows "transferred w n w' \<and> (r < 0 \<longrightarrow> 0 < errno w')"
proof -
  obtain f w1 where nf: "next_fault w = (f, w1)" by (cases "next_fault w")
  then have r1: "res w1 = res w" by (rule next_fault_res)
  then have "fds w1 = fds w" using res_eqD(1) [of w1 "res w"] by simp
  with assms nf r1 show ?thesis
    by (auto simp: sys_read_def fd_lookup_def fail_with_def Let_def
        split: fault.splits option.splits fd_obj.splits bool.splits
        intro: transferred_fail transferredI [OF r1])
qed

lemma sys_write_transferred:
  assumes "sys_write (int n) d w = (r, w')"
  shows "transferred w n w' \<and> (r < 0 \<longrightarrow> 0 < errno w')"
proof -
  obtain f w1 where nf: "next_fault w = (f, w1)" by (cases "next_fault w")
  then have r1: "res w1 = res w" by (rule next_fault_res)
  then have "fds w1 = fds w" using res_eqD(1) [of w1 "res w"] by simp
  with assms nf r1 show ?thesis
    by (auto simp: sys_write_def fd_lookup_def fail_with_def Let_def
        split: fault.splits option.splits fd_obj.splits bool.splits
        intro: transferred_fail transferred_write [OF r1])
qed

lemma sys_fsync_plain: "sys_fsync fd w = (r, w') \<Longrightarrow> plain_result w r w'"
  using next_fault_res [of w]
  by (auto simp: sys_fsync_def split: fault.splits prod.splits option.splits
      intro: plain_fail plain_ok)

lemma sys_unlinkat_plain: "sys_unlinkat d p w = (r, w') \<Longrightarrow> plain_result w r w'"
  using next_fault_res [of w]
  by (auto simp: sys_unlinkat_def split: fault_cases intro: plain_fail plain_ok)

lemma sys_mkdirat_plain:
  assumes "sys_mkdirat d p w = (r, w')"
  shows "plain_result w r w'"
proof -
  obtain f w1 where nf: "next_fault w = (f, w1)" by (cases "next_fault w")
  then have r1: "res w1 = res w" by (rule next_fault_res)
  with assms nf show ?thesis
    by (auto simp: sys_mkdirat_def split: fault_cases intro: plain_fail [OF r1] plain_ok)
qed

lemma sys_stat_cases:
  assumes "sys_stat p w = (r, st, w')"
  shows "res w' = res w \<and> (st = None \<and> r = -1 \<and> 0 < errno w' \<or> st \<noteq> None \<and> r = 0)"
proof -
  obtain f w1 where nf: "next_fault w = (f, w1)" by (cases "next_fault w")
  then have "res w1 = res w" by (rule next_fault_res)
  with assms nf show ?thesis
    by (auto simp: sys_stat_def fail_with_def split: fault.splits sum.splits)
qed

section \<open>The heap\<close>

lemma c_asprintf_cases:
  assumes "c_asprintf s w = (r, p, w')"
  shows "r = -1 \<and> p = NULL \<and> res w' = res w \<or>
    0 \<le> r \<and> p = next_ptr w \<and>
    res w' = res w\<lparr>rs_heap := (heap w)(p \<mapsto> s @ [NUL]), rs_next := Suc p\<rparr>"
proof -
  obtain f w1 where nf: "next_fault w = (f, w1)" by (cases "next_fault w")
  then have "res w1 = res w" by (rule next_fault_res)
  with assms nf res_eqD [of w1 "res w"] show ?thesis
    by (auto simp: c_asprintf_def alloc_def split: fault.splits)
qed

lemma c_strdup_cases:
  assumes "c_strdup b w = (p, w')" "terminated b"
  shows "p = NULL \<and> res w' = res w \<or> p = next_ptr w \<and>
    res w' = res w\<lparr>rs_heap := (heap w)(p \<mapsto> cstr b @ [NUL]), rs_next := Suc p\<rparr>"
proof -
  obtain f w1 where nf: "next_fault w = (f, w1)" by (cases "next_fault w")
  then have "res w1 = res w" by (rule next_fault_res)
  with assms nf res_eqD [of w1 "res w"] show ?thesis
    by (auto simp: c_strdup_def alloc_def split: fault.splits)
qed

lemma c_free_NULL [simp]: "c_free NULL w = w"
  by (simp add: c_free_def)

lemma c_free_res: "p \<noteq> NULL \<Longrightarrow> heap w p \<noteq> None \<Longrightarrow> res (c_free p w) = res w\<lparr>rs_heap := (heap w)(p := None)\<rparr>"
  by (auto simp: c_free_def)

lemma heap_okD: "heap_ok w \<Longrightarrow> heap w (next_ptr w) = None" "heap_ok w \<Longrightarrow> next_ptr w \<noteq> 0"
  by (simp_all add: heap_ok_def)

section \<open>Ownership\<close>

text \<open>
  \<open>owns w0 D H us w\<close>: since \<open>w0\<close> the process has acquired the descriptors \<open>D\<close> and the
  heap blocks \<open>H\<close>, has given nothing else up, and has logged \<open>us\<close>. A function that
  ends with empty \<open>D\<close> and \<open>H\<close> has neither leaked nor lost anything.
\<close>

definition owns :: "world \<Rightarrow> nat set \<Rightarrow> ptr set \<Rightarrow> ub list \<Rightarrow> world \<Rightarrow> bool" where
  "owns w0 D H us w \<longleftrightarrow>
     (\<forall>n. n \<notin> D \<longrightarrow> fds w n = fds w0 n \<and> flocks w n = flocks w0 n) \<and>
     (\<forall>n \<in> D. fds w0 n = None \<and> flocks w0 n = None \<and> fds w n \<noteq> None) \<and>
     (\<forall>p. p \<notin> H \<longrightarrow> heap w p = heap w0 p) \<and>
     (\<forall>p \<in> H. p \<noteq> NULL \<and> heap w0 p = None \<and> heap w p \<noteq> None) \<and>
     ub_log w = ub_log w0 @ us \<and> stack_byte w = stack_byte w0 \<and> heap_ok w \<and>
     (\<forall>n. fds w0 n = None \<longrightarrow> flocks w0 n = None)"

text \<open>A process with a sound heap that holds locks on open descriptors only.\<close>

definition proc_ok :: "world \<Rightarrow> bool" where
  "proc_ok w \<longleftrightarrow> heap_ok w \<and> (\<forall>n. fds w n = None \<longrightarrow> flocks w n = None)"

lemma owns_start: "proc_ok w \<Longrightarrow> owns w {} {} [] w"
  by (simp add: owns_def proc_ok_def)

lemma owns_end:
  assumes "owns w0 {} {} us w"
  shows "fds w = fds w0" "flocks w = flocks w0" "heap w = heap w0" "ub_log w = ub_log w0 @ us"
    "proc_ok w"
  using assms by (auto simp: owns_def proc_ok_def)

lemma owns_stack: "owns w0 D H us w \<Longrightarrow> stack_byte w = stack_byte w0"
  by (simp add: owns_def)

lemma owns_res: "owns w0 D H us w \<Longrightarrow> res w' = res w \<Longrightarrow> owns w0 D H us w'"
  by (frule res_eqD(1), frule res_eqD(2), frule res_eqD(3), frule res_eqD(4), frule res_eqD(5),
    frule res_eqD(6)) (simp add: owns_def heap_ok_def)

lemma owns_plain: "owns w0 D H us w \<Longrightarrow> plain_result w r w' \<Longrightarrow> owns w0 D H us w'"
  by (auto simp: plain_result_def intro: owns_res)

lemma owns_opened:
  assumes "owns w0 D H us w" "opened w r w'"
  shows "r = -1 \<and> owns w0 D H us w' \<and> 0 < errno w' \<or>
    (\<exists>n. r = int n \<and> n \<notin> D \<and> owns w0 (insert n D) H us w')"
  using assms(2) unfolding opened_def
proof (elim disjE exE conjE)
  assume "r = -1" "res w' = res w" "0 < errno w'"
  then show ?thesis using assms(1) by (auto intro: owns_res)
next
  fix n f assume n: "r = int n" "fds w n = None" and r: "res w' = res w\<lparr>rs_fds := (fds w)(n \<mapsto> f)\<rparr>"
  then have "n \<notin> D" using assms(1) by (auto simp: owns_def)
  moreover have "owns w0 (insert n D) H us w'"
    using assms(1) n(2) res_eqD [OF r] \<open>n \<notin> D\<close> by (auto simp: owns_def heap_ok_def)
  ultimately show ?thesis using n(1) by blast
qed

lemma owns_close:
  assumes "owns w0 D H us w" "n \<in> D"
  shows "owns w0 (D - {n}) H us (snd (sys_close (int n) w))"
proof -
  have "fds w n \<noteq> None" using assms by (simp add: owns_def)
  from res_eqD [OF sys_close_res [OF this]] assms show ?thesis
    by (auto simp: owns_def heap_ok_def)
qed

lemma owns_close_foreign:
  assumes "owns w0 D H us w" "fds w n = None"
  shows "owns w0 D H us (snd (sys_close (int n) w))"
  using assms by (auto simp: sys_close_def fd_lookup_def intro: owns_res)

lemma owns_flock:
  assumes "owns w0 D H us w" "n \<in> D" "sys_flock (int n) op w = (r, w')"
  shows "owns w0 D H us w' \<and> (r = 0 \<or> r = -1 \<and> 0 < errno w')"
proof -
  have "fds w n \<noteq> None" using assms by (simp add: owns_def)
  from sys_flock_cases [OF assms(3) this] show ?thesis
  proof (elim disjE conjE)
    assume "r = -1" "res w' = res w" "0 < errno w'"
    then show ?thesis using assms(1) by (auto intro: owns_res)
  next
    assume "r = 0" and r: "res w' = res w\<lparr>rs_flocks := (flocks w)(n := op)\<rparr>"
    then show ?thesis using assms(1,2) res_eqD [OF r] by (auto simp: owns_def heap_ok_def)
  qed
qed

lemma owns_transferred:
  assumes "owns w0 D H us w" "n \<in> D" "transferred w n w'"
  shows "owns w0 D H us w'"
proof -
  from assms(3) obtain g where g: "res w' = res w\<lparr>rs_fds := g\<rparr>"
    "\<forall>m. m \<noteq> n \<longrightarrow> g m = fds w m" "g n = None \<longleftrightarrow> fds w n = None"
    by (auto simp: transferred_def)
  have own: "m \<notin> D \<Longrightarrow> g m = fds w0 m" "m \<in> D \<Longrightarrow> g m \<noteq> None" for m
    using assms(1,2) g(2,3) by (cases "m = n"; auto simp: owns_def)+
  show ?thesis using assms(1) res_eqD [OF g(1)] own by (auto simp: owns_def heap_ok_def)
qed

lemma owns_fresh:
  assumes "owns w0 D H us w"
    and r: "res w' = res w\<lparr>rs_heap := (heap w)(next_ptr w \<mapsto> b), rs_next := Suc (next_ptr w)\<rparr>"
  shows "next_ptr w \<notin> H" "next_ptr w \<noteq> NULL" "owns w0 D (insert (next_ptr w) H) us w'"
    "heap w' (next_ptr w) = Some b"
proof -
  have ok: "heap w (next_ptr w) = None" "next_ptr w \<noteq> 0"
    using assms(1) by (auto simp: owns_def dest: heap_okD)
  then show n: "next_ptr w \<notin> H" "next_ptr w \<noteq> NULL" using assms(1) by (auto simp: owns_def)
  show "heap w' (next_ptr w) = Some b" using res_eqD [OF r] by simp
  show "owns w0 D (insert (next_ptr w) H) us w'"
    using assms(1) res_eqD [OF r] ok n by (auto simp: owns_def heap_ok_def)
qed

lemma owns_asprintf:
  assumes "owns w0 D H us w" "c_asprintf s w = (r, p, w')"
  shows "r = -1 \<and> p = NULL \<and> owns w0 D H us w' \<or>
    0 \<le> r \<and> p \<noteq> NULL \<and> p \<notin> H \<and> owns w0 D (insert p H) us w' \<and> heap w' p = Some (s @ [NUL])"
  using c_asprintf_cases [OF assms(2)]
proof (elim disjE conjE)
  assume "r = -1" "p = NULL" "res w' = res w"
  then show ?thesis using owns_res [OF assms(1)] by blast
next
  assume "0 \<le> r" "p = next_ptr w"
    "res w' = res w\<lparr>rs_heap := (heap w)(p \<mapsto> s @ [NUL]), rs_next := Suc p\<rparr>"
  then show ?thesis using owns_fresh [OF assms(1), of w' "s @ [NUL]"] by blast
qed

lemma owns_log: "owns w0 D H us w \<Longrightarrow> owns w0 D H (us @ [u]) (log_ub u w)"
  by (simp add: owns_def log_ub_def heap_ok_def)

lemma owns_strdup:
  assumes "owns w0 D H us w" "c_strdup b w = (p, w')"
  shows "\<exists>us'. us' = (if terminated b then us else us @ [Unterminated_string]) \<and>
    (p = NULL \<and> owns w0 D H us' w' \<or>
     p \<noteq> NULL \<and> p \<notin> H \<and> owns w0 D (insert p H) us' w' \<and> heap w' p = Some (cstr b @ [NUL]))"
proof -
  define w1 where "w1 = (if terminated b then w else log_ub Unterminated_string w)"
  define us' where "us' = (if terminated b then us else us @ [Unterminated_string])"
  have o1: "owns w0 D H us' w1"
    using assms(1) owns_log by (simp add: w1_def us'_def)
  obtain f w2 where nf: "next_fault w1 = (f, w2)" by (cases "next_fault w1")
  have o2: "owns w0 D H us' w2" using owns_res [OF o1 next_fault_res [OF nf]] .
  have "p = NULL \<and> owns w0 D H us' w' \<or>
     p \<noteq> NULL \<and> p \<notin> H \<and> owns w0 D (insert p H) us' w' \<and> heap w' p = Some (cstr b @ [NUL])"
  proof (cases "\<exists>e. f = Fail e")
    case True
    then have "p = NULL" "res w' = res w2"
      using assms(2) nf by (auto simp: c_strdup_def w1_def Let_def)
    then show ?thesis using owns_res [OF o2] by blast
  next
    case False
    then have "alloc (cstr b @ [NUL]) w2 = (p, w')"
      using assms(2) nf by (auto simp: c_strdup_def w1_def Let_def split: fault.splits)
    then have "p = next_ptr w2"
      "res w' = res w2\<lparr>rs_heap := (heap w2)(next_ptr w2 \<mapsto> cstr b @ [NUL]), rs_next := Suc (next_ptr w2)\<rparr>"
      by (auto simp: alloc_def)
    then show ?thesis using owns_fresh [OF o2, of w' "cstr b @ [NUL]"] by blast
  qed
  then show ?thesis by (auto simp: us'_def)
qed

lemma owns_free:
  assumes "owns w0 D H us w" "p \<in> H"
  shows "owns w0 D (H - {p}) us (c_free p w)"
proof -
  have "p \<noteq> NULL" "heap w p \<noteq> None" using assms by (auto simp: owns_def)
  from res_eqD [OF c_free_res [OF this]] assms show ?thesis
    by (auto simp: owns_def heap_ok_def)
qed

lemma owns_free_NULL: "owns w0 D H us w \<Longrightarrow> owns w0 D H us (c_free NULL w)"
  by simp

lemma owns_heap_str: "owns w0 D H us w \<Longrightarrow> p \<in> H \<Longrightarrow> \<exists>s. heap_str w p = Some s"
  by (auto simp: owns_def heap_str_def)

end
