(* ===== verification/Posix_Quiet.thy ===== *)
theory Posix_Quiet
  imports Posix_Frame
begin

text \<open>
  The calls of \<open>Posix\<close> on a system on which no fault is scheduled, and the vocabulary of the
  functional theorems: free descriptors, plain names, the parent of a directory.
\<close>

section \<open>Calls on a system without faults\<close>

lemma quiet_fault: "faults w = [] \<Longrightarrow> next_fault w = (Pass, w)"
  by (simp add: next_fault_def)

lemma quiet_close:
  "faults w = [] \<Longrightarrow> fds w n \<noteq> None \<Longrightarrow>
    sys_close (int n) w = (0, w\<lparr>fds := (fds w)(n := None), flocks := (flocks w)(n := None)\<rparr>)"
  by (auto simp: sys_close_def fd_lookup_def quiet_fault Let_def)

lemma quiet_flock:
  "faults w = [] \<Longrightarrow> fds w n \<noteq> None \<Longrightarrow>
    sys_flock (int n) op w = (0, w\<lparr>flocks := (flocks w)(n := op)\<rparr>)"
  by (auto simp: sys_flock_def fd_lookup_def quiet_fault)

lemma quiet_fsync: "faults w = [] \<Longrightarrow> fds w n \<noteq> None \<Longrightarrow> sys_fsync (int n) w = (0, w)"
  by (auto simp: sys_fsync_def fd_lookup_def quiet_fault)

lemma quiet_asprintf:
  "faults w = [] \<Longrightarrow> c_asprintf s w = (int (length s), next_ptr w,
    w\<lparr>heap := (heap w)(next_ptr w \<mapsto> s @ [NUL]), next_ptr := Suc (next_ptr w)\<rparr>)"
  by (simp add: c_asprintf_def quiet_fault alloc_def)

lemma quiet_strdup:
  "faults w = [] \<Longrightarrow> terminated b \<Longrightarrow> c_strdup b w = (next_ptr w,
    w\<lparr>heap := (heap w)(next_ptr w \<mapsto> cstr b @ [NUL]), next_ptr := Suc (next_ptr w)\<rparr>)"
  by (simp add: c_strdup_def quiet_fault alloc_def)

definition room :: "nat \<Rightarrow> world \<Rightarrow> bool" where
  "room k w \<longleftrightarrow> k \<le> card {n. n < fd_max w \<and> fds w n = None}"

lemma room_free:
  assumes "room (Suc k) w"
  shows "\<exists>n. free_fd w = Some n \<and> fds w n = None \<and> n < fd_max w"
proof -
  have "card {n. n < fd_max w \<and> fds w n = None} \<noteq> 0" using assms unfolding room_def by linarith
  then have "{n. n < fd_max w \<and> fds w n = None} \<noteq> {}" by (metis card.empty)
  then obtain m where "m < fd_max w" "fds w m = None" by blast
  then have "find (\<lambda>n. fds w n = None) [0..<fd_max w] \<noteq> None"
    by (auto simp: find_None_iff)
  then show ?thesis using free_fd_None by (auto simp: free_fd_def)
qed

lemma room_install:
  assumes "room (Suc k) w" "fds w n = None" "n < fd_max w" "fds w' = (fds w)(n \<mapsto> f)" "fd_max w' = fd_max w"
  shows "room k w'"
proof -
  have "{m. m < fd_max w' \<and> fds w' m = None} = {m. m < fd_max w \<and> fds w m = None} - {n}"
    using assms(4,5) by auto
  then show ?thesis using assms(1-3) by (simp add: room_def)
qed

section \<open>Names and directories\<close>

definition plain_name :: "cstring \<Rightarrow> bool" where
  "plain_name n \<longleftrightarrow> n \<noteq> [] \<and> n \<noteq> ''.'' \<and> n \<noteq> ''..'' \<and> CHR ''/'' \<notin> set n"

definition dir_parent :: "world \<Rightarrow> ino \<Rightarrow> ino option" where
  "dir_parent w d = (case map_option i_content (inodes w d) of Some (Dir _ p) \<Rightarrow> Some p | _ \<Rightarrow> None)"

lemma inodes_same:
  assumes "inodes w' = inodes w"
  shows "dir_entries w' d = dir_entries w d" "file_data w' i = file_data w i"
  using assms by (simp_all add: dir_entries_def file_data_def)

lemma dir_entries_content: "dir_entries w d = Some ents \<Longrightarrow>
    \<exists>nd p. inodes w d = Some nd \<and> i_content nd = Dir ents p"
  by (auto simp: dir_entries_def split: option.splits content.splits)

lemma file_data_content: "file_data w i = Some b \<Longrightarrow> \<exists>nd. inodes w i = Some nd \<and> i_content nd = Reg b"
  by (auto simp: file_data_def split: option.splits content.splits)

lemma fd_max_set_content [simp]: "fd_max (set_content i c w) = fd_max w" "faults (set_content i c w) = faults w"
  "fds (set_content i c w) = fds w"
  by (simp_all add: set_content_def split: option.split)

lemma fd_max_new_inode [simp]: "fd_max (snd (new_inode d n c w)) = fd_max w"
  "faults (snd (new_inode d n c w)) = faults w" "fds (snd (new_inode d n c w)) = fds w"
  by (simp_all add: new_inode_def set_entry_def Let_def split: option.split content.split)

end
