(* ===== verification/MD5_Reference.thy ===== *)
theory MD5_Reference
  imports MD5
begin

text \<open>
  The MD5 algorithm as RFC 1321 states it, independent of the C code: bytes and words as
  numbers, the table driven compression function, the padding of a whole message, the digest
  of a whole message and its hexadecimal digits.
  The lemmas show that \<open>MD5Transform\<close> computes the compression function of the standard,
  that the streaming context represents the message fed so far whatever the sizes of the
  pieces, and that \<open>MD5Digest\<close> is the hexadecimal digest of the standard.
\<close>

section \<open>The standard\<close>

definition rfc_fun :: "nat \<Rightarrow> u32 \<Rightarrow> u32 \<Rightarrow> u32 \<Rightarrow> u32" where
  "rfc_fun i x y z =
    (if i < 16 then (x AND y) OR (NOT x AND z)
     else if i < 32 then (x AND z) OR (y AND NOT z)
     else if i < 48 then x XOR y XOR z
     else y XOR (x OR NOT z))"

text \<open>The constants \<open>floor (2 ^ 32 * abs (sin (i + 1)))\<close>.\<close>

definition rfc_T :: "u32 list" where
  "rfc_T = [
    0xd76aa478, 0xe8c7b756, 0x242070db, 0xc1bdceee,
    0xf57c0faf, 0x4787c62a, 0xa8304613, 0xfd469501,
    0x698098d8, 0x8b44f7af, 0xffff5bb1, 0x895cd7be,
    0x6b901122, 0xfd987193, 0xa679438e, 0x49b40821,
    0xf61e2562, 0xc040b340, 0x265e5a51, 0xe9b6c7aa,
    0xd62f105d, 0x02441453, 0xd8a1e681, 0xe7d3fbc8,
    0x21e1cde6, 0xc33707d6, 0xf4d50d87, 0x455a14ed,
    0xa9e3e905, 0xfcefa3f8, 0x676f02d9, 0x8d2a4c8a,
    0xfffa3942, 0x8771f681, 0x6d9d6122, 0xfde5380c,
    0xa4beea44, 0x4bdecfa9, 0xf6bb4b60, 0xbebfbc70,
    0x289b7ec6, 0xeaa127fa, 0xd4ef3085, 0x04881d05,
    0xd9d4d039, 0xe6db99e5, 0x1fa27cf8, 0xc4ac5665,
    0xf4292244, 0x432aff97, 0xab9423a7, 0xfc93a039,
    0x655b59c3, 0x8f0ccc92, 0xffeff47d, 0x85845dd1,
    0x6fa87e4f, 0xfe2ce6e0, 0xa3014314, 0x4e0811a1,
    0xf7537e82, 0xbd3af235, 0x2ad7d2bb, 0xeb86d391]"
definition rfc_k :: "nat \<Rightarrow> nat" where
  "rfc_k i =
    (if i < 16 then i
     else if i < 32 then (5 * i + 1) mod 16
     else if i < 48 then (3 * i + 5) mod 16
     else (7 * i) mod 16)"

definition rfc_s :: "nat \<Rightarrow> nat" where
  "rfc_s i =
    (if i < 16 then [7, 12, 17, 22] ! (i mod 4)
     else if i < 32 then [5, 9, 14, 20] ! (i mod 4)
     else if i < 48 then [4, 11, 16, 23] ! (i mod 4)
     else [6, 10, 15, 21] ! (i mod 4))"

definition rfc_step :: "u32 list \<Rightarrow> chain \<Rightarrow> nat \<Rightarrow> chain" where
  "rfc_step X = (\<lambda>(a, b, c, d) i.
     (d, b + word_rotl (rfc_s i) (a + rfc_fun i b c d + X ! rfc_k i + rfc_T ! i), b, c))"

text \<open>Words and lengths are numbers with the low-order byte first.\<close>

definition le_bytes :: "nat \<Rightarrow> nat \<Rightarrow> bytes" where
  "le_bytes k n = map (\<lambda>i. of_nat (n div 256 ^ i mod 256)) [0..<k]"

definition rfc_words :: "bytes \<Rightarrow> u32 list" where
  "rfc_words block = map (\<lambda>i. of_nat (\<Sum>j<4. unat (block ! (4 * i + j)) * 256 ^ j)) [0..<16]"

definition rfc_compress :: "chain \<Rightarrow> bytes \<Rightarrow> chain" where
  "rfc_compress h block =
    (let (a, b, c, d) = h;
         (a', b', c', d') = foldl (rfc_step (rfc_words block)) h [0..<64]
     in (a + a', b + b', c + c', d + d'))"

fun rfc_blocks :: "chain \<Rightarrow> bytes \<Rightarrow> chain" where
  "rfc_blocks h m = (if length m < 64 then h else rfc_blocks (rfc_compress h (take 64 m)) (drop 64 m))"

declare rfc_blocks.simps [simp del]

definition rfc_pad :: "bytes \<Rightarrow> bytes" where
  "rfc_pad m = m @ 0x80 # replicate ((119 - length m mod 64) mod 64) 0 @
     le_bytes 8 (8 * length m mod 2 ^ 64)"

definition rfc_init :: chain where
  "rfc_init = (0x67452301, 0xefcdab89, 0x98badcfe, 0x10325476)"

definition rfc_md5 :: "bytes \<Rightarrow> bytes" where
  "rfc_md5 m = (let (a, b, c, d) = rfc_blocks rfc_init (rfc_pad m)
     in le_bytes 4 (unat a) @ le_bytes 4 (unat b) @ le_bytes 4 (unat c) @ le_bytes 4 (unat d))"

text \<open>The usual rendering: two digits for a byte, the high half first, letters in lower case.\<close>

definition hex_digit :: "nat \<Rightarrow> char" where
  "hex_digit n = char_of (if n < 10 then 48 + n else 97 + (n - 10))"

definition hex_string :: "bytes \<Rightarrow> string" where
  "hex_string bs = concat (map (\<lambda>d. [hex_digit (unat d div 16), hex_digit (unat d mod 16)]) bs)"

section \<open>Bytes, words and digits of the source are the standard's\<close>

lemma unat_byte: "unat d < 256" for d :: u8
  using unsigned_less [of d] by simp

lemma ucast_byte: "(ucast (drop_bit (8 * i) v) :: u8) = of_nat (unat v div 256 ^ i mod 256)" for v :: "'a::len word"
proof -
  have "unat (drop_bit (8 * i) v) = drop_bit (8 * i) (unat v)" by (rule unat_drop_bit_eq)
  also have "\<dots> = unat v div 256 ^ i" by (simp add: drop_bit_eq_div power_mult)
  finally have "unat (ucast (drop_bit (8 * i) v) :: u8) = unat v div 256 ^ i mod 256"
    by (simp add: unsigned_ucast_eq take_bit_eq_mod)
  then show ?thesis by (simp add: word_unat_eq_iff unat_of_nat)
qed

lemma or_byte:
  assumes "unat (w :: u32) < 2 ^ n"
  shows "w OR push_bit n (ucast (d :: u8)) = of_nat (unat w + unat d * 2 ^ n)"
proof -
  have "\<not> bit w m \<or> \<not> bit (push_bit n (ucast d :: u32)) m" for m
  proof (cases "m < n")
    case False
    have "take_bit n (unat w) = unat w" using assms(1) by (simp add: take_bit_nat_eq_self)
    then have "\<not> bit (unat w) m" using False by (metis bit_take_bit_iff)
    then show ?thesis by (simp add: bit_unsigned_iff)
  qed (simp add: bit_simps)
  then have "w OR push_bit n (ucast d) = w + push_bit n (ucast d)" by (intro disjunctive_add [symmetric]) blast
  also have "w + push_bit n (ucast d) = of_nat (unat w + unat d * 2 ^ n)" by (simp add: push_bit_eq_mult)
  finally show ?thesis .
qed

lemma or_bytes:
  "ucast a OR push_bit 8 (ucast b) OR push_bit 16 (ucast c) OR push_bit 24 (ucast d) =
     (of_nat (unat a + unat b * 256 + unat c * 256 ^ 2 + unat d * 256 ^ 3) :: u32)" for a b c d :: u8
proof -
  note lt = unat_byte [of a] unat_byte [of b] unat_byte [of c] unat_byte [of d]
  have c0: "unat (ucast a :: u32) = unat a" using lt by (simp add: unsigned_ucast_eq take_bit_nat_eq_self)
  have u: "unat (of_nat n :: u32) = n" if "n < 2 ^ 32" for n using that by (simp add: unat_of_nat)
  have 1: "ucast a OR push_bit 8 (ucast b) = (of_nat (unat a + unat b * 256) :: u32)"
    using or_byte [of "ucast a" 8 b] lt c0 by simp
  have 2: "of_nat (unat a + unat b * 256) OR push_bit 16 (ucast c) = (of_nat (unat a + unat b * 256 + unat c * 256 ^ 2) :: u32)"
    using or_byte [of "of_nat (unat a + unat b * 256)" 16 c] lt u [of "unat a + unat b * 256"] by simp
  have 3: "of_nat (unat a + unat b * 256 + unat c * 256 ^ 2) OR push_bit 24 (ucast d) =
      (of_nat (unat a + unat b * 256 + unat c * 256 ^ 2 + unat d * 256 ^ 3) :: u32)"
    using or_byte [of "of_nat (unat a + unat b * 256 + unat c * 256 ^ 2)" 24 d] lt
      u [of "unat a + unat b * 256 + unat c * 256 ^ 2"] by simp
  show ?thesis by (simp only: or.assoc [symmetric] 1 2 3)
qed

lemma block_words_rfc: "block_words block = rfc_words block"
proof -
  have "(\<Sum>j<4. f j) = f 0 + f 1 + f 2 + f (3 :: nat)" for f :: "nat \<Rightarrow> nat" by (simp add: numeral_eq_Suc)
  then have "(\<Sum>j<4. unat (block ! (4 * i + j)) * 256 ^ j) = unat (block ! (i * 4)) + unat (block ! (i * 4 + 1)) * 256 +
      unat (block ! (i * 4 + 2)) * 256 ^ 2 + unat (block ! (i * 4 + 3)) * 256 ^ 3" for i
    by (simp only: mult.commute) simp
  then show ?thesis by (simp only: block_words_def rfc_words_def or_bytes)
qed

lemma bytes_upt: "[0..<4] = [0, 1, 2, 3 :: nat]" "[0..<8] = [0, 1, 2, 3, 4, 5, 6, 7 :: nat]"
  by code_simp+

lemma PUT_32BIT_LE_rfc: "PUT_32BIT_LE v = le_bytes 4 (unat v)"
  using ucast_byte [of 0 v] ucast_byte [of 1 v] ucast_byte [of 2 v] ucast_byte [of 3 v]
  by (simp add: PUT_32BIT_LE_def le_bytes_def bytes_upt)

lemma PUT_64BIT_LE_rfc: "PUT_64BIT_LE v = le_bytes 8 (unat v)"
  using ucast_byte [of 0 v] ucast_byte [of 1 v] ucast_byte [of 2 v] ucast_byte [of 3 v]
    ucast_byte [of 4 v] ucast_byte [of 5 v] ucast_byte [of 6 v] ucast_byte [of 7 v]
  by (simp add: PUT_64BIT_LE_def le_bytes_def bytes_upt)


lemma PUT_64BIT_LE_of_nat: "PUT_64BIT_LE (of_nat n) = le_bytes 8 (n mod 2 ^ 64)"
  by (simp add: PUT_64BIT_LE_rfc unat_of_nat)

lemma hex_digits_upt: "hex = map hex_digit [0..<16]"
  by code_simp

lemma hex_nth: "n < 16 \<Longrightarrow> hex ! n = hex_digit n"
  by (simp add: hex_digits_upt)

lemma hex_nibbles: "unat (drop_bit 4 d) = unat d div 16" "unat (d AND 0x0f) = unat d mod 16" for d :: u8
proof -
  show "unat (drop_bit 4 d) = unat d div 16" by (simp add: drop_bit_eq_div unat_div)
  have "d AND 15 = d mod 16"
    by (simp add: take_bit_eq_mask mask_eq_exp_minus_1 flip: take_bit_eq_mod [of 4, simplified])
  then show "unat (d AND 0x0f) = unat d mod 16" by (simp add: unat_mod)
qed

lemma nibble_bounds: "unat d div 16 < 16" "unat d mod 16 < 16" for d :: u8
  using unat_byte [of d] by simp_all

lemma hex_byte_rfc: "hex_byte d = [hex_digit (unat d div 16), hex_digit (unat d mod 16)]"
  by (simp add: hex_byte_def hex_nibbles hex_nth nibble_bounds)

lemma hex_string_bytes: "hex_string bs = concat (map hex_byte bs)"
  unfolding hex_string_def by (simp only: hex_byte_rfc [symmetric])

section \<open>The compression function of the source is the standard's\<close>

lemma F1_rfc: "F1 x y z = (x AND y) OR (NOT x AND z)"
  unfolding F1_def by (rule bit_word_eqI) (auto simp: bit_simps)

lemma F2_rfc: "F2 x y z = (x AND z) OR (y AND NOT z)"
  unfolding F2_def F1_def by (rule bit_word_eqI) (auto simp: bit_simps)

lemma rotl_shift:
  assumes "s < 32"
  shows "word_rotl s (w :: u32) = push_bit s w OR drop_bit (32 - s) w"
proof (rule bit_word_eqI)
  fix n assume n: "n < LENGTH(32)"
  show "bit (word_rotl s w) n = bit (push_bit s w OR drop_bit (32 - s) w) n"
  proof (cases "s \<le> n")
    case True
    with n assms have "(n + (LENGTH(32) - s)) mod LENGTH(32) = n - s" and "32 \<le> 32 - s + n"
      by (simp_all add: mod_if)
    with True n show ?thesis
      by (auto simp: bit_word_rotl_iff bit_simps dest: bit_imp_le_length)
  next
    case False
    with n assms have "(n + (LENGTH(32) - s)) mod LENGTH(32) = 32 - s + n"
      by simp
    with False n assms show ?thesis
      by (simp add: bit_word_rotl_iff bit_simps)
  qed
qed

text \<open>The core function and the registers of a step, as the source names them.\<close>

definition core :: "nat \<Rightarrow> u32 \<Rightarrow> u32 \<Rightarrow> u32 \<Rightarrow> u32" where
  "core i = (if i < 16 then F1 else if i < 32 then F2 else if i < 48 then F3 else F4)"

lemma core_rfc: "core i = rfc_fun i"
  by (simp add: core_def rfc_fun_def fun_eq_iff F1_rfc F2_rfc F3_def F4_def)

lemma rfc_s_bound: "rfc_s i < 32"
proof -
  have "i mod 4 < 4" by simp
  then have "i mod 4 \<in> {0, 1, 2, 3}" by auto
  then show ?thesis by (auto simp: rfc_s_def)
qed

lemma rfc_step_MD5STEP:
  "rfc_step X (a, b, c, d) i =
    Let (MD5STEP (core i) a b c d (X ! rfc_k i + rfc_T ! i) (rfc_s i)) (\<lambda>t. (d, t, b, c))"
  by (simp add: rfc_step_def MD5STEP_def core_rfc rotl_shift rfc_s_bound Let_def algebra_simps)

lemma foldl_Let: "foldl f (Let v g) xs = Let v (\<lambda>t. foldl f (g t) xs)"
  by (simp add: Let_def)

lemma rfc_step_Let: "rfc_step X (Let v g) i = Let v (\<lambda>t. rfc_step X (g t) i)"
  by (simp add: Let_def)

lemmas unroll = rfc_step_Let foldl_Cons foldl_Nil foldl_Let rfc_step_MD5STEP

lemma Let_eqI: "v = v' \<Longrightarrow> (\<And>t. f t = f' t) \<Longrightarrow> Let v f = Let v' f'"
  by (simp add: Let_def)

lemma upt_rounds:
  "[0..<16] = [0,1,2,3,4,5,6,7,8,9,10,11,12,13,14,15]"
  "[16..<32] = [16,17,18,19,20,21,22,23,24,25,26,27,28,29,30,31]"
  "[32..<48] = [32,33,34,35,36,37,38,39,40,41,42,43,44,45,46,47]"
  "[48..<64] = [48,49,50,51,52,53,54,55,56,57,58,59,60,61,62,63]"
  by code_simp+

lemmas table_defs = core_def rfc_k_def rfc_s_def rfc_T_def

lemma MD5_round1_rfc: "MD5_round1 X s = foldl (rfc_step X) s [0..<16]"
  by (cases s) (simp only: upt_rounds unroll MD5_round1_def split_conv,
    intro Let_eqI refl; simp add: table_defs)

lemma MD5_round2_rfc: "MD5_round2 X s = foldl (rfc_step X) s [16..<32]"
  by (cases s) (simp only: upt_rounds unroll MD5_round2_def split_conv,
    intro Let_eqI refl; simp add: table_defs)

lemma MD5_round3_rfc: "MD5_round3 X s = foldl (rfc_step X) s [32..<48]"
  by (cases s) (simp only: upt_rounds unroll MD5_round3_def split_conv,
    intro Let_eqI refl; simp add: table_defs)

lemma MD5_round4_rfc: "MD5_round4 X s = foldl (rfc_step X) s [48..<64]"
  by (cases s) (simp only: upt_rounds unroll MD5_round4_def split_conv,
    intro Let_eqI refl; simp add: table_defs)

lemma MD5_rounds_rfc:
  "MD5_round4 X (MD5_round3 X (MD5_round2 X (MD5_round1 X s))) = foldl (rfc_step X) s [0..<64]"
proof -
  have "[0..<64] = [0..<16] @ [16..<32] @ [32..<48] @ [48..<(64::nat)]"
    by code_simp
  then show ?thesis
    by (simp only: foldl_append MD5_round1_rfc MD5_round2_rfc MD5_round3_rfc MD5_round4_rfc)
qed

text \<open>The registers of the standard as the state array of the context.\<close>

definition chain_list :: "chain \<Rightarrow> u32 list" where
  "chain_list = (\<lambda>(a, b, c, d). [a, b, c, d])"

lemma MD5Transform_rfc: "MD5Transform (chain_list h) block = chain_list (rfc_compress h block)"
  by (cases h) (simp add: MD5Transform_def rfc_compress_def chain_list_def MD5_rounds_rfc block_words_rfc
    split: prod.splits)

section \<open>Whole blocks and the rest of a message\<close>

definition rest :: "bytes \<Rightarrow> bytes" where
  "rest m = drop (length m - length m mod 64) m"

lemma length_rest [simp]: "length (rest m) = length m mod 64"
  by (simp add: rest_def)

lemma rest_short: "length m < 64 \<Longrightarrow> rest m = m"
  by (simp add: rest_def)

lemma rest_drop_block: "64 \<le> length m \<Longrightarrow> rest (drop 64 m) = rest m"
  by (simp add: rest_def le_mod_geq algebra_simps)

lemma rfc_blocks_short: "length m < 64 \<Longrightarrow> rfc_blocks h m = h"
  by (simp add: rfc_blocks.simps)

lemma rfc_blocks_long:
  "64 \<le> length m \<Longrightarrow> rfc_blocks h m = rfc_blocks (rfc_compress h (take 64 m)) (drop 64 m)"
  by (simp add: rfc_blocks.simps [of h m])

lemma MD5_blocks_rfc:
  "MD5_blocks (chain_list h) m = (chain_list (rfc_blocks h m), rest m)"
proof (induction h m rule: rfc_blocks.induct)
  case (1 h m)
  show ?case
  proof (cases "length m < 64")
    case True
    then show ?thesis
      by (simp add: MD5_blocks.simps MD5_BLOCK_LENGTH_def rfc_blocks_short rest_short)
  next
    case False
    with "1" show ?thesis
      by (simp add: MD5_blocks.simps [of "chain_list h" m] MD5_BLOCK_LENGTH_def MD5Transform_rfc
        rfc_blocks_long rest_drop_block)
  qed
qed

text \<open>A message is consumed block by block wherever it is cut.\<close>

lemma blocks_append:
  "rfc_blocks h (x @ y) = rfc_blocks (rfc_blocks h x) (rest x @ y) \<and> rest (x @ y) = rest (rest x @ y)"
proof (induction h x rule: rfc_blocks.induct)
  case (1 h x)
  show ?case
  proof (cases "length x < 64")
    case True
    then show ?thesis by (simp add: rfc_blocks_short rest_short)
  next
    case False
    with "1" have ih: "rfc_blocks (rfc_compress h (take 64 x)) (drop 64 x @ y) =
        rfc_blocks (rfc_blocks h x) (rest x @ y)" "rest (drop 64 x @ y) = rest (rest x @ y)"
      by (simp_all add: rfc_blocks_long rest_drop_block)
    have "rest (x @ y) = rest (drop 64 x @ y)"
      using False rest_drop_block [of "x @ y"] by simp
    with False ih show ?thesis
      by (simp add: rfc_blocks_long [of "x @ y"])
  qed
qed

lemmas rfc_blocks_append = blocks_append [THEN conjunct1]
  and rest_append = blocks_append [THEN conjunct2]

section \<open>The context represents the message fed so far\<close>

definition md5_rep :: "MD5_CTX \<Rightarrow> bytes \<Rightarrow> bool" where
  "md5_rep ctx m \<longleftrightarrow>
     ctx_count ctx = of_nat (8 * length m) \<and>
     ctx_state ctx = chain_list (rfc_blocks rfc_init m) \<and>
     length (ctx_buffer ctx) = 64 \<and>
     take (length m mod 64) (ctx_buffer ctx) = rest m"

lemma unat_count_bytes: "unat (of_nat (8 * n) :: u64) div 8 mod 64 = n mod 64"
proof -
  have "unat (of_nat (8 * n) :: u64) = 8 * n mod (8 * 2 ^ 61)"
    by (simp only: unat_of_nat) simp
  then have "unat (of_nat (8 * n) :: u64) = 8 * (n mod 2 ^ 61)"
    by (simp only: mult_mod_right)
  moreover have "n mod 2 ^ 61 mod 64 = n mod (64 :: nat)"
    by (rule mod_mod_cancel) simp
  ultimately show ?thesis by simp
qed

lemma ctx_have_rep: "md5_rep ctx m \<Longrightarrow> ctx_have ctx = length m mod 64"
  by (simp add: ctx_have_def md5_rep_def unat_and_63 unat_drop_bit_3 unat_count_bytes
    del: of_nat_mult)

lemma md5_rep_Init: "length (ctx_buffer ctx) = 64 \<Longrightarrow> md5_rep (MD5Init ctx) []"
  by (simp add: md5_rep_def MD5Init_def rfc_blocks_short rfc_init_def chain_list_def rest_def)

lemma rest_eq_Nil [simp]: "rest m = [] \<longleftrightarrow> length m mod 64 = 0" "[] = rest m \<longleftrightarrow> length m mod 64 = 0"
  using length_rest [of m] by (metis length_0_conv)+

text \<open>The part of \<open>MD5Update\<close> after the bit count: its effect for each amount of input.\<close>

lemma memcpy_at_fill:
  "length dst = 64 \<Longrightarrow> n < 64 \<Longrightarrow> length src = 64 - n \<Longrightarrow> memcpy_at dst n src = take n dst @ src"
  by (simp add: memcpy_at_def)

lemma memcpy_at_rest:
  assumes "length dst = 64"
  shows "length (memcpy_at dst 0 (rest y)) = 64"
    and "take (length y mod 64) (memcpy_at dst 0 (rest y)) = rest y"
  using assms take_memcpy_at [of 0 dst "rest y"] by simp_all

lemma Update_long:
  assumes rep: "md5_rep ctx m" and long: "64 - length m mod 64 \<le> length x"
  defines "full \<equiv> rest m @ x"
  shows "ctx_state (MD5Update ctx x) = chain_list (rfc_blocks (rfc_blocks rfc_init m) full)"
    and "length (ctx_buffer (MD5Update ctx x)) = 64"
    and "take (length full mod 64) (ctx_buffer (MD5Update ctx x)) = rest full"
proof -
  let ?n = "length m mod 64" and ?h = "rfc_blocks rfc_init m"
  have n: "?n < 64" by simp
  have len: "64 \<le> length full" using long by (simp add: full_def)
  have "ctx_state (MD5Update ctx x) = chain_list (rfc_blocks ?h full) \<and>
      length (ctx_buffer (MD5Update ctx x)) = 64 \<and>
      take (length full mod 64) (ctx_buffer (MD5Update ctx x)) = rest full"
  proof (cases "?n = 0")
    case True
    then have "full = x" using length_rest [of m] by (simp add: full_def del: length_rest)
    with True rep len show ?thesis
      by (simp add: MD5Update_def ctx_have_rep [OF rep] md5_rep_def MD5_BLOCK_LENGTH_def Let_def
        MD5_blocks_rfc memcpy_at_rest)
  next
    case False
    have tk: "take 64 full = rest m @ take (64 - ?n) x" by (simp add: full_def)
    then have buf: "memcpy_at (ctx_buffer ctx) ?n (take (64 - ?n) x) = take 64 full"
      using rep long n by (simp add: md5_rep_def memcpy_at_fill)
    have drp: "drop (64 - ?n) x = drop 64 full" by (simp add: full_def)
    have rst: "rest (drop 64 full) = rest full" using len by (rule rest_drop_block)
    have mem: "length (memcpy_at (take 64 full) 0 (rest full)) = 64"
      "take (length full mod 64) (memcpy_at (take 64 full) 0 (rest full)) = rest full"
      using len by (simp_all add: memcpy_at_rest)
    from rep have st: "ctx_state ctx = chain_list ?h" by (simp add: md5_rep_def)
    from False long len show ?thesis
      by (simp add: MD5Update_def ctx_have_rep [OF rep] MD5_BLOCK_LENGTH_def st
        buf drp rst mem MD5Transform_rfc MD5_blocks_rfc rfc_blocks_long [OF len] Let_def
        del: take_take)
  qed
  then show "ctx_state (MD5Update ctx x) = chain_list (rfc_blocks ?h full)"
    "length (ctx_buffer (MD5Update ctx x)) = 64"
    "take (length full mod 64) (ctx_buffer (MD5Update ctx x)) = rest full" by simp_all
qed

lemma Update_short:
  assumes rep: "md5_rep ctx m" and short: "length x < 64 - length m mod 64"
  defines "full \<equiv> rest m @ x"
  shows "ctx_state (MD5Update ctx x) = ctx_state ctx"
    and "length (ctx_buffer (MD5Update ctx x)) = 64"
    and "take (length full) (ctx_buffer (MD5Update ctx x)) = full"
proof -
  have "length m mod 64 + length x \<le> 64" using short by simp
  then show "ctx_state (MD5Update ctx x) = ctx_state ctx"
    "length (ctx_buffer (MD5Update ctx x)) = 64"
    "take (length full) (ctx_buffer (MD5Update ctx x)) = full"
    using rep short by (auto simp: MD5Update_def ctx_have_rep [OF rep] md5_rep_def
      MD5_BLOCK_LENGTH_def Let_def full_def take_memcpy_at)
qed

lemma MD5Update_count: "ctx_count (MD5Update ctx x) = ctx_count ctx + push_bit 3 (of_nat (length x))"
  by (simp add: MD5Update_def Let_def case_prod_beta)

lemma Update_count:
  "md5_rep ctx m \<Longrightarrow> ctx_count (MD5Update ctx x) = of_nat (8 * length (m @ x))"
  by (simp add: MD5Update_count md5_rep_def push_bit_eq_mult algebra_simps)

text \<open>Feeding a piece of input appends it to the message the context stands for.\<close>

lemma md5_rep_Update:
  assumes rep: "md5_rep ctx m"
  shows "md5_rep (MD5Update ctx x) (m @ x)"
proof -
  let ?full = "rest m @ x" and ?h = "rfc_blocks rfc_init m"
  have md: "length (m @ x) mod 64 = length ?full mod 64"
    by (simp add: mod_add_left_eq)
  have blocks: "rfc_blocks rfc_init (m @ x) = rfc_blocks ?h ?full" "rest (m @ x) = rest ?full"
    by (rule rfc_blocks_append rest_append)+
  have "ctx_state (MD5Update ctx x) = chain_list (rfc_blocks ?h ?full) \<and>
      length (ctx_buffer (MD5Update ctx x)) = 64 \<and>
      take (length ?full mod 64) (ctx_buffer (MD5Update ctx x)) = rest ?full"
  proof (cases "64 - length m mod 64 \<le> length x")
    case True
    with Update_long [OF rep] show ?thesis by simp
  next
    case False
    then have "length ?full < 64" by simp
    moreover have "ctx_state ctx = chain_list ?h" using rep by (simp add: md5_rep_def)
    ultimately show ?thesis
      using False Update_short [OF rep, of x] by (simp add: rfc_blocks_short rest_short)
  qed
  then show ?thesis
    by (simp only: md5_rep_def Update_count [OF rep] blocks md simp_thms)
qed

section \<open>Padding and the digest\<close>

lemma take_PADDING: "0 < n \<Longrightarrow> n \<le> 64 \<Longrightarrow> take n PADDING = 0x80 # replicate (n - 1) 0"
  by (cases n) (simp_all add: PADDING_def)

lemma md5_rep_Pad:
  assumes rep: "md5_rep ctx m"
  shows "md5_rep (MD5Pad ctx) (rfc_pad m)"
proof -
  define n where "n = length m mod 64"
  have n: "n < 64" by (simp add: n_def)
  define p where "p = (if 64 - n < 1 + 8 then 64 - n + 64 else 64 - n) - 8"
  have p: "0 < p" "p \<le> 64" "p - 1 = (119 - n) mod 64"
    using n by (auto simp: p_def mod_if)
  have "MD5Pad ctx = MD5Update (MD5Update ctx (take p PADDING)) (PUT_64BIT_LE (ctx_count ctx))"
    by (simp add: MD5Pad_def p_def ctx_have_rep [OF rep] n_def MD5_BLOCK_LENGTH_def Let_def)
  moreover have "PUT_64BIT_LE (ctx_count ctx) = le_bytes 8 (8 * length m mod 2 ^ 64)"
    using rep by (simp only: md5_rep_def PUT_64BIT_LE_of_nat)
  moreover have "take p PADDING = 0x80 # replicate ((119 - n) mod 64) 0"
    using take_PADDING [OF p(1,2)] p(3) by simp
  ultimately show ?thesis
    using md5_rep_Update [OF md5_rep_Update [OF rep, of "take p PADDING"],
        of "PUT_64BIT_LE (ctx_count ctx)"]
    by (simp only: rfc_pad_def n_def append_assoc append_Cons)
qed

lemma MD5Final_rep:
  assumes "md5_rep ctx m"
  shows "fst (MD5Final True ctx) = rfc_md5 m"
proof -
  have "ctx_state (MD5Pad ctx) = chain_list (rfc_blocks rfc_init (rfc_pad m))"
    using md5_rep_Pad [OF assms] by (simp add: md5_rep_def)
  moreover have "[0..<4] = [0, 1, 2, 3 :: nat]" by code_simp
  ultimately show ?thesis
    by (simp add: MD5Final_def rfc_md5_def chain_list_def PUT_32BIT_LE_rfc split: prod.splits)
qed

lemma length_rfc_md5 [simp]: "length (rfc_md5 m) = 16"
  by (simp add: rfc_md5_def le_bytes_def split: prod.splits)

lemma MD5Digest_rfc:
  assumes "length (ctx_buffer stack) = 64"
  shows "MD5Digest stack data = hex_string (rfc_md5 data) @ [NUL]"
proof -
  have "md5_rep (MD5Update (MD5Init stack) data) data"
    using md5_rep_Update [OF md5_rep_Init [OF assms]] by simp
  from MD5Final_rep [OF this] show ?thesis
    by (simp add: MD5Digest_def hex_string_bytes case_prod_beta)
qed

section \<open>The digest string\<close>

lemma length_hex_string [simp]: "length (hex_string bs) = 2 * length bs"
  by (induction bs) (simp_all add: hex_string_bytes hex_byte_def)

lemma hex_nth_inj: "i < 16 \<Longrightarrow> j < 16 \<Longrightarrow> hex ! i = hex ! j \<longleftrightarrow> i = j"
  by (rule nth_eq_iff_index_eq) (simp_all add: hex_def)

lemma hex_byte_inj: "hex_byte d = hex_byte e \<longleftrightarrow> d = e"
proof
  assume "hex_byte d = hex_byte e"
  then have "unat d div 16 = unat e div 16" "unat d mod 16 = unat e mod 16"
    by (simp_all add: hex_byte_def hex_nibbles hex_nth_inj nibble_bounds)
  then have "unat d = unat e" by (metis div_mult_mod_eq)
  then show "d = e" by (simp only: word_unat_eq_iff)
qed simp

lemma hex_string_inj: "hex_string xs = hex_string ys \<longleftrightarrow> xs = ys"
proof (induction xs arbitrary: ys)
  case Nil
  show ?case by (cases ys) (simp_all add: hex_string_bytes hex_byte_def)
next
  case (Cons x xs)
  show ?case
  proof (cases ys)
    case Nil
    then show ?thesis by (simp add: hex_string_bytes hex_byte_def)
  next
    case (Cons y ys')
    have "hex_string (x # xs) = hex_string (y # ys') \<longleftrightarrow>
        hex_byte x = hex_byte y \<and> hex_string xs = hex_string ys'"
      by (auto simp: hex_string_bytes hex_byte_def)
    then show ?thesis using Cons Cons.IH by (simp add: hex_byte_inj)
  qed
qed

lemma hex_digits: "set (hex_string bs) \<subseteq> set hex"
proof -
  have "hex ! n \<in> set hex" if "n < 16" for n
    using that by (intro nth_mem) (simp add: hex_def)
  then show ?thesis
    by (auto simp: hex_string_bytes hex_byte_def hex_nibbles nibble_bounds)
qed

lemma hex_string_not_NUL: "NUL \<notin> set (hex_string bs)" "CHR ''/'' \<notin> set (hex_string bs)"
  "CHR ''.'' \<notin> set (hex_string bs)"
  using hex_digits [of bs] by (auto simp: hex_def)

section \<open>Incremental hashing as an interface\<close>

text \<open>
  What a client may rely on without knowing the context: a relation between a context and
  the message fed so far, which starting and feeding respect, and a digest that depends on
  that message only.
\<close>

locale incremental_hash =
  fixes start :: "'c \<Rightarrow> 'c"
    and feed :: "'c \<Rightarrow> 'b list \<Rightarrow> 'c"
    and digest :: "'c \<Rightarrow> 'd"
    and rep :: "'c \<Rightarrow> 'b list \<Rightarrow> bool"
    and room :: "'c \<Rightarrow> bool"
    and hash :: "'b list \<Rightarrow> 'd"
  assumes rep_start: "room c \<Longrightarrow> rep (start c) []"
    and rep_feed: "rep c m \<Longrightarrow> rep (feed c x) (m @ x)"
    and digest_rep: "rep c m \<Longrightarrow> digest c = hash m"
begin

lemma rep_foldl: "rep c m \<Longrightarrow> rep (foldl feed c xs) (m @ concat xs)"
proof (induction xs arbitrary: c m)
  case Nil
  then show ?case by simp
next
  case (Cons x xs)
  from Cons.IH [OF rep_feed [OF Cons.prems, of x]] show ?case by simp
qed

lemma digest_pieces: "room c \<Longrightarrow> digest (foldl feed (start c) xs) = hash (concat xs)"
  using digest_rep [OF rep_foldl [OF rep_start, of c xs]] by simp

lemma digest_independent:
  "room c \<Longrightarrow> room c' \<Longrightarrow> concat xs = concat ys \<Longrightarrow>
    digest (foldl feed (start c) xs) = digest (foldl feed (start c') ys)"
  by (simp add: digest_pieces)

end

interpretation md5: incremental_hash MD5Init MD5Update "\<lambda>c. fst (MD5Final True c)" md5_rep
  "\<lambda>c. length (ctx_buffer c) = 64" rfc_md5
  by unfold_locales (simp_all add: md5_rep_Init md5_rep_Update MD5Final_rep)

section \<open>Properties\<close>

text \<open>The compression function of the source, with its 64 unrolled steps, is the table
  driven compression function of RFC 1321 on every state and block.\<close>

lemma MD5Transform_standard:
  "MD5Transform [a, b, c, d] block = chain_list (rfc_compress (a, b, c, d) block)"
  using MD5Transform_rfc [of "(a, b, c, d)"] by (simp add: chain_list_def)

text \<open>C5. A message fed to the context in any number of pieces of any sizes gives the MD5
  digest of the standard for their concatenation, whatever the context held before.\<close>

theorem MD5_streaming_correct:
  assumes "length (ctx_buffer ctx) = 64"
  shows "fst (MD5Final True (foldl MD5Update (MD5Init ctx) pieces)) = rfc_md5 (concat pieces)"
  using assms by (rule md5.digest_pieces)

theorem MD5_streaming_correct_witness:
  "fst (MD5Final True (foldl MD5Update (MD5Init
     \<lparr>ctx_state = [], ctx_count = 7, ctx_buffer = replicate 64 0xff\<rparr>) [[1, 2], [], [3]])) =
   rfc_md5 [1, 2, 3]"
  by (subst MD5_streaming_correct) simp_all

text \<open>C4. \<open>MD5Digest\<close> fills its array of 33 characters with the 32 hexadecimal digits of
  the standard's digest and the terminating NUL, and two inputs get the same string exactly
  when their digests agree.\<close>

theorem MD5Digest_correct:
  assumes "length (ctx_buffer stack) = 64" "length (ctx_buffer stack') = 64"
  shows "MD5Digest stack data = hex_string (rfc_md5 data) @ [NUL] \<and>
    length (MD5Digest stack data) = MD5_DIGEST_STRING_LENGTH \<and>
    cstr (MD5Digest stack data) = hex_string (rfc_md5 data) \<and>
    (MD5Digest stack data = MD5Digest stack' data' \<longleftrightarrow> rfc_md5 data = rfc_md5 data')"
  using hex_string_not_NUL(1) [of "rfc_md5 data"]
  by (simp add: MD5Digest_rfc assms MD5_DIGEST_STRING_LENGTH_def MD5_DIGEST_LENGTH_def hex_string_inj)

theorem MD5Digest_correct_witness:
  "length (MD5Digest \<lparr>ctx_state = [], ctx_count = 0, ctx_buffer = replicate 64 0\<rparr> [1]) =
     MD5_DIGEST_STRING_LENGTH \<and>
   MD5Digest \<lparr>ctx_state = [], ctx_count = 0, ctx_buffer = replicate 64 0\<rparr> [1] =
     MD5Digest \<lparr>ctx_state = [3], ctx_count = 9, ctx_buffer = replicate 64 5\<rparr> [1]"
proof -
  let ?a = "\<lparr>ctx_state = [], ctx_count = 0, ctx_buffer = replicate 64 0\<rparr>"
    and ?b = "\<lparr>ctx_state = [3], ctx_count = 9, ctx_buffer = replicate 64 5\<rparr>"
  have "length (ctx_buffer ?a) = 64" "length (ctx_buffer ?b) = 64" by simp_all
  from MD5Digest_correct [OF this, of "[1]" "[1]"] show ?thesis by blast
qed

end
