(* ===== verification/Inode_Cache_View.thy ===== *)
theory Inode_Cache_View
  imports Inode_Cache Posix_Quiet MD5_Reference
begin

text \<open>
  The directory of the cache as a map from names to files, and what each system call does to
  that map on a system on which no fault is scheduled. The world outside the directory is
  described by \<open>evolves\<close>: names that lead elsewhere keep their meaning and their identity.
\<close>

section \<open>The files of a directory\<close>

definition dirview :: "world \<Rightarrow> ino \<Rightarrow> cstring \<rightharpoonup> ino \<times> cbuffer" where
  "dirview w d name =
    (case dir_entries w d of None \<Rightarrow> None
     | Some ents \<Rightarrow> (case ents name of None \<Rightarrow> None | Some i \<Rightarrow> map_option (Pair i) (file_data w i)))"

definition entinos :: "world \<Rightarrow> ino \<Rightarrow> ino set" where
  "entinos w d = (case dir_entries w d of None \<Rightarrow> {} | Some ents \<Rightarrow> ran ents)"

text \<open>A directory of regular files, no two names for one file.\<close>

definition flat_dir :: "world \<Rightarrow> ino \<Rightarrow> bool" where
  "flat_dir w d \<longleftrightarrow> fs_ok w \<and>
     (\<exists>ents. dir_entries w d = Some ents \<and> (\<forall>n i. ents n = Some i \<longrightarrow> file_data w i \<noteq> None) \<and>
       inj_on ents (dom ents))"

definition evolves :: "ino \<Rightarrow> world \<Rightarrow> world \<Rightarrow> bool" where
  "evolves d w w' \<longleftrightarrow> root_ino w' = root_ino w \<and> cwd_ino w' = cwd_ino w \<and>
     (\<forall>k. inodes w k \<noteq> None \<and> k \<noteq> d \<and> k \<notin> entinos w d \<longrightarrow> inodes w' k = inodes w k) \<and>
     dir_parent w' d = dir_parent w d \<and> entinos w' d \<subseteq> entinos w d \<union> {k. inodes w k = None}"

lemma evolves_refl [simp]: "evolves d w w"
  by (simp add: evolves_def)

lemma evolves_trans: "evolves d w w1 \<Longrightarrow> evolves d w1 w2 \<Longrightarrow> evolves d w w2"
proof -
  assume a: "evolves d w w1" and b: "evolves d w1 w2"
  have "inodes w2 k = inodes w k" if k: "inodes w k \<noteq> None" "k \<noteq> d" "k \<notin> entinos w d" for k
  proof -
    have "inodes w1 k = inodes w k" using a k by (simp add: evolves_def)
    moreover have "k \<notin> entinos w1 d" using a k by (auto simp: evolves_def)
    ultimately show ?thesis using b k by (simp add: evolves_def)
  qed
  moreover have "k \<in> entinos w d \<or> inodes w k = None" if "k \<in> entinos w2 d" for k
  proof (rule ccontr)
    assume k: "\<not> (k \<in> entinos w d \<or> inodes w k = None)"
    then have "k \<notin> entinos w1 d" using a by (auto simp: evolves_def)
    then have "inodes w1 k = None" using b that by (auto simp: evolves_def)
    moreover have "dir_parent w1 d = dir_parent w d" using a by (simp add: evolves_def)
    ultimately have "k = d" using a k by (auto simp: evolves_def)
    then show False using \<open>inodes w1 k = None\<close> that \<open>k \<notin> entinos w1 d\<close> b k \<open>dir_parent w1 d = _\<close>
      by (auto simp: evolves_def entinos_def dir_entries_def dir_parent_def
        split: option.splits content.splits)
  qed
  ultimately show ?thesis using a b by (auto simp: evolves_def)
qed

lemma evolves_same:
  assumes "inodes w' = inodes w" "root_ino w' = root_ino w" "cwd_ino w' = cwd_ino w"
  shows "evolves d w w'"
  using assms by (simp add: evolves_def dir_parent_def entinos_def dir_entries_def)

lemma dirview_same:
  assumes "inodes w' = inodes w"
  shows "dirview w' d = dirview w d"
  by (rule ext) (simp only: dirview_def inodes_same [OF assms])

lemma flat_dir_same:
  assumes "inodes w' = inodes w" "next_ino w' = next_ino w"
  shows "flat_dir w' d = flat_dir w d"
  by (simp only: flat_dir_def fs_ok_def inodes_same [OF assms(1)] assms)

subsection \<open>Names that lead outside\<close>

lemma resolve_outside:
  assumes "resolve (inodes w) i cs = Inr j" "flat_dir w d" "j \<noteq> d" "j \<notin> entinos w d"
    and "evolves d w w'"
  shows "resolve (inodes w') i cs = Inr j"
  using assms(1)
proof (induction cs arbitrary: i)
  case Nil
  then show ?case by simp
next
  case (Cons c cs)
  from Cons.prems obtain nd ents par where i: "inodes w i = Some nd" "i_content nd = Dir ents par"
    by (auto split: option.splits content.splits)
  obtain nd' ents' where i': "inodes w' i = Some nd'" "i_content nd' = Dir ents' par"
    and same: "i \<noteq> d \<Longrightarrow> ents' = ents"
  proof (cases "i = d")
    case True
    then have "dir_parent w' d = Some par" using assms(5) i by (simp add: evolves_def dir_parent_def)
    then show ?thesis using that True
      by (auto simp: dir_parent_def split: option.splits content.splits)
  next
    case False
    have "i \<notin> entinos w d"
    proof
      assume "i \<in> entinos w d"
      then have "file_data w i \<noteq> None" using assms(2)
        by (auto simp: entinos_def flat_dir_def ran_def)
      then show False using i by (simp add: file_data_def)
    qed
    with False i assms(5) have "inodes w' i = Some nd" by (simp add: evolves_def)
    then show ?thesis using that i by blast
  qed
  show ?case
  proof (cases "c = [] \<or> c = ''.'' \<or> c = ''..''")
    case True
    then show ?thesis using Cons i i' by auto
  next
    case False
    with Cons.prems i obtain m where m: "ents c = Some m" "resolve (inodes w) m cs = Inr j"
      by (auto split: option.splits)
    have "i \<noteq> d"
    proof
      assume "i = d"
      then have ents: "dir_entries w d = Some ents" using i by (simp add: dir_entries_def)
      then have "m \<in> entinos w d" using m(1) by (auto simp: entinos_def ran_def)
      moreover have "file_data w m \<noteq> None" using assms(2) ents m(1) by (auto simp: flat_dir_def)
      then have "cs = []" using m(2) file_data_content [of w m] by (cases cs) auto
      ultimately show False using m(2) assms(4) by simp
    qed
    with same m(1) have "ents' c = Some m" by simp
    with False i' Cons.IH [OF m(2)] show ?thesis by simp
  qed
qed

definition outside :: "world \<Rightarrow> ino \<Rightarrow> cstring \<Rightarrow> bool" where
  "outside w d path \<longleftrightarrow> (\<exists>j. lookup_path w AT_FDCWD path = Inr j \<and> inodes w j \<noteq> None \<and> j \<noteq> d \<and> j \<notin> entinos w d)"

lemma outside_evolves:
  assumes "outside w d path" "flat_dir w d" "evolves d w w'"
  shows "outside w' d path" "stat_path w' path = stat_path w path"
proof -
  from assms(1) obtain j where j: "lookup_path w AT_FDCWD path = Inr j" "inodes w j \<noteq> None" "j \<noteq> d"
    "j \<notin> entinos w d" by (auto simp: outside_def)
  then obtain i where st: "start_dir w AT_FDCWD path = Inr i"
    and rs: "resolve (inodes w) i (split_path path) = Inr j"
    by (auto simp: lookup_path_def split: sum.splits)
  have "start_dir w' AT_FDCWD path = Inr i"
    using st assms(3) by (auto simp: start_dir_def evolves_def split: if_splits)
  with resolve_outside [OF rs assms(2) j(3,4) assms(3)]
  have l: "lookup_path w' AT_FDCWD path = Inr j" by (simp add: lookup_path_def)
  have same: "inodes w' j = inodes w j" using assms(3) j by (auto simp: evolves_def)
  have "j \<notin> entinos w' d" using assms(3) j by (auto simp: evolves_def)
  with l j same show "outside w' d path" by (auto simp: outside_def)
  show "stat_path w' path = stat_path w path" using l j same by (simp add: stat_path_def)
qed

section \<open>Changing the directory\<close>

lemma set_content_file:
  assumes "flat_dir w d" "dirview w d name = Some (i, b)"
  shows "dirview (set_content i (Reg b') w) d = (dirview w d)(name \<mapsto> (i, b'))"
    and "flat_dir (set_content i (Reg b') w) d" "evolves d w (set_content i (Reg b') w)"
proof -
  from assms obtain ents where ents: "dir_entries w d = Some ents" "ents name = Some i"
    and all: "\<And>n k. ents n = Some k \<Longrightarrow> file_data w k \<noteq> None" and inj: "inj_on ents (dom ents)"
    and fs: "fs_ok w"
    by (auto simp: dirview_def flat_dir_def split: option.splits)
  from dir_entries_content [OF ents(1)] obtain nd p where nd: "inodes w d = Some nd" "i_content nd = Dir ents p"
    by blast
  from all [OF ents(2)] obtain nf where nf: "inodes w i = Some nf" "i_content nf = Reg b"
    using assms(2) ents file_data_content [of w i b] by (auto simp: dirview_def)
  have ne: "i \<noteq> d" using nd nf by auto
  let ?w = "set_content i (Reg b') w"
  have de: "dir_entries ?w d = Some ents" using ents(1) ne nf by (simp add: dir_entries_def set_content_def)
  have fd: "file_data ?w k = (if k = i then Some b' else file_data w k)" for k
    using nf by (simp add: file_data_def set_content_def)
  have other: "ents n = Some i \<Longrightarrow> n = name" for n
    using inj ents(2) by (auto simp: inj_on_def dom_def)
  show "dirview ?w d = (dirview w d)(name \<mapsto> (i, b'))"
  proof (rule ext)
    fix n
    show "dirview ?w d n = ((dirview w d)(name \<mapsto> (i, b'))) n"
      using other [of n] ents by (cases "ents n") (auto simp: dirview_def de fd)
  qed
  have "fs_ok ?w" using fs nf by (auto simp: fs_ok_def set_content_def)
  moreover have "ents n = Some k \<Longrightarrow> file_data ?w k \<noteq> None" for n k
    using all by (simp add: fd)
  ultimately show "flat_dir ?w d" unfolding flat_dir_def using de inj by blast
  have "entinos ?w d = entinos w d" by (simp add: entinos_def de ents)
  moreover have "i \<in> entinos w d" using ents by (auto simp: entinos_def ran_def)
  ultimately show "evolves d w ?w"
    using nf ne by (auto simp: evolves_def dir_parent_def set_content_def)
qed

lemma new_inode_file:
  assumes "flat_dir w d" "dirview w d name = None"
    and "new_inode d name (Reg b) w = (i, w')"
  shows "dirview w' d = (dirview w d)(name \<mapsto> (i, b))" "flat_dir w' d" "evolves d w w'"
proof -
  from assms(1) obtain ents where ents: "dir_entries w d = Some ents"
    and all: "\<And>n k. ents n = Some k \<Longrightarrow> file_data w k \<noteq> None" and inj: "inj_on ents (dom ents)"
    and fs: "fs_ok w" by (auto simp: flat_dir_def)
  from dir_entries_content [OF ents(1)] obtain nd p where nd: "inodes w d = Some nd" "i_content nd = Dir ents p"
    by blast
  have i: "i = next_ino w" using assms(3) by (simp add: new_inode_def Let_def)
  have fresh: "inodes w i = None" using fs i by (simp add: fs_ok_def)
  have ne: "i \<noteq> d" using nd fresh by auto
  have none: "ents name = None" using assms(2) ents all [of name] by (cases "ents name") (auto simp: dirview_def)
  have notin: "ents n \<noteq> Some i" for n using all [of n i] fresh by (auto simp: file_data_def)
  have w': "w' = set_entry d name (Some i) (w\<lparr>next_ino := Suc i, inodes := (inodes w)(i \<mapsto>
      \<lparr>i_dev = i_dev nd, i_mtime_sec = clock_sec w, i_mtime_nsec = clock_nsec w, i_content = Reg b\<rparr>)\<rparr>)"
    using assms(3) nd i by (simp add: new_inode_def Let_def)
  have in': "inodes w' k = (if k = d then Some (nd\<lparr>i_content := Dir (ents(name \<mapsto> i)) p,
        i_mtime_sec := clock_sec w, i_mtime_nsec := clock_nsec w\<rparr>)
      else if k = i then Some \<lparr>i_dev = i_dev nd, i_mtime_sec = clock_sec w, i_mtime_nsec = clock_nsec w, i_content = Reg b\<rparr>
      else inodes w k)" for k
    using ne nd by (simp add: w' set_entry_def set_content_def)
  have de: "dir_entries w' d = Some (ents(name \<mapsto> i))" by (simp add: dir_entries_def in')
  have fd: "file_data w' k = (if k = i then Some b else file_data w k)" for k
    using ne nd by (simp add: file_data_def in')
  show "dirview w' d = (dirview w d)(name \<mapsto> (i, b))"
    using notin ents by (auto simp: dirview_def de fd fun_eq_iff split: option.split)
  have "next_ino w' = Suc i" using ne nd by (simp add: w' set_entry_def set_content_def)
  then have "fs_ok w'" using fs i nd by (auto simp: fs_ok_def in')
  moreover have "inj_on (ents(name \<mapsto> i)) (dom (ents(name \<mapsto> i)))"
    using inj none notin by (auto simp: inj_on_def dom_def split: if_splits)
  moreover have "(ents(name \<mapsto> i)) n = Some k \<Longrightarrow> file_data w' k \<noteq> None" for n k
    using all by (auto simp: fd split: if_splits)
  ultimately show "flat_dir w' d" unfolding flat_dir_def using de by blast
  have "entinos w' d \<subseteq> insert i (entinos w d)"
    by (auto simp: entinos_def de ents ran_def split: if_splits)
  moreover have "root_ino w' = root_ino w" "cwd_ino w' = cwd_ino w"
    using ne nd by (simp_all add: w' set_entry_def set_content_def)
  ultimately show "evolves d w w'"
    using fresh nd by (auto simp: evolves_def dir_parent_def in')
qed

lemma unlink_file:
  assumes "flat_dir w d" "dirview w d name \<noteq> None"
  shows "dirview (set_entry d name None w) d = (dirview w d)(name := None)"
    "flat_dir (set_entry d name None w) d" "evolves d w (set_entry d name None w)"
proof -
  from assms(1) obtain ents where ents: "dir_entries w d = Some ents"
    and all: "\<And>n k. ents n = Some k \<Longrightarrow> file_data w k \<noteq> None" and inj: "inj_on ents (dom ents)"
    and fs: "fs_ok w" by (auto simp: flat_dir_def)
  from dir_entries_content [OF ents(1)] obtain nd p where nd: "inodes w d = Some nd" "i_content nd = Dir ents p"
    by blast
  let ?w = "set_entry d name None w"
  have in': "inodes ?w k = (if k = d then Some (nd\<lparr>i_content := Dir (ents(name := None)) p,
        i_mtime_sec := clock_sec w, i_mtime_nsec := clock_nsec w\<rparr>) else inodes w k)" for k
    using nd by (simp add: set_entry_def set_content_def)
  have de: "dir_entries ?w d = Some (ents(name := None))" by (simp add: dir_entries_def in')
  have fd: "file_data ?w k = file_data w k" for k
    using nd by (simp add: file_data_def in')
  show "dirview ?w d = (dirview w d)(name := None)"
    using ents by (auto simp: dirview_def de fd fun_eq_iff split: option.split)
  have "next_ino ?w = next_ino w" using nd by (simp add: set_entry_def set_content_def)
  then have "fs_ok ?w" using fs nd by (auto simp: fs_ok_def in')
  moreover have "inj_on (ents(name := None)) (dom (ents(name := None)))"
    using inj by (auto simp: inj_on_def dom_def split: if_splits)
  moreover have "(ents(name := None)) n = Some k \<Longrightarrow> file_data ?w k \<noteq> None" for n k
    using all by (auto simp: fd split: if_splits)
  ultimately show "flat_dir ?w d" unfolding flat_dir_def using de by blast
  have "entinos ?w d \<subseteq> entinos w d"
    by (auto simp: entinos_def de ents ran_def split: if_splits)
  moreover have "root_ino ?w = root_ino w" "cwd_ino ?w = cwd_ino w"
    using nd by (simp_all add: set_entry_def set_content_def)
  ultimately show "evolves d w ?w"
    using nd by (auto simp: evolves_def dir_parent_def in')
qed

end
