(* ===== verification/Inode_Cache_Safety.thy ===== *)
theory Inode_Cache_Safety
  imports Inode_Cache Posix_Frame MD5_Reference
begin

text \<open>
  What the cache operations do to the process that calls them, for every pattern of failing
  system calls: descriptors, locks and heap blocks are given back on every path, and the
  result is zero or a negated error number.
\<close>

section \<open>The helpers\<close>

text \<open>
  What \<open>hash_inode\<close> may record: the overflow of the modification time, and only when the file
  has one that does not fit.
\<close>

definition hash_log :: "world \<Rightarrow> cstring \<Rightarrow> ub list \<Rightarrow> bool" where
  "hash_log w path us \<longleftrightarrow>
     us = [] \<or> us = [Signed_overflow] \<and> (\<exists>st. stat_path w path = Inr st \<and> mtime_overflows st)"

lemma hash_log_Nil [simp]: "hash_log w path []"
  by (simp add: hash_log_def)

lemma sys_stat_Some:
  assumes "sys_stat path w = (r, Some st, w1)"
  shows "stat_path w path = Inr st"
proof -
  have "stat_path w1 path = stat_path w path" if "next_fault w = (f, w1)" for f w1
    using that by (auto simp: next_fault_def stat_path_def lookup_path_def start_dir_def
      split: list.splits sum.split)
  then show ?thesis using assms by (auto simp: sys_stat_def split: prod.splits fault.splits sum.splits)
qed

lemma owns_mtime_checked:
  "owns w0 D H us w \<Longrightarrow> owns w0 D H (us @ (if mtime_overflows st then [Signed_overflow] else [])) (mtime_checked st w)"
  using owns_log by (simp add: mtime_checked_def)

lemma owns_hash_inode:
  assumes "owns w0 D H us w" "hash_inode q path kind w = (err, p, w')"
  shows "\<exists>vs. hash_log w path vs \<and>
    (err < 0 \<and> (p = q \<or> p = NULL) \<and> owns w0 D H (us @ vs) w' \<or>
     err = 0 \<and> p \<noteq> NULL \<and> p \<notin> H \<and> owns w0 D (insert p H) (us @ vs) w')"
proof -
  obtain r st w1 where st: "sys_stat path w = (r, st, w1)" by (cases "sys_stat path w") auto
  from sys_stat_cases [OF this] have r1: "res w1 = res w" and er: "st = None \<longrightarrow> 0 < errno w1"
    by auto
  have o1: "owns w0 D H us w1" using assms(1) r1 by (rule owns_res)
  show ?thesis
  proof (cases st)
    case None
    then show ?thesis using assms(2) st o1 er by (auto simp: hash_inode_def intro: exI [of _ "[]"])
  next
    case (Some s)
    define vs where "vs = (if mtime_overflows s then [Signed_overflow] else [])"
    have o2: "owns w0 D H (us @ vs) (mtime_checked s w1)" unfolding vs_def by (rule owns_mtime_checked [OF o1])
    have vs: "hash_log w path vs" using sys_stat_Some [OF st [unfolded Some]] by (simp add: hash_log_def vs_def)
    obtain r' p' w2 where as: "c_asprintf (cstr (MD5Digest (stack_ctx (mtime_checked s w1))
        (ino_hash_bytes (ino_hash_of s kind)))) (mtime_checked s w1) = (r', p', w2)"
      by (metis prod_cases3)
    from owns_asprintf [OF o2 as] show ?thesis
      using assms(2) st Some as vs by (auto simp: hash_inode_def Let_def split: if_splits)
  qed
qed

lemma owns_load_str:
  assumes "owns w0 D H us w" "p \<in> H"
  shows "\<exists>s. load_str p w = (s, w)"
  using owns_heap_str [OF assms] by (auto simp: load_str_def)

lemma lock_out_cases:
  assumes "owns w0 D H us w" "p \<in> H \<or> p = NULL"
  shows "0 \<le> fd \<Longrightarrow> nat fd \<in> D \<Longrightarrow> err < 0 \<Longrightarrow>
      inode_cache_lock_out fd err p w = (r, w') \<Longrightarrow>
      r < 0 \<and> owns w0 (D - {nat fd}) (H - {p}) us w'"
    and "fd < 0 \<Longrightarrow> err < 0 \<Longrightarrow> inode_cache_lock_out fd err p w = (r, w') \<Longrightarrow>
      r < 0 \<and> owns w0 D (H - {p}) us w'"
    and "inode_cache_lock_out fd 0 p w = (r, w') \<Longrightarrow> r = fd \<and> owns w0 D (H - {p}) us w'"
proof -
  have f: "owns w0 D (H - {p}) us (c_free p w)"
  proof (cases "p \<in> H")
    case True
    then show ?thesis using assms(1) by (intro owns_free)
  next
    case False
    then show ?thesis using assms by simp
  qed
  show "inode_cache_lock_out fd 0 p w = (r, w') \<Longrightarrow> r = fd \<and> owns w0 D (H - {p}) us w'"
    using f by (simp add: inode_cache_lock_out_def)
  show "fd < 0 \<Longrightarrow> err < 0 \<Longrightarrow> inode_cache_lock_out fd err p w = (r, w') \<Longrightarrow>
      r < 0 \<and> owns w0 D (H - {p}) us w'"
    using f by (auto simp: inode_cache_lock_out_def)
  show "0 \<le> fd \<Longrightarrow> nat fd \<in> D \<Longrightarrow> err < 0 \<Longrightarrow>
      inode_cache_lock_out fd err p w = (r, w') \<Longrightarrow>
      r < 0 \<and> owns w0 (D - {nat fd}) (H - {p}) us w'"
    using owns_close [OF f, of "nat fd"] by (auto simp: inode_cache_lock_out_def)
qed

lemma owns_lock:
  assumes o: "owns w0 D H us w" and p: "p \<in> H"
    and eq: "inode_cache_lock dirfd p excl w = (r, w')"
  shows "r < 0 \<and> owns w0 D H us w' \<or> (\<exists>n. r = int n \<and> n \<notin> D \<and> owns w0 (insert n D) H us w')"
proof -
  obtain nm where nm: "load_str p w = (nm, w)" using owns_load_str [OF o p] by blast
  obtain k q w1 where as: "c_asprintf (nm @ ''.lock'') w = (k, q, w1)" by (metis prod_cases3)
  from owns_asprintf [OF o as] show ?thesis
  proof (elim disjE conjE)
    assume "k = -1" "q = NULL" "owns w0 D H us w1"
    then show ?thesis
      using eq nm as by (auto simp: inode_cache_lock_def inode_cache_lock_out_def)
  next
    assume k: "0 \<le> k" and q: "q \<noteq> NULL" "q \<notin> H" and o1: "owns w0 D (insert q H) us w1"
    have rm: "insert q H - {q} = H" using q by simp
    obtain fd w2 where op: "sys_openat dirfd (nm @ ''.lock'')
        (if excl then [O_WRONLY, O_TRUNC, O_CREAT] else [O_RDONLY]) w1 = (fd, w2)" by fastforce
    from owns_opened [OF o1 sys_openat_opened [OF op]] show ?thesis
    proof (elim disjE exE conjE)
      assume "fd = -1" and o2: "owns w0 D (insert q H) us w2" and e: "0 < errno w2"
      then show ?thesis
        using eq nm as k op lock_out_cases(2) [OF o2, of q "-1" "- errno w2" r w'] rm
        by (simp add: inode_cache_lock_def)
    next
      fix n assume n: "fd = int n" "n \<notin> D" and o2: "owns w0 (insert n D) (insert q H) us w2"
      obtain s w3 where fl: "sys_flock (int n) (Some (if excl then LOCK_EX else LOCK_SH)) w2 = (s, w3)"
        by fastforce
      from owns_flock [OF o2 _ fl] have o3: "owns w0 (insert n D) (insert q H) us w3"
        and s: "s = 0 \<or> s = -1 \<and> 0 < errno w3" by auto
      have "n \<notin> D \<Longrightarrow> insert n D - {n} = D" by simp
      then show ?thesis
        using eq nm as k op n s fl rm lock_out_cases(3) [OF o3, of q "int n" r w']
          lock_out_cases(1) [OF o3, of q "int n" "- errno w3" r w']
        by (auto simp: inode_cache_lock_def)
    qed
  qed
qed

lemma owns_unlock:
  assumes "owns w0 D H us w" "n \<in> D"
  shows "owns w0 (D - {n}) H us (snd (inode_cache_unlock (int n) w))"
proof -
  obtain r w1 where fl: "sys_flock (int n) None w = (r, w1)" by fastforce
  from owns_flock [OF assms fl] have "owns w0 D H us w1" by blast
  from owns_close [OF this assms(2)] show ?thesis
    using fl by (simp add: inode_cache_unlock_def case_prod_beta)
qed

lemma read_loop_transferred:
  assumes "read_loop (int n) pos len k buf w = (br, pos', buf', w')"
  shows "transferred w n w' \<and> (br < 0 \<longrightarrow> 0 < errno w' \<or> br = k)"
  using assms
proof (induction "int n" pos len k buf w arbitrary: br pos' buf' w' rule: read_loop.induct)
  case (1 pos len k buf w)
  obtain r d w1 where rd: "sys_read (int n) len w = (r, d, w1)" by (metis prod_cases3)
  note t = sys_read_transferred [OF rd]
  show ?case
  proof (cases "0 < len")
    case False
    then show ?thesis using "1.prems" by (subst (asm) read_loop.simps) auto
  next
    case True
    show ?thesis
    proof (cases "0 < r")
      case False
      then show ?thesis using "1.prems" True rd t
        by (simp add: read_loop.simps [of "int n" pos len])
    next
      case r: True
      with "1.prems" True rd
      have "read_loop (int n) (pos + nat r) (len - nat r) r (memcpy_at buf pos d) w1 = (br, pos', buf', w')"
        by (simp add: read_loop.simps [of "int n" pos len])
      from "1.hyps" [OF True rd [symmetric] refl r this] r t show ?thesis
        by (auto intro: transferred_trans)
    qed
  qed
qed

lemma owns_read_entry:
  assumes o: "owns w0 D H us w" and n: "n \<in> D" and eq: "read_entry (int n) buf w = (err, buf', w')"
  shows "err \<le> 0 \<and> (owns w0 D H us w' \<or> owns w0 D H (us @ [Out_of_bounds]) w')"
proof (cases "length buf \<le> 1")
  case True
  then show ?thesis using o eq by (auto simp: read_entry_def)
next
  case False
  obtain br pos b w1 where rl: "read_loop (int n) 0 (length buf - 1) 0 buf w = (br, pos, b, w1)"
    by (metis prod_cases4)
  from read_loop_transferred [OF rl] have o1: "owns w0 D H us w1" and e: "br < 0 \<longrightarrow> 0 < errno w1"
    using owns_transferred [OF o n] by auto
  show ?thesis using False eq rl e o1 owns_log [OF o1, of Out_of_bounds]
    by (auto simp: read_entry_def EXIT_FAILURE_def Let_def split: if_splits)
qed

lemma owns_write_entry:
  assumes "owns w0 D H us w" "n \<in> D" "write_entry (int n) val w = (err, w')"
  shows "owns w0 D H us w' \<and> err \<le> 0"
  using assms
proof (induction "int n" val w arbitrary: err w' rule: write_entry.induct)
  case (1 val w)
  obtain r w1 where wr: "sys_write (int n) val w = (r, w1)" by fastforce
  note t = sys_write_transferred [OF wr]
  have o1: "owns w0 D H us w1" using "1.prems"(1,2) t by (auto intro: owns_transferred)
  show ?case
  proof (cases "val = [] \<or> r < 0")
    case True
    then show ?thesis using "1.prems" wr o1 t
      by (auto simp: write_entry.simps [of "int n" val] split: if_splits)
  next
    case False
    with "1.prems"(3) wr have "write_entry (int n) (drop (nat r) val) w1 = (err, w')"
      by (simp add: write_entry.simps [of "int n" val])
    with "1.hyps" [of r w1] False wr o1 "1.prems"(2) show ?thesis by simp
  qed
qed

section \<open>The clean-up code\<close>

definition fd_set :: "int \<Rightarrow> nat set" where
  "fd_set fd = (if fd < 0 then {} else {nat fd})"

definition ptr_set :: "ptr \<Rightarrow> ptr set" where
  "ptr_set p = (if p = NULL then {} else {p})"

lemma fd_set_simps [simp]: "fd < 0 \<Longrightarrow> fd_set fd = {}" "fd_set (int n) = {n}"
  by (simp_all add: fd_set_def)

lemma ptr_set_simps [simp]: "ptr_set 0 = {}" "p \<noteq> 0 \<Longrightarrow> ptr_set p = {p}"
  by (simp_all add: ptr_set_def)

lemma owns_close_if:
  "owns w0 D H us w \<Longrightarrow> fd_set fd \<subseteq> D \<Longrightarrow>
    owns w0 (D - fd_set fd) H us (if 0 \<le> fd then snd (sys_close fd w) else w)"
  using owns_close [of w0 D H us w "nat fd"] by (auto simp: fd_set_def)

lemma owns_unlock_if:
  "owns w0 D H us w \<Longrightarrow> fd_set fd \<subseteq> D \<Longrightarrow>
    owns w0 (D - fd_set fd) H us (if 0 \<le> fd then snd (inode_cache_unlock fd w) else w)"
  using owns_unlock [of w0 D H us w "nat fd"] by (auto simp: fd_set_def)

lemma owns_free_if: "owns w0 D H us w \<Longrightarrow> ptr_set p \<subseteq> H \<Longrightarrow> owns w0 D (H - ptr_set p) us (c_free p w)"
  using owns_free [of w0 D H us w p] by (auto simp: ptr_set_def)

lemma owns_get_out:
  assumes "get_out err efd lfd p result w = (err', result', w')" "owns w0 D H us w"
    and "fd_set efd \<subseteq> D" "fd_set lfd \<subseteq> D - fd_set efd" "ptr_set p \<subseteq> H"
  shows "err' = err \<and> result' = result \<and> owns w0 (D - fd_set efd - fd_set lfd) (H - ptr_set p) us w'"
  using assms(1) owns_free_if [OF owns_unlock_if [OF owns_close_if [OF assms(2,3)] assms(4)] assms(5)]
  by (simp add: get_out_def Let_def)

lemma owns_put_out:
  assumes "put_out err efd lfd p w = (err', w')" "owns w0 D H us w"
    and "fd_set lfd \<subseteq> D" "fd_set efd \<subseteq> D - fd_set lfd" "ptr_set p \<subseteq> H"
  shows "err' = err \<and> owns w0 (D - fd_set lfd - fd_set efd) (H - ptr_set p) us w'"
  using assms(1) owns_close_if [OF owns_free_if [OF owns_unlock_if [OF assms(2,3)] assms(5)] assms(4)]
  by (simp add: put_out_def Let_def)

text \<open>
  After a failed \<open>close\<close> the clean-up of \<open>inode_cache_put\<close> closes the descriptor once more;
  with no other thread the second call is refused and does nothing.
\<close>

lemma owns_put_out_closed:
  assumes eq: "put_out err (int n) lfd p w = (err', w')" and o: "owns w0 D H us w"
    and sub: "fd_set lfd \<subseteq> D" "ptr_set p \<subseteq> H" and n: "n \<notin> D" "fds w0 n = None"
  shows "err' = err \<and> owns w0 (D - fd_set lfd) (H - ptr_set p) us w'"
proof -
  define w1 where "w1 = c_free p (if 0 \<le> lfd then snd (inode_cache_unlock lfd w) else w)"
  have o1: "owns w0 (D - fd_set lfd) (H - ptr_set p) us w1"
    unfolding w1_def by (rule owns_free_if [OF owns_unlock_if [OF o sub(1)] sub(2)])
  then have "fds w1 n = None" using n by (simp add: owns_def)
  from owns_close_foreign [OF o1 this] eq show ?thesis
    by (auto simp: put_out_def w1_def)
qed

lemma owns_del_out:
  assumes "del_out err lfd p w = (err', w')" "owns w0 D H us w"
    and "fd_set lfd \<subseteq> D" "ptr_set p \<subseteq> H"
  shows "err' = err \<and> owns w0 (D - fd_set lfd) (H - ptr_set p) us w'"
  using assms(1) owns_free_if [OF owns_unlock_if [OF assms(2,3)] assms(4)]
  by (simp add: del_out_def Let_def)

section \<open>The operations\<close>

lemma owns_del:
  assumes o: "owns w0 {} {} [] w" and eq: "inode_cache_del cache path kind w = (err, w')"
  shows "\<exists>us. hash_log w path us \<and> err \<le> 0 \<and> owns w0 {} {} us w'"
proof -
  obtain e p w1 where h: "hash_inode NULL path kind w = (e, p, w1)" by (metis prod_cases3)
  from owns_hash_inode [OF o h] obtain vs where vs: "hash_log w path vs"
    and hs: "e < 0 \<and> (p = NULL \<or> p = NULL) \<and> owns w0 {} {} vs w1 \<or> e = 0 \<and> p \<noteq> NULL \<and> p \<notin> {} \<and> owns w0 {} (insert p {}) vs w1"
    by (auto simp del: insert_iff)
  from hs have "err \<le> 0 \<and> owns w0 {} {} vs w'"
  proof (elim disjE conjE)
    assume "e < 0" "owns w0 {} {} vs w1" "p = NULL"
    then show ?thesis using eq h by (auto simp: inode_cache_del_def del_out_def)
  next
    assume "e < 0" "owns w0 {} {} vs w1" "p = NULL"
    then show ?thesis using eq h by (auto simp: inode_cache_del_def del_out_def)
  next
    assume e: "e = 0" "p \<noteq> NULL" and "owns w0 {} (insert p {}) vs w1"
    then have o1: "owns w0 {} {p} vs w1" by simp
    obtain l w2 where lk: "inode_cache_lock (ic_dirfd cache) p True w1 = (l, w2)" by fastforce
    from owns_lock [OF o1 singletonI lk] show ?thesis
    proof (elim disjE exE conjE)
      assume "l < 0" "owns w0 {} {p} vs w2"
      then show ?thesis using eq h e lk owns_del_out [of l l p w2 err w' w0 "{}" "{p}" "vs"]
        by (simp add: inode_cache_del_def)
    next
      fix n assume n: "l = int n" and o2: "owns w0 (insert n {}) {p} vs w2"
      obtain nm where nm: "load_str p w2 = (nm, w2)" using owns_load_str [OF o2] by blast
      obtain r w3 where ul: "sys_unlinkat (ic_dirfd cache) nm w2 = (r, w3)" by fastforce
      note pl = sys_unlinkat_plain [OF ul]
      have o3: "owns w0 {n} {p} vs w3" using owns_plain [OF o2 pl] by simp
      have out: "del_out k (int n) p w3 = (err, w') \<Longrightarrow> err = k \<and> owns w0 {} {} vs w'" for k
        using owns_del_out [OF _ o3, of k "int n" p err w'] e(2) by simp
      show ?thesis using eq h e lk n nm ul pl
        by (auto simp: inode_cache_del_def plain_result_def split: if_splits dest!: out)
    qed
  qed
  with vs show ?thesis by blast
qed

lemma put_locked_owns:
  assumes o: "owns w0 {n} {p} us w" and p: "p \<noteq> NULL"
    and eq: "put_locked c p (int n) v w = (err, w')"
  shows "err \<le> 0 \<and> owns w0 {} {} us w'"
proof -
  obtain nm where nm: "load_str p w = (nm, w)" using owns_load_str [OF o] by blast
  obtain f w1 where op: "sys_openat (ic_dirfd c) nm [O_WRONLY, O_TRUNC, O_CREAT] w = (f, w1)"
    by fastforce
  from owns_opened [OF o sys_openat_opened [OF op]] show ?thesis
  proof (elim disjE exE conjE)
    assume "f = -1" "owns w0 {n} {p} us w1"
    then show ?thesis using eq nm op p owns_put_out [of f f "int n" p w1 err w' w0 "{n}" "{p}" us]
      by (simp add: put_locked_def)
  next
    fix e assume f: "f = int e" "e \<notin> {n}" and o1: "owns w0 (insert e {n}) {p} us w1"
    obtain r w2 where wr: "write_entry (int e) (v @ [NUL]) w1 = (r, w2)" by fastforce
    from owns_write_entry [OF o1 insertI1 wr] have o2: "owns w0 {e, n} {p} us w2" and r: "r \<le> 0" by auto
    obtain s w3 where fs: "sys_fsync (int e) w2 = (s, w3)" by fastforce
    note pl = sys_fsync_plain [OF fs]
    have o3: "owns w0 {e, n} {p} us w3" using o2 pl by (rule owns_plain)
    obtain t w4 where cl: "sys_close (int e) w3 = (t, w4)" by fastforce
    have o4: "owns w0 {n} {p} us w4" using owns_close [OF o3, of e] cl f(2) by simp
    have t: "t < 0 \<longrightarrow> 0 < errno w4" using sys_close_errno [of "int e" w3] cl by simp
    have "fds w0 e = None" using o1 by (simp add: owns_def)
    then have closed: "put_out k (int e) (int n) p w4 = (err, w') \<Longrightarrow> err = k \<and> owns w0 {} {} us w'" for k
      using owns_put_out_closed [OF _ o4, of k e "int n" p err w'] f(2) p by simp
    have both: "owns w0 {e, n} {p} us x \<Longrightarrow> put_out k (int e) (int n) p x = (err, w') \<Longrightarrow>
        err = k \<and> owns w0 {} {} us w'" for k x
      using owns_put_out [of k "int e" "int n" p x err w' w0 "{e, n}" "{p}" us] f(2) p
      by (auto simp: insert_Diff_if)
    have last: "put_out 0 (-1) (int n) p w4 = (err, w') \<Longrightarrow> err = 0 \<and> owns w0 {} {} us w'"
      using owns_put_out [of 0 "-1" "int n" p w4 err w' w0 "{n}" "{p}" us] o4 p by simp
    show ?thesis using eq nm op f wr fs cl r pl t
      by (auto simp: put_locked_def plain_result_def split: if_splits
          dest!: both [OF o2] both [OF o3] closed last)
  qed
qed

lemma owns_put:
  assumes o: "owns w0 {} {} [] w" and eq: "inode_cache_put cache path kind val w = (err, w')"
  shows "\<exists>us. (us = [] \<or> (\<exists>q. path = Some q \<and> hash_log w q us)) \<and> err \<le> 0 \<and> owns w0 {} {} us w'"
proof (cases "\<exists>c p v. cache = Some c \<and> path = Some p \<and> val = Some v \<and> length v + 1 \<le> INO_CACHE_ENTRY_MAX_SIZE")
  case False
  then show ?thesis using eq o
    by (intro exI [of _ "[]"]) (auto simp: inode_cache_put_def put_out_def Let_def split: option.splits if_splits)
next
  case True
  then obtain c pt v where args: "cache = Some c" "path = Some pt" "val = Some v"
    "\<not> INO_CACHE_ENTRY_MAX_SIZE < Suc (length v)" by auto
  obtain e p w1 where h: "hash_inode NULL pt kind w = (e, p, w1)" by (metis prod_cases3)
  note unf = inode_cache_put_def args h
  from owns_hash_inode [OF o h] obtain vs where vs: "hash_log w pt vs"
    and hs: "e < 0 \<and> (p = NULL \<or> p = NULL) \<and> owns w0 {} {} vs w1 \<or> e = 0 \<and> p \<noteq> NULL \<and> p \<notin> {} \<and> owns w0 {} (insert p {}) vs w1"
    by (auto simp del: insert_iff)
  from hs have "err \<le> 0 \<and> owns w0 {} {} vs w'"
  proof (elim disjE conjE)
    assume "e < 0" "owns w0 {} {} vs w1" "p = NULL"
    then show ?thesis using eq by (auto simp: unf put_out_def)
  next
    assume "e < 0" "owns w0 {} {} vs w1" "p = NULL"
    then show ?thesis using eq by (auto simp: unf put_out_def)
  next
    assume e: "e = 0" "p \<noteq> NULL" and "owns w0 {} (insert p {}) vs w1"
    then have o1: "owns w0 {} {p} vs w1" by simp
    obtain l w2 where lk: "inode_cache_lock (ic_dirfd c) p True w1 = (l, w2)" by fastforce
    from owns_lock [OF o1 singletonI lk] show ?thesis
    proof (elim disjE exE conjE)
      assume "l < 0" "owns w0 {} {p} vs w2"
      then show ?thesis using eq e lk owns_put_out [of l "-1" l p w2 err w' w0 "{}" "{p}" vs]
        by (simp add: unf)
    next
      fix n assume n: "l = int n" and "owns w0 (insert n {}) {p} vs w2"
      then have "owns w0 {n} {p} vs w2" by simp
      then show ?thesis using eq e lk n put_locked_owns [of w0 n p vs w2 c v err w'] by (simp add: unf)
    qed
  qed
  with vs args show ?thesis by blast
qed

lemma get_locked_owns:
  assumes o: "owns w0 {n} {p} us0 w" and p: "p \<noteq> NULL" and r: "result \<noteq> None"
    and eq: "get_locked c p (int n) result w = (err, result', w')"
  shows "err \<le> 0 \<and> (\<exists>us. set us \<subseteq> {Out_of_bounds, Unterminated_string} \<and>
    (owns w0 {} {} (us0 @ us) w' \<and> (result' = result \<or> result' = Some NULL) \<or>
     (\<exists>q. q \<noteq> NULL \<and> result' = Some q \<and> owns w0 {} {q} (us0 @ us) w')))"
proof -
  obtain nm where nm: "load_str p w = (nm, w)" using owns_load_str [OF o] by blast
  obtain f w1 where op: "sys_openat (ic_dirfd c) nm [O_RDONLY, O_NOFOLLOW] w = (f, w1)"
    by fastforce
  from owns_opened [OF o sys_openat_opened [OF op]] show ?thesis
  proof (elim disjE exE conjE)
    assume f: "f = -1" and o1: "owns w0 {n} {p} us0 w1" and "0 < errno w1"
    then show ?thesis
      using eq nm op p owns_get_out [of "- errno w1" f "int n" p result w1 err result' w' w0 "{n}" "{p}" us0]
      by (auto simp: get_locked_def intro!: exI [of _ "[]"])
  next
    fix e assume f: "f = int e" "e \<notin> {n}" and o1: "owns w0 (insert e {n}) {p} us0 w1"
    obtain k b w2 where rd: "read_entry (int e) (map (stack_byte w1) [0..<INO_CACHE_ENTRY_MAX_SIZE]) w1 = (k, b, w2)"
      by (metis prod_cases3)
    from owns_read_entry [OF o1 insertI1 rd] obtain us where k: "k \<le> 0"
      and us: "set us \<subseteq> {Out_of_bounds}" and o2: "owns w0 {e, n} {p} (us0 @ us) w2"
      by (auto intro: that [of "[]"] that [of "[Out_of_bounds]"])
    obtain q w3 where sd: "c_strdup b w2 = (q, w3)" by fastforce
    define vs where "vs = (if terminated b then us else us @ [Unterminated_string])"
    have vs: "set vs \<subseteq> {Out_of_bounds, Unterminated_string}" using us by (auto simp: vs_def)
    have o3: "q = NULL \<and> owns w0 {e, n} {p} (us0 @ vs) w3 \<or> q \<noteq> NULL \<and> q \<notin> {p} \<and> owns w0 {e, n} (insert q {p}) (us0 @ vs) w3"
      using owns_strdup [OF o2 sd] by (auto simp: vs_def)
    have out: "owns w0 {e, n} H (us0 @ vs) w3 \<Longrightarrow> p \<in> H \<Longrightarrow> get_out m (int e) (int n) p (Some q) w3 = (err, result', w') \<Longrightarrow>
        err = m \<and> result' = Some q \<and> owns w0 {} (H - {p}) (us0 @ vs) w'" for m H
      using owns_get_out [of m "int e" "int n" p "Some q" w3 err result' w' w0 "{e, n}" H "us0 @ vs"] f(2) p
      by (auto simp: insert_Diff_if)
    from o3 show ?thesis
    proof (elim disjE conjE)
      assume q: "q = NULL" and o4: "owns w0 {e, n} {p} (us0 @ vs) w3"
      then show ?thesis using eq nm op f rd sd vs out [OF o4, of "- errno_val ENOMEM"]
        by (auto simp: get_locked_def intro!: exI [of _ vs])
    next
      assume q: "q \<noteq> NULL" "q \<notin> {p}" and o4: "owns w0 {e, n} (insert q {p}) (us0 @ vs) w3"
      then show ?thesis using eq nm op f rd sd vs k out [OF o4, of k]
        by (auto simp: get_locked_def insert_Diff_if intro!: exI [of _ vs])
    qed
  qed
qed

lemma owns_get:
  assumes o: "owns w0 {} {} [] w" and eq: "inode_cache_get cache path kind result w = (err, result', w')"
  shows "err \<le> 0 \<and> (\<exists>vs us. hash_log w path vs \<and> set us \<subseteq> {Out_of_bounds, Unterminated_string} \<and>
    (owns w0 {} {} (vs @ us) w' \<and> (result' = result \<or> result' = Some NULL) \<or>
     (\<exists>q. q \<noteq> NULL \<and> result' = Some q \<and> owns w0 {} {q} (vs @ us) w')))"
proof (cases "result = None")
  case True
  then show ?thesis using eq o by (auto simp: inode_cache_get_def get_out_def intro!: exI [of _ "[]"] hash_log_Nil)
next
  case False
  obtain e p w1 where h: "hash_inode NULL path kind w = (e, p, w1)" by (metis prod_cases3)
  note unf = inode_cache_get_def h False
  from owns_hash_inode [OF o h] obtain vs where vs: "hash_log w path vs"
    and hs: "e < 0 \<and> (p = NULL \<or> p = NULL) \<and> owns w0 {} {} vs w1 \<or> e = 0 \<and> p \<noteq> NULL \<and> p \<notin> {} \<and> owns w0 {} (insert p {}) vs w1"
    by (auto simp del: insert_iff)
  let ?goal = "err \<le> 0 \<and> (\<exists>us. set us \<subseteq> {Out_of_bounds, Unterminated_string} \<and>
    (owns w0 {} {} (vs @ us) w' \<and> (result' = result \<or> result' = Some NULL) \<or>
     (\<exists>q. q \<noteq> NULL \<and> result' = Some q \<and> owns w0 {} {q} (vs @ us) w')))"
  have early: "e < 0 \<Longrightarrow> owns w0 {} {} vs w1 \<Longrightarrow> ?goal"
    using eq by (auto simp: unf get_out_def intro!: exI [of _ "[]"])
  from hs have ?goal
  proof (elim disjE conjE)
    assume e: "e = 0" "p \<noteq> NULL" and "owns w0 {} (insert p {}) vs w1"
    then have o1: "owns w0 {} {p} vs w1" by simp
    obtain l w2 where lk: "inode_cache_lock (ic_dirfd cache) p False w1 = (l, w2)" by fastforce
    from owns_lock [OF o1 singletonI lk] show ?thesis
    proof (elim disjE exE conjE)
      assume "l < 0" "owns w0 {} {p} vs w2"
      then show ?thesis
        using eq e lk owns_get_out [of l "-1" l p result w2 err result' w' w0 "{}" "{p}" vs]
        by (auto simp: unf intro!: exI [of _ "[]"])
    next
      fix n assume n: "l = int n" and "owns w0 (insert n {}) {p} vs w2"
      then have "owns w0 {n} {p} vs w2" by simp
      from get_locked_owns [OF this e(2) False, of cache err result' w'] show ?thesis
        using eq e lk n by (simp add: unf)
    qed
  qed (use early in blast)+
  with vs show ?thesis by blast
qed

section \<open>Properties\<close>

text \<open>A process with nothing open and nothing allocated, on an empty file system.\<close>

definition idle_world :: "fault list \<Rightarrow> world" where
  "idle_world fs = \<lparr>inodes = (\<lambda>_. None)(0 \<mapsto> \<lparr>i_dev = 1, i_mtime_sec = 0, i_mtime_nsec = 0,
       i_content = Dir (\<lambda>_. None) 0\<rparr>),
     root_ino = 0, cwd_ino = 0, next_ino = 1, clock_sec = 0, clock_nsec = 0,
     fds = \<lambda>_. None, fd_max = 8, flocks = \<lambda>_. None, heap = \<lambda>_. None, next_ptr = 1, errno = 0,
     faults = fs, stack_byte = \<lambda>_. CHR ''x'', ub_log = []\<rparr>"

lemma idle_world_ok: "proc_ok (idle_world fs)"
  by (simp add: idle_world_def proc_ok_def heap_ok_def)

text \<open>C2. Whatever system calls fail and however short the transfers are, storing an entry
  returns zero or a negative number and gives back every descriptor, lock and heap block it
  acquired. It does nothing undefined, but for one signed overflow when the file has a
  modification time that does not fit in 64 bits of microseconds.\<close>

theorem inode_cache_put_clean:
  assumes "proc_ok w" "inode_cache_put cache path kind val w = (err, w')"
  shows "err \<le> 0 \<and> fds w' = fds w \<and> flocks w' = flocks w \<and> heap w' = heap w \<and>
    (ub_log w' = ub_log w \<or> ub_log w' = ub_log w @ [Signed_overflow] \<and>
      (\<exists>p st. path = Some p \<and> stat_path w p = Inr st \<and> mtime_overflows st))"
  using owns_put [OF owns_start [OF assms(1)] assms(2)] owns_end [of w _ w'] by (auto simp: hash_log_def)

theorem inode_cache_put_clean_witness:
  "heap (snd (inode_cache_put (Some \<lparr>ic_dir = None, ic_dirfd = 3\<rparr>) (Some ''/'') 1 (Some ''v'')
     (idle_world [Pass, Fail EIO]))) = (\<lambda>_. None)"
  using inode_cache_put_clean [OF idle_world_ok surjective_pairing,
    of "Some \<lparr>ic_dir = None, ic_dirfd = 3\<rparr>" "Some ''/''" 1 "Some ''v''" "[Pass, Fail EIO]"]
  by (simp add: idle_world_def)

text \<open>The same for deleting an entry.\<close>

lemma inode_cache_del_clean:
  assumes "proc_ok w" "inode_cache_del cache path kind w = (err, w')"
  shows "err \<le> 0 \<and> fds w' = fds w \<and> flocks w' = flocks w \<and> heap w' = heap w \<and>
    (\<exists>us. hash_log w path us \<and> ub_log w' = ub_log w @ us)"
  using owns_del [OF owns_start [OF assms(1)] assms(2)] owns_end [of w _ w'] by auto

lemma inode_cache_del_clean_witness:
  "fds (snd (inode_cache_del \<lparr>ic_dir = None, ic_dirfd = 3\<rparr> ''/'' 1 (idle_world [Pass, Fail EIO]))) =
     (\<lambda>_. None)"
  using inode_cache_del_clean [OF idle_world_ok surjective_pairing,
    of "\<lparr>ic_dir = None, ic_dirfd = 3\<rparr>" "''/''" 1 "[Pass, Fail EIO]"]
  by (simp add: idle_world_def)

text \<open>C3. Reading an entry gives back every descriptor and lock; the only block it leaves
  on the heap is the one the out parameter then designates; and the only undefined behaviours
  it can show are, in this order, the signed overflow of a modification time that does not fit
  in 64 bits of microseconds, the read before the buffer (an empty entry file) and the copy of
  a buffer without a terminating NUL (an entry of maximal size).\<close>

theorem inode_cache_get_clean:
  assumes "proc_ok w" "inode_cache_get cache path kind result w = (err, result', w')"
  shows "err \<le> 0 \<and> fds w' = fds w \<and> flocks w' = flocks w \<and>
    (heap w' = heap w \<or> (\<exists>q b. q \<noteq> NULL \<and> result' = Some q \<and> heap w q = None \<and> heap w' = (heap w)(q \<mapsto> b))) \<and>
    (\<exists>vs us. ub_log w' = ub_log w @ vs @ us \<and> set us \<subseteq> {Out_of_bounds, Unterminated_string} \<and>
      (vs = [] \<or> vs = [Signed_overflow] \<and> (\<exists>st. stat_path w path = Inr st \<and> mtime_overflows st)))"
proof -
  from owns_get [OF owns_start [OF assms(1)] assms(2)] obtain vs us where e: "err \<le> 0"
    and vs: "hash_log w path vs" and us: "set us \<subseteq> {Out_of_bounds, Unterminated_string}"
    and o: "owns w {} {} (vs @ us) w' \<or> (\<exists>q. q \<noteq> NULL \<and> result' = Some q \<and> owns w {} {q} (vs @ us) w')"
    by auto
  note vs = vs [unfolded hash_log_def]
  from o show ?thesis
  proof (elim disjE exE conjE)
    assume "owns w {} {} (vs @ us) w'"
    from owns_end [OF this] e us vs show ?thesis by (simp del: append_assoc) blast
  next
    fix q assume q: "q \<noteq> NULL" "result' = Some q" and o: "owns w {} {q} (vs @ us) w'"
    then obtain b where "heap w' q = Some b" "heap w q = None" by (auto simp: owns_def)
    moreover from this o have "heap w' = (heap w)(q \<mapsto> b)" by (auto simp: owns_def fun_eq_iff)
    moreover have "fds w' = fds w" "flocks w' = flocks w" "ub_log w' = ub_log w @ vs @ us"
      using o by (auto simp: owns_def)
    ultimately show ?thesis using e us q vs by blast
  qed
qed

theorem inode_cache_get_clean_witness:
  "fds (snd (snd (inode_cache_get \<lparr>ic_dir = None, ic_dirfd = 3\<rparr> ''/'' 1 (Some 0)
     (idle_world [Pass, Fail EIO])))) = (\<lambda>_. None)"
proof -
  let ?w = "idle_world [Pass, Fail EIO]"
  obtain e r w' where "inode_cache_get \<lparr>ic_dir = None, ic_dirfd = 3\<rparr> ''/'' 1 (Some 0) ?w = (e, r, w')"
    by (metis prod_cases3)
  with inode_cache_get_clean [OF idle_world_ok this] show ?thesis by (simp add: idle_world_def)
qed

end
