(* ===== verification/Inode_Cache_Function.thy ===== *)
theory Inode_Cache_Function
  imports Inode_Cache_View Inode_Cache_Safety
begin

text \<open>
  What the cache operations compute when no system call fails: \<open>inode_cache_put\<close> binds the
  name of the entry, \<open>inode_cache_del\<close> unbinds it, \<open>inode_cache_get\<close> returns what is
  bound. The directory is seen through \<open>dirview\<close>.
\<close>

section \<open>Names in the directory\<close>

lemma quiet_unlock:
  "faults w = [] \<Longrightarrow> fds w n \<noteq> None \<Longrightarrow> inode_cache_unlock (int n) w =
    (-1, w\<lparr>flocks := (flocks w)(n := None), fds := (fds w)(n := None)\<rparr>)"
  by (simp add: inode_cache_unlock_def quiet_flock quiet_close)

text \<open>The process holds the directory \<open>d\<close> open as \<open>c\<close>, and no fault is scheduled.\<close>

definition ready :: "ino \<Rightarrow> nat \<Rightarrow> world \<Rightarrow> bool" where
  "ready d c w \<longleftrightarrow> faults w = [] \<and> flat_dir w d \<and> fds w c = Some (OPath d) \<and> proc_ok w"

lemma lookup_plain:
  assumes "ready d c w" "plain_name n"
  shows "lookup_path w (int c) n = (case dirview w d n of None \<Rightarrow> Inl ENOENT | Some (i, _) \<Rightarrow> Inr i)"
    "lookup_parent w (int c) n = Inr (d, n)"
proof -
  have hd: "hd n \<noteq> CHR ''/''" "n \<noteq> []"
    using assms(2) hd_in_set [of n] unfolding plain_name_def by metis+
  have "int c \<noteq> AT_FDCWD" "fds w c = Some (OPath d)" "\<not> int c < 0"
    using assms(1) by (simp_all add: ready_def AT_FDCWD_def)
  then have st: "start_dir w (int c) n = Inr d"
    using hd by (simp add: start_dir_def)
  have sp: "split_path n = [n]" using assms(2) by (simp add: plain_name_def split_path_no_slash)
  show "lookup_parent w (int c) n = Inr (d, n)" by (simp add: lookup_parent_def st sp)
  from assms(1) obtain ents where ents: "dir_entries w d = Some ents"
    "\<And>n i. ents n = Some i \<Longrightarrow> file_data w i \<noteq> None" by (auto simp: ready_def flat_dir_def)
  from dir_entries_content [OF ents(1)] obtain nd p where "inodes w d = Some nd" "i_content nd = Dir ents p"
    by blast
  then show "lookup_path w (int c) n = (case dirview w d n of None \<Rightarrow> Inl ENOENT | Some (i, _) \<Rightarrow> Inr i)"
    using assms(2) ents(1) ents(2) [of n] hd(2)
    by (cases "ents n") (auto simp: lookup_path_def st sp dirview_def plain_name_def)
qed

lemma dirview_file:
  "dirview w d n = Some (i, b) \<Longrightarrow> file_data w i = Some b"
  "dirview w d n = Some (i, b) \<Longrightarrow> \<exists>nd. inodes w i = Some nd \<and> i_content nd = Reg b"
  using file_data_content by (auto simp: dirview_def split: option.splits)

text \<open>What one call, or a sequence of calls, has done to the directory.\<close>

definition changed :: "ino \<Rightarrow> world \<Rightarrow> world \<Rightarrow> (cstring \<rightharpoonup> ino \<times> cbuffer) \<Rightarrow> bool" where
  "changed d w w' V \<longleftrightarrow> dirview w' d = V \<and> flat_dir w' d \<and> evolves d w w' \<and> faults w' = [] \<and>
     fd_max w' = fd_max w"

lemma changed_trans: "changed d w w1 V1 \<Longrightarrow> changed d w1 w2 V2 \<Longrightarrow> changed d w w2 V2"
  by (auto simp: changed_def intro: evolves_trans)

lemma changed_same:
  assumes "inodes w' = inodes w" "root_ino w' = root_ino w" "cwd_ino w' = cwd_ino w"
    "next_ino w' = next_ino w" "fd_max w' = fd_max w" "faults w' = []" "flat_dir w d"
  shows "changed d w w' (dirview w d)"
  using assms evolves_same [OF assms(1-3), of d]
  by (simp only: changed_def dirview_same [OF assms(1)] flat_dir_same [OF assms(1,4)] simp_thms)

lemma changed_fds:
  "changed d w w1 V \<Longrightarrow> changed d w (w1\<lparr>fds := f\<rparr>) V"
  using changed_same [of "w1\<lparr>fds := f\<rparr>" w1 d] changed_trans [of d w w1 V "w1\<lparr>fds := f\<rparr>" V]
  by (auto simp: changed_def)

lemma quiet_open_create:
  assumes r: "ready d c w" and n: "plain_name name" and f: "free_fd w = Some k"
  shows "\<exists>i w1. sys_openat (int c) name [O_WRONLY, O_TRUNC, O_CREAT] w = (int k, w1) \<and>
    changed d w w1 ((dirview w d)(name \<mapsto> (i, []))) \<and>
    res w1 = res w\<lparr>rs_fds := (fds w)(k \<mapsto> OFile i 0 False True)\<rparr>"
proof -
  have q: "faults w = []" and flat: "flat_dir w d" using r by (simp_all add: ready_def)
  let ?obj = "\<lambda>i. OFile i 0 False True"
  show ?thesis
  proof (cases "dirview w d name")
    case (Some p)
    then obtain i b where ib: "dirview w d name = Some (i, b)" by (cases p) auto
    from dirview_file(2) [OF this] obtain nd where nd: "inodes w i = Some nd" "i_content nd = Reg b" by blast
    let ?w = "set_content i (Reg []) w"
    have "sys_openat (int c) name [O_WRONLY, O_TRUNC, O_CREAT] w = (int k, ?w\<lparr>fds := (fds w)(k \<mapsto> ?obj i)\<rparr>)"
      using nd by (simp add: sys_openat_def quiet_fault [OF q] f lookup_plain [OF r n] ib
        open_existing_def install_fd_def open_obj_def)
    moreover have "changed d w ?w ((dirview w d)(name \<mapsto> (i, [])))"
      using set_content_file [OF flat ib, of "[]"] q by (simp add: changed_def)
    ultimately show ?thesis by (metis changed_fds res_frame(5) res_set_content)
  next
    case None
    obtain i w2 where ni: "new_inode d name (Reg []) w = (i, w2)" by fastforce
    from flat obtain ents where ents: "dir_entries w d = Some ents"
      "\<And>n i. ents n = Some i \<Longrightarrow> file_data w i \<noteq> None" by (auto simp: flat_dir_def)
    then have none: "ents name = None" using None ents(2) [of name]
      by (cases "ents name") (auto simp: dirview_def)
    have w2: "fd_max w2 = fd_max w" "faults w2 = []" "fds w2 = fds w" "res w2 = res w"
      using fd_max_new_inode [of d name "Reg []" w] res_new_inode [of d name "Reg []" w] ni q by simp_all
    have "sys_openat (int c) name [O_WRONLY, O_TRUNC, O_CREAT] w = (int k, w2\<lparr>fds := (fds w)(k \<mapsto> ?obj i)\<rparr>)"
      using n none ents(1) by (simp add: sys_openat_def quiet_fault [OF q] f lookup_plain [OF r n] None
        ni install_fd_def open_obj_def w2 plain_name_def)
    moreover have "changed d w w2 ((dirview w d)(name \<mapsto> (i, [])))"
      using new_inode_file [OF flat None ni] w2 by (simp add: changed_def)
    ultimately show ?thesis using w2(4) by (metis changed_fds res_frame(5))
  qed
qed

lemma quiet_open_read:
  assumes r: "ready d c w" and n: "plain_name name" and f: "free_fd w = Some k"
    and fl: "set fl \<subseteq> {O_RDONLY, O_NOFOLLOW}" "O_RDONLY \<in> set fl"
  shows "sys_openat (int c) name fl w =
    (case dirview w d name of
       None \<Rightarrow> (-1, w\<lparr>errno := errno_val ENOENT\<rparr>)
     | Some (i, _) \<Rightarrow> (int k, w\<lparr>fds := (fds w)(k \<mapsto> OFile i 0 True False)\<rparr>))"
proof -
  have q: "faults w = []" and flat: "flat_dir w d" using r by (simp_all add: ready_def)
  have no: "O_CREAT \<notin> set fl" "O_DIRECTORY \<notin> set fl" "O_TRUNC \<notin> set fl" "O_PATH \<notin> set fl" "O_WRONLY \<notin> set fl"
    using fl(1) by auto
  show ?thesis
  proof (cases "dirview w d name")
    case (Some p)
    then obtain i b where ib: "dirview w d name = Some (i, b)" by (cases p) auto
    from dirview_file(2) [OF this] obtain nd where nd: "inodes w i = Some nd" "i_content nd = Reg b" by blast
    show ?thesis using nd fl(2) no by (simp add: sys_openat_def quiet_fault [OF q] f lookup_plain [OF r n] ib
        open_existing_def install_fd_def open_obj_def)
  next
    case None
    show ?thesis using no by (simp add: sys_openat_def quiet_fault [OF q] f lookup_plain [OF r n] None
        fail_with_def split: option.split)
  qed
qed

section \<open>Reading and writing a whole file\<close>

lemma quiet_write_entry:
  assumes r: "ready d c w" and f: "fds w k = Some (OFile i 0 rd True)"
    and v: "dirview w d name = Some (i, [])" and "data \<noteq> []"
  shows "\<exists>w1. write_entry (int k) data w = (0, w1) \<and>
    changed d w w1 ((dirview w d)(name \<mapsto> (i, data))) \<and>
    res w1 = res w\<lparr>rs_fds := (fds w)(k \<mapsto> OFile i (length data) rd True)\<rparr>"
proof -
  have q: "faults w = []" and flat: "flat_dir w d" using r by (simp_all add: ready_def)
  let ?w = "w\<lparr>fds := (fds w)(k \<mapsto> OFile i (length data) rd True)\<rparr>"
  let ?w1 = "set_content i (Reg data) ?w"
  have "sys_write (int k) data w = (int (length data), ?w1)"
    using f dirview_file(1) [OF v]
    by (simp add: sys_write_def quiet_fault [OF q] fd_lookup_def overwrite_def)
  then have "write_entry (int k) data w = write_entry (int k) [] ?w1"
    using assms(4) by (subst write_entry.simps) simp
  then have "write_entry (int k) data w = (0, ?w1)" by (simp add: write_entry.simps)
  moreover have "flat_dir ?w d" "dirview ?w d = dirview w d"
    using flat flat_dir_same [of ?w w d] dirview_same [of ?w w d] by simp_all
  then have "changed d ?w ?w1 ((dirview w d)(name \<mapsto> (i, data)))"
    using set_content_file [of ?w d name i "[]" data] v q by (simp add: changed_def)
  moreover have "changed d w ?w (dirview w d)"
    using changed_same [of ?w w d] q flat by simp
  ultimately show ?thesis
    by (intro exI [of _ ?w1] conjI) (assumption, rule changed_trans, assumption+, simp)
qed

text \<open>The effect of \<open>read_entry\<close> on a buffer of maximal size, for a file of any length.\<close>

lemma quiet_read:
  assumes "faults w = []" "fds w k = Some (OFile i p True wr)" "file_data w i = Some b"
  shows "sys_read (int k) len w = (int (length (take len (drop p b))), take len (drop p b),
    w\<lparr>fds := (fds w)(k \<mapsto> OFile i (p + length (take len (drop p b))) True wr)\<rparr>)"
  using assms by (simp add: sys_read_def quiet_fault fd_lookup_def Let_def)

lemma quiet_read_loop:
  assumes "faults w = []" "fds w k = Some (OFile i 0 True wr)" "file_data w i = Some b" "0 < len"
  shows "\<exists>w1 f. read_loop (int k) 0 len 0 buf w =
      (if length b < len then 0 else int len, min (length b) len, memcpy_at buf 0 (take len b), w1) \<and>
    w1 = w\<lparr>fds := (fds w)(k \<mapsto> f)\<rparr>"
proof -
  let ?w = "w\<lparr>fds := (fds w)(k \<mapsto> OFile i (length (take len b)) True wr)\<rparr>"
  note rd = quiet_read [OF assms(1-3), of len]
  show ?thesis
  proof (cases "b = []")
    case True
    then have "read_loop (int k) 0 len 0 buf w = (0, 0, buf, ?w)"
      using rd assms(4) by (subst read_loop.simps) simp
    then show ?thesis using True assms(4) by (auto simp: memcpy_at_def)
  next
    case False
    let ?n = "length (take len b)"
    from False assms(4) have "read_loop (int k) 0 len 0 buf w =
        read_loop (int k) ?n (len - ?n) (int ?n) (memcpy_at buf 0 (take len b)) ?w"
      using rd by (subst read_loop.simps) auto
    also have "\<dots> = (if length b < len then 0 else int len, min (length b) len, memcpy_at buf 0 (take len b),
        ?w)"
    proof (cases "length b < len")
      case True
      have "file_data ?w i = Some b" using assms(3) by (simp add: file_data_def)
      from quiet_read [of ?w k i ?n wr b "len - ?n"] this True assms(1)
      have "sys_read (int k) (len - ?n) ?w = (0, [], ?w)" by simp
      then show ?thesis using True by (subst read_loop.simps) simp
    next
      case False
      then show ?thesis by (subst read_loop.simps) simp
    qed
    finally show ?thesis by blast
  qed
qed

lemma cstr_memcpy_terminated:
  assumes "length data < length buf" "data \<noteq> []"
  defines "b1 \<equiv> memcpy_at buf 0 data"
  defines "b2 \<equiv> (if b1 ! (length data - 1) \<noteq> NUL then b1[length data := NUL] else b1)"
  shows "terminated b2" "cstr b2 = cstr data"
proof -
  obtain x rest where tl: "drop (length data) buf = x # rest"
    using assms(1) by (cases "drop (length data) buf") auto
  have b1: "b1 = data @ x # rest" using tl by (simp add: b1_def memcpy_at_def)
  have lst: "b1 ! (length data - 1) = last data"
    using assms(2) by (simp add: b1 nth_append last_conv_nth)
  have "terminated b2 \<and> cstr b2 = cstr data"
  proof (cases "NUL \<in> set data")
    case True
    then obtain r where r: "data = cstr data @ NUL # r" using terminated_split [of data] by (auto simp: terminated_def)
    have "\<exists>t. b2 = data @ t" using b1 lst by (auto simp: b2_def list_update_append)
    then obtain t where t: "b2 = data @ t" by blast
    then have "b2 = cstr data @ NUL # (r @ t)" using r by simp
    then show ?thesis by (metis cstr_append_NUL cstr_no_NUL in_set_conv_decomp terminated_def)
  next
    case False
    then have "last data \<noteq> NUL" using assms(2) by (metis last_in_set)
    then have "b2 = data @ NUL # rest" using lst b1 by (simp add: b2_def)
    moreover have "cstr data = data" using False by (rule cstr_id)
    ultimately show ?thesis using False by (simp add: terminated_def)
  qed
  then show "terminated b2" "cstr b2 = cstr data" by simp_all
qed

text \<open>
  A non-empty entry of at most 510 bytes is read back whole and terminated; a longer one fails
  with \<open>- EXIT_FAILURE\<close>.
\<close>

lemma quiet_read_entry:
  assumes q: "faults w = []" "fds w k = Some (OFile i 0 True wr)" "file_data w i = Some b"
    and len: "length buf = INO_CACHE_ENTRY_MAX_SIZE" and ne: "b \<noteq> []"
  shows "\<exists>w1 f buf'. read_entry (int k) buf w = (if length b \<le> 510 then 0 else - EXIT_FAILURE, buf', w1) \<and>
    w1 = w\<lparr>fds := (fds w)(k \<mapsto> f)\<rparr> \<and>
    (length b \<le> 510 \<longrightarrow> terminated buf' \<and> cstr buf' = cstr b) \<and>
    (510 < length b \<longrightarrow> buf' = memcpy_at buf 0 (take 511 b))"
proof -
  have l: "length buf = 512" using len by (simp add: INO_CACHE_ENTRY_MAX_SIZE_def)
  from quiet_read_loop [OF q, of 511 buf] obtain w1 f where rl: "read_loop (int k) 0 511 0 buf w =
      (if length b < 511 then 0 else 511, min (length b) 511, memcpy_at buf 0 (take 511 b), w1)"
    and w1: "w1 = w\<lparr>fds := (fds w)(k \<mapsto> f)\<rparr>" by auto
  show ?thesis
  proof (cases "length b \<le> 510")
    case True
    then show ?thesis
      using rl l ne w1 cstr_memcpy_terminated [of b buf]
      by (auto simp: read_entry_def Let_def)
  next
    case False
    then show ?thesis using rl l w1 by (auto simp: read_entry_def Let_def)
  qed
qed

section \<open>The name of an entry and its lock\<close>

definition entry_name :: "stat_buf \<Rightarrow> u16 \<Rightarrow> cstring" where
  "entry_name st kind = hex_string (rfc_md5 (ino_hash_bytes (ino_hash_of st kind)))"

definition lock_name :: "cstring \<Rightarrow> cstring" where
  "lock_name n = n @ ''.lock''"

lemma plain_entry_name: "plain_name (entry_name st kind)" "plain_name (lock_name (entry_name st kind))"
  "NUL \<notin> set (entry_name st kind)" "entry_name st kind \<noteq> lock_name n"
proof -
  let ?n = "entry_name st kind"
  have len: "length ?n = 32" by (simp add: entry_name_def)
  then have "?n \<noteq> []" "?n \<noteq> ''.''" "?n \<noteq> ''..''" by auto
  moreover have "CHR ''/'' \<notin> set ?n" "NUL \<notin> set ?n" "CHR ''.'' \<notin> set ?n"
    by (simp_all add: entry_name_def hex_string_not_NUL)
  ultimately show "plain_name ?n" "plain_name (lock_name ?n)" "NUL \<notin> set ?n" "?n \<noteq> lock_name n"
    by (auto simp: plain_name_def lock_name_def)
qed

text \<open>What the modification time of the file leaves in the record of undefined behaviour.\<close>

definition mtime_log :: "stat_buf \<Rightarrow> ub list" where
  "mtime_log st = (if mtime_overflows st then [Signed_overflow] else [])"

lemma quiet_hash_inode:
  assumes "faults w = []" "stat_path w path = Inr st"
  shows "hash_inode NULL path kind w = (0, next_ptr w,
    w\<lparr>heap := (heap w)(next_ptr w \<mapsto> entry_name st kind @ [NUL]), next_ptr := Suc (next_ptr w), ub_log := ub_log w @ mtime_log st\<rparr>)"
proof -
  have "sys_stat path w = (0, Some st, w)" using assms by (simp add: sys_stat_def quiet_fault)
  moreover have "cstr (MD5Digest (stack_ctx v) (ino_hash_bytes (ino_hash_of st kind))) = entry_name st kind" for v
    using hex_string_not_NUL(1) by (simp add: MD5Digest_rfc stack_ctx_def entry_name_def)
  moreover have "mtime_checked st w = w\<lparr>ub_log := ub_log w @ mtime_log st\<rparr>"
    by (simp add: mtime_checked_def mtime_log_def log_ub_def)
  ultimately show ?thesis using assms by (simp add: hash_inode_def quiet_asprintf Let_def)
qed

section \<open>Taking the lock\<close>

lemma changed_upd:
  assumes "changed d w w1 V"
  shows "changed d w (w1\<lparr>flocks := a\<rparr>) V" "changed d w (w1\<lparr>heap := b\<rparr>) V"
    "changed d w (w1\<lparr>next_ptr := e\<rparr>) V" "changed d w (w1\<lparr>errno := n\<rparr>) V"
    "changed d w (w1\<lparr>ub_log := u\<rparr>) V"
proof -
  have step: "changed d w w2 V"
    if "inodes w2 = inodes w1" "root_ino w2 = root_ino w1" "cwd_ino w2 = cwd_ino w1"
      "next_ino w2 = next_ino w1" "fd_max w2 = fd_max w1" "faults w2 = faults w1" for w2
  proof -
    have "changed d w1 w2 (dirview w1 d)"
      using that assms by (intro changed_same) (simp_all add: changed_def)
    moreover have "dirview w1 d = V" using assms by (simp add: changed_def)
    ultimately show ?thesis using changed_trans [OF assms] by blast
  qed
  show "changed d w (w1\<lparr>flocks := a\<rparr>) V" "changed d w (w1\<lparr>heap := b\<rparr>) V"
    "changed d w (w1\<lparr>next_ptr := e\<rparr>) V" "changed d w (w1\<lparr>errno := n\<rparr>) V"
    "changed d w (w1\<lparr>ub_log := u\<rparr>) V"
    by (rule step; simp)+
qed

lemma dirview_frame [simp]:
  "dirview (w\<lparr>flocks := a\<rparr>) d = dirview w d" "dirview (w\<lparr>heap := b\<rparr>) d = dirview w d"
  "dirview (w\<lparr>next_ptr := e\<rparr>) d = dirview w d" "dirview (w\<lparr>errno := n\<rparr>) d = dirview w d"
  "dirview (w\<lparr>ub_log := u\<rparr>) d = dirview w d" "dirview (w\<lparr>fds := f\<rparr>) d = dirview w d"
  by (rule dirview_same; simp)+

lemma changed_start: "ready d c w \<Longrightarrow> changed d w w (dirview w d)"
  by (simp add: changed_def ready_def)

lemma ready_alloc:
  assumes "ready d c w"
  shows "ready d c (w\<lparr>heap := (heap w)(next_ptr w \<mapsto> b), next_ptr := Suc (next_ptr w)\<rparr>)" (is "ready d c ?w")
    "ready d c (w\<lparr>heap := (heap w)(next_ptr w \<mapsto> b), next_ptr := Suc (next_ptr w), ub_log := u\<rparr>)" (is "ready d c ?v")
proof -
  have "changed d w ?w (dirview w d)" "changed d w ?v (dirview w d)" by (intro changed_upd changed_start [OF assms])+
  then show "ready d c ?w" "ready d c ?v" using assms by (auto simp: ready_def changed_def proc_ok_def heap_ok_def)
qed

lemma free_fd_same: "fds w' = fds w \<Longrightarrow> fd_max w' = fd_max w \<Longrightarrow> free_fd w' = free_fd w"
  by (simp add: free_fd_def)

lemma load_str_heap: "heap w p = Some (s @ [NUL]) \<Longrightarrow> p \<noteq> NULL \<Longrightarrow> NUL \<notin> set s \<Longrightarrow> load_str p w = (s, w)"
  by (simp add: load_str_def heap_str_def)

text \<open>The lock as the rest of an operation finds it: descriptor \<open>l\<close> open and locked.\<close>

definition locked :: "ino \<Rightarrow> world \<Rightarrow> nat \<Rightarrow> lock_kind \<Rightarrow> fd_obj \<Rightarrow> world \<Rightarrow> bool" where
  "locked d w l kd f w' \<longleftrightarrow> fds w l = None \<and> l < fd_max w \<and> fds w' = (fds w)(l \<mapsto> f) \<and>
     flocks w' = (flocks w)(l \<mapsto> kd) \<and> heap w' = heap w \<and> proc_ok w' \<and> ub_log w' = ub_log w \<and>
     stack_byte w' = stack_byte w"

lemma quiet_lock_exclusive:
  assumes r: "ready d c w" and h: "heap w p = Some (nm @ [NUL])" "p \<noteq> NULL" "NUL \<notin> set nm"
    and n: "plain_name (lock_name nm)" and rm: "room (Suc k) w"
  shows "\<exists>l i w1. inode_cache_lock (int c) p True w = (int l, w1) \<and>
    changed d w w1 ((dirview w d)(lock_name nm \<mapsto> (i, []))) \<and>
    locked d w l LOCK_EX (OFile i 0 False True) w1"
proof -
  let ?q = "next_ptr w"
  let ?a = "w\<lparr>heap := (heap w)(?q \<mapsto> lock_name nm @ [NUL]), next_ptr := Suc ?q\<rparr>"
  have q: "faults w = []" "heap w ?q = None" "?q \<noteq> NULL" "proc_ok w"
    using r by (auto simp: ready_def proc_ok_def dest: heap_okD)
  from room_free [OF rm] obtain l where l: "free_fd w = Some l" "fds w l = None" "l < fd_max w" by blast
  have ra: "ready d c ?a" by (rule ready_alloc [OF r])
  have fa: "free_fd ?a = Some l" using l by (simp add: free_fd_def)
  have dv: "dirview ?a d = dirview w d" by (rule dirview_same) simp
  have ca: "changed d w ?a (dirview w d)" by (intro changed_upd changed_start [OF r])
  from quiet_open_create [OF ra n fa] dv obtain i w2 where
    op: "sys_openat (int c) (lock_name nm) [O_WRONLY, O_TRUNC, O_CREAT] ?a = (int l, w2)"
    and ch: "changed d ?a w2 ((dirview w d)(lock_name nm \<mapsto> (i, [])))"
    and r2: "res w2 = res ?a\<lparr>rs_fds := (fds w)(l \<mapsto> OFile i 0 False True)\<rparr>" by auto
  from r2 have w2: "fds w2 = (fds w)(l \<mapsto> OFile i 0 False True)" "flocks w2 = flocks w"
    "heap w2 = (heap w)(?q \<mapsto> lock_name nm @ [NUL])" "next_ptr w2 = Suc ?q" "ub_log w2 = ub_log w"
    "stack_byte w2 = stack_byte w"
    by (auto dest: res_eqD)
  have f2: "faults w2 = []" using ch by (simp add: changed_def)
  let ?w3 = "w2\<lparr>flocks := (flocks w)(l \<mapsto> LOCK_EX), heap := heap w\<rparr>"
  have hp: "(heap w)(?q := None) = heap w" using q(2) by auto
  have "inode_cache_lock (int c) p True w = (int l, ?w3)"
    using op [unfolded lock_name_def] w2 f2 q(1,3) hp
    by (simp add: inode_cache_lock_def load_str_heap [OF h] quiet_asprintf lock_name_def
      quiet_flock inode_cache_lock_out_def c_free_def)
  moreover have "changed d w ?w3 ((dirview w d)(lock_name nm \<mapsto> (i, [])))"
    by (intro changed_upd changed_trans [OF ca ch])
  moreover have "locked d w l LOCK_EX (OFile i 0 False True) ?w3"
    using l w2 q(4) by (auto simp: locked_def proc_ok_def heap_ok_def)
  ultimately show ?thesis by blast
qed

lemma quiet_lock_shared:
  assumes r: "ready d c w" and h: "heap w p = Some (nm @ [NUL])" "p \<noteq> NULL" "NUL \<notin> set nm"
    and n: "plain_name (lock_name nm)" and rm: "room (Suc k) w"
  shows "dirview w d (lock_name nm) = Some (i, b) \<Longrightarrow>
      \<exists>l w1. inode_cache_lock (int c) p False w = (int l, w1) \<and> changed d w w1 (dirview w d) \<and>
      locked d w l LOCK_SH (OFile i 0 True False) w1"
    and "dirview w d (lock_name nm) = None \<Longrightarrow>
      \<exists>w1. inode_cache_lock (int c) p False w = (- errno_val ENOENT, w1) \<and> changed d w w1 (dirview w d) \<and>
      fds w1 = fds w \<and> flocks w1 = flocks w \<and> heap w1 = heap w \<and> ub_log w1 = ub_log w"
proof -
  let ?q = "next_ptr w"
  let ?a = "w\<lparr>heap := (heap w)(?q \<mapsto> lock_name nm @ [NUL]), next_ptr := Suc ?q\<rparr>"
  have q: "faults w = []" "heap w ?q = None" "?q \<noteq> NULL" "proc_ok w"
    using r by (auto simp: ready_def proc_ok_def dest: heap_okD)
  from room_free [OF rm] obtain l where l: "free_fd w = Some l" "fds w l = None" "l < fd_max w" by blast
  have ra: "ready d c ?a" by (rule ready_alloc [OF r])
  have fa: "free_fd ?a = Some l" using l by (simp add: free_fd_def)
  have dv: "dirview ?a d = dirview w d" by (rule dirview_same) simp
  have hp: "(heap w)(?q := None) = heap w" using q(2) by auto
  note op = quiet_open_read [OF ra n fa, of "[O_RDONLY]", unfolded dv]
  note unf = inode_cache_lock_def load_str_heap [OF h] quiet_asprintf quiet_flock
    inode_cache_lock_out_def c_free_def
  {
    assume v: "dirview w d (lock_name nm) = Some (i, b)"
    let ?w3 = "w\<lparr>next_ptr := Suc ?q, fds := (fds w)(l \<mapsto> OFile i 0 True False),
      flocks := (flocks w)(l \<mapsto> LOCK_SH)\<rparr>"
    have "sys_openat (int c) (lock_name nm) [O_RDONLY] ?a = (int l, ?a\<lparr>fds := (fds w)(l \<mapsto> OFile i 0 True False)\<rparr>)"
      using op v by simp
    then have "inode_cache_lock (int c) p False w = (int l, ?w3)"
      using q(1,3) hp by (simp add: unf lock_name_def)
    moreover have "changed d w ?w3 (dirview w d)"
      by (intro changed_upd changed_fds changed_start [OF r])
    moreover have "locked d w l LOCK_SH (OFile i 0 True False) ?w3"
      using l q(4) by (auto simp: locked_def proc_ok_def heap_ok_def)
    ultimately show "\<exists>l w1. inode_cache_lock (int c) p False w = (int l, w1) \<and> changed d w w1 (dirview w d) \<and>
      locked d w l LOCK_SH (OFile i 0 True False) w1" by blast
  next
    assume v: "dirview w d (lock_name nm) = None"
    let ?w3 = "w\<lparr>next_ptr := Suc ?q, errno := errno_val ENOENT\<rparr>"
    have "sys_openat (int c) (lock_name nm) [O_RDONLY] ?a = (-1, ?a\<lparr>errno := errno_val ENOENT\<rparr>)"
      using op v by simp
    then have "inode_cache_lock (int c) p False w = (- errno_val ENOENT, ?w3)"
      using q(1,3) hp by (simp add: unf lock_name_def)
    moreover have "changed d w ?w3 (dirview w d)"
      by (intro changed_upd changed_start [OF r])
    ultimately show "\<exists>w1. inode_cache_lock (int c) p False w = (- errno_val ENOENT, w1) \<and>
      changed d w w1 (dirview w d) \<and> fds w1 = fds w \<and> flocks w1 = flocks w \<and> heap w1 = heap w \<and> ub_log w1 = ub_log w"
      by fastforce
  }
qed

lemma locked_ready:
  assumes "ready d c w" "changed d w w1 V" "locked d w l kd f w1" "room (Suc k) w"
  shows "ready d c w1" "room k w1" "fds w1 l \<noteq> None"
proof -
  have "c \<noteq> l" using assms(1,3) by (auto simp: ready_def locked_def)
  then show "ready d c w1" using assms by (auto simp: ready_def changed_def locked_def)
  show "fds w1 l \<noteq> None" using assms(3) by (simp add: locked_def)
  show "room k w1"
    using assms(2,3) by (intro room_install [OF assms(4)]) (auto simp: locked_def changed_def)
qed

section \<open>The operations\<close>

lemma changed_free: "changed d w w1 V \<Longrightarrow> changed d w (c_free p w1) V"
  by (simp add: c_free_def log_ub_def changed_upd)

lemma changed_unlock:
  assumes "changed d w w1 V" "fds w1 l \<noteq> None"
  shows "changed d w (snd (inode_cache_unlock (int l) w1)) V"
proof -
  have "faults w1 = []" using assms(1) by (simp add: changed_def)
  then show ?thesis using assms by (simp add: quiet_unlock changed_fds changed_upd)
qed

lemma quiet_put_locked:
  assumes r: "ready d c w" and h: "heap w p = Some (nm @ [NUL])" "p \<noteq> NULL" "NUL \<notin> set nm"
    and n: "plain_name nm" and rm: "room (Suc k) w" and l: "fds w l \<noteq> None"
    and c: "ic_dirfd cache = int c"
  shows "\<exists>i w'. put_locked cache p (int l) v w = (0, w') \<and>
    changed d w w' ((dirview w d)(nm \<mapsto> (i, v @ [NUL])))"
proof -
  from room_free [OF rm] obtain e where e: "free_fd w = Some e" "fds w e = None" "e < fd_max w" by blast
  have el: "e \<noteq> l" "e \<noteq> c" using e(2) l r by (auto simp: ready_def)
  from quiet_open_create [OF r n e(1)] obtain i w2 where
    op: "sys_openat (int c) nm [O_WRONLY, O_TRUNC, O_CREAT] w = (int e, w2)"
    and ch: "changed d w w2 ((dirview w d)(nm \<mapsto> (i, [])))"
    and r2: "res w2 = res w\<lparr>rs_fds := (fds w)(e \<mapsto> OFile i 0 False True)\<rparr>" by auto
  from r2 have w2: "fds w2 = (fds w)(e \<mapsto> OFile i 0 False True)" "flocks w2 = flocks w"
    "heap w2 = heap w" "next_ptr w2 = next_ptr w" by (auto dest: res_eqD)
  have "ready d c w2" using r ch w2 el by (auto simp: ready_def changed_def proc_ok_def heap_ok_def)
  moreover have "fds w2 e = Some (OFile i 0 False True)" "dirview w2 d nm = Some (i, [])"
    using w2 ch by (simp_all add: changed_def)
  ultimately obtain w3 where wr: "write_entry (int e) (v @ [NUL]) w2 = (0, w3)"
    and ch3: "changed d w2 w3 ((dirview w2 d)(nm \<mapsto> (i, v @ [NUL])))"
    and r3: "res w3 = res w2\<lparr>rs_fds := (fds w2)(e \<mapsto> OFile i (length (v @ [NUL])) False True)\<rparr>"
    using quiet_write_entry [of d c w2 e i False nm "v @ [NUL]"] by blast
  have ch4: "changed d w w3 ((dirview w d)(nm \<mapsto> (i, v @ [NUL])))"
    using changed_trans [OF ch ch3] ch by (simp add: changed_def)
  have w3: "fds w3 e \<noteq> None" "fds w3 l \<noteq> None" "faults w3 = []"
    using r3 w2 l el ch4 by (auto dest: res_eqD(1) simp: changed_def)
  let ?w4 = "w3\<lparr>fds := (fds w3)(e := None), flocks := (flocks w3)(e := None)\<rparr>"
  have cl: "sys_close (int e) w3 = (0, ?w4)" using w3 by (intro quiet_close)
  have ch5: "changed d w ?w4 ((dirview w d)(nm \<mapsto> (i, v @ [NUL])))"
    using ch4 by (intro changed_upd changed_fds)
  have "fds ?w4 l \<noteq> None" using w3 el by simp
  with changed_free [OF changed_unlock [OF ch5]]
  have "changed d w (c_free p (snd (inode_cache_unlock (int l) ?w4))) ((dirview w d)(nm \<mapsto> (i, v @ [NUL])))"
    by simp
  then show ?thesis
    using w3 by (intro exI) (simp add: put_locked_def load_str_heap [OF h] c op wr quiet_fsync cl put_out_def Let_def)
qed

lemma quiet_put:
  fixes kind :: u16
  assumes r: "ready d c w" and st: "stat_path w path = Inr st" and rm: "room 2 w"
    and c: "ic_dirfd cache = int c" and v: "length v < INO_CACHE_ENTRY_MAX_SIZE"
  shows "\<exists>i j w'. inode_cache_put (Some cache) (Some path) kind (Some v) w = (0, w') \<and>
    changed d w w' ((dirview w d)(lock_name (entry_name st kind) \<mapsto> (j, []), entry_name st kind \<mapsto> (i, v @ [NUL]))) \<and>
    fds w' = fds w \<and> flocks w' = flocks w \<and> heap w' = heap w \<and> ready d c w'"
proof -
  define nm where "nm = entry_name st kind"
  let ?p = "next_ptr w"
  let ?a = "w\<lparr>heap := (heap w)(?p \<mapsto> nm @ [NUL]), next_ptr := Suc ?p, ub_log := ub_log w @ mtime_log st\<rparr>"
  have q: "faults w = []" "?p \<noteq> NULL" "proc_ok w"
    using r by (auto simp: ready_def proc_ok_def dest: heap_okD)
  note names = plain_entry_name [of st kind, folded nm_def]
  have hs: "hash_inode NULL path kind w = (0, ?p, ?a)" unfolding nm_def by (rule quiet_hash_inode [OF q(1) st])
  have ra: "ready d c ?a" by (rule ready_alloc [OF r])
  have rm_a: "room (Suc (Suc 0)) ?a" using rm by (simp add: room_def numeral_2_eq_2)
  have ca: "changed d w ?a (dirview w d)" by (intro changed_upd changed_start [OF r])
  have hp: "heap ?a ?p = Some (nm @ [NUL])" by simp
  from quiet_lock_exclusive [OF ra hp q(2) names(3,2) rm_a] obtain l j w1 where
    lk: "inode_cache_lock (int c) ?p True ?a = (int l, w1)"
    and c1: "changed d ?a w1 ((dirview w d)(lock_name nm \<mapsto> (j, [])))"
    and l1: "locked d ?a l LOCK_EX (OFile j 0 False True) w1" by auto
  note r1 = locked_ready [OF ra c1 l1 rm_a]
  have hp1: "heap w1 ?p = Some (nm @ [NUL])" using l1 by (simp add: locked_def)
  from quiet_put_locked [OF r1(1) hp1 q(2) names(3,1) r1(2,3) c] obtain i w' where
    pl: "put_locked cache ?p (int l) v w1 = (0, w')"
    and c2: "changed d w1 w' ((dirview w1 d)(nm \<mapsto> (i, v @ [NUL])))" by blast
  have put: "inode_cache_put (Some cache) (Some path) kind (Some v) w = (0, w')"
    using v by (simp add: inode_cache_put_def hs c lk pl)
  have "changed d w w' ((dirview w d)(lock_name nm \<mapsto> (j, []), nm \<mapsto> (i, v @ [NUL])))"
    using changed_trans [OF changed_trans [OF ca c1] c2] c1 by (simp add: changed_def)
  moreover from owns_put [OF owns_start [OF q(3)] put] obtain us where "owns w {} {} us w'" by blast
  ultimately show ?thesis unfolding nm_def [symmetric] using put owns_end [of w us w'] r by (auto simp: ready_def changed_def)
qed

lemma quiet_del:
  fixes kind :: u16
  assumes r: "ready d c w" and st: "stat_path w path = Inr st" and rm: "room 1 w"
    and c: "ic_dirfd cache = int c"
  shows "\<exists>j w'. inode_cache_del cache path kind w = (0, w') \<and>
    changed d w w' ((dirview w d)(lock_name (entry_name st kind) \<mapsto> (j, []), entry_name st kind := None)) \<and>
    fds w' = fds w \<and> flocks w' = flocks w \<and> heap w' = heap w \<and> ready d c w'"
proof -
  define nm where "nm = entry_name st kind"
  let ?p = "next_ptr w"
  let ?a = "w\<lparr>heap := (heap w)(?p \<mapsto> nm @ [NUL]), next_ptr := Suc ?p, ub_log := ub_log w @ mtime_log st\<rparr>"
  have q: "faults w = []" "?p \<noteq> NULL" "proc_ok w"
    using r by (auto simp: ready_def proc_ok_def dest: heap_okD)
  note names = plain_entry_name [of st kind, folded nm_def]
  have hs: "hash_inode NULL path kind w = (0, ?p, ?a)" unfolding nm_def by (rule quiet_hash_inode [OF q(1) st])
  have ra: "ready d c ?a" by (rule ready_alloc [OF r])
  have rm_a: "room (Suc 0) ?a" using rm by (simp add: room_def)
  have ca: "changed d w ?a (dirview w d)" by (intro changed_upd changed_start [OF r])
  have hp: "heap ?a ?p = Some (nm @ [NUL])" by simp
  from quiet_lock_exclusive [OF ra hp q(2) names(3,2) rm_a] obtain l j w1 where
    lk: "inode_cache_lock (int c) ?p True ?a = (int l, w1)"
    and c1: "changed d ?a w1 ((dirview w d)(lock_name nm \<mapsto> (j, [])))"
    and l1: "locked d ?a l LOCK_EX (OFile j 0 False True) w1" by auto
  note r1 = locked_ready [OF ra c1 l1 rm_a]
  have f1: "faults w1 = []" "flat_dir w1 d" using c1 by (simp_all add: changed_def)
  have ls: "load_str ?p w1 = (nm, w1)"
    using l1 q(2) names(3) by (intro load_str_heap) (simp_all add: locked_def)
  obtain w2 where ul: "\<exists>r. sys_unlinkat (int c) nm w1 = (r, w2) \<and> (r = 0 \<or> r = -1 \<and> errno w2 = errno_val ENOENT)"
    and c2: "changed d w1 w2 ((dirview w1 d)(nm := None))" and l2: "fds w2 l \<noteq> None"
  proof (cases "dirview w1 d nm")
    case None
    let ?w2 = "w1\<lparr>errno := errno_val ENOENT\<rparr>"
    have "sys_unlinkat (int c) nm w1 = (-1, ?w2)"
      by (simp add: sys_unlinkat_def quiet_fault [OF f1(1)] lookup_plain [OF r1(1) names(1)] None fail_with_def)
    moreover have "(dirview w1 d)(nm := None) = dirview w1 d" using None by auto
    ultimately show ?thesis
      using that [of ?w2] changed_upd(4) [OF changed_start [OF r1(1)]] r1(3) by simp
  next
    case (Some x)
    then obtain i b where ib: "dirview w1 d nm = Some (i, b)" by (cases x) auto
    let ?w2 = "set_entry d nm None w1"
    have "sys_unlinkat (int c) nm w1 = (0, ?w2)"
      by (simp add: sys_unlinkat_def quiet_fault [OF f1(1)] lookup_plain [OF r1(1) names(1)] ib
        dirview_file(1) [OF ib])
    moreover have "fds ?w2 = fds w1" "faults ?w2 = faults w1" "fd_max ?w2 = fd_max w1"
      by (simp_all add: set_entry_def split: option.split content.split)
    ultimately show ?thesis
      using that [of ?w2] unlink_file [OF f1(2), of nm] ib r1(3) f1 by (simp add: changed_def)
  qed
  let ?w' = "c_free ?p (snd (inode_cache_unlock (int l) w2))"
  have del: "inode_cache_del cache path kind w = (0, ?w')"
    using ul by (auto simp: inode_cache_del_def hs c lk ls del_out_def Let_def)
  have "changed d w2 ?w' (dirview w2 d)"
    using c2 l2 by (intro changed_free changed_unlock) (simp_all add: changed_def)
  then have "changed d w ?w' ((dirview w d)(lock_name nm \<mapsto> (j, []), nm := None))"
    using changed_trans [OF changed_trans [OF changed_trans [OF ca c1] c2]] c1 c2 by (simp add: changed_def)
  moreover from owns_del [OF owns_start [OF q(3)] del] obtain us where "owns w {} {} us ?w'" by blast
  ultimately show ?thesis unfolding nm_def [symmetric] using del owns_end [of w us ?w'] r by (auto simp: ready_def changed_def)
qed


text \<open>The clean-up of \<open>inode_cache_get\<close>, with both descriptors open.\<close>

lemma quiet_get_out:
  assumes "changed d w w1 V" "fds w1 l \<noteq> None" "fd < 0 \<or> (\<exists>e. fd = int e \<and> e \<noteq> l \<and> fds w1 e \<noteq> None)"
  shows "\<exists>w'. get_out err fd (int l) p r w1 = (err, r, w') \<and> changed d w w' V \<and>
    ub_log w' = ub_log (c_free p w1) \<and> heap w' = heap (c_free p w1)"
proof -
  let ?w2 = "if 0 \<le> fd then snd (sys_close fd w1) else w1"
  have q: "faults w1 = []" using assms(1) by (simp add: changed_def)
  have 2: "changed d w ?w2 V \<and> fds ?w2 l \<noteq> None \<and> ub_log ?w2 = ub_log w1 \<and> heap ?w2 = heap w1"
    using assms quiet_close [OF q] by (auto intro!: changed_upd changed_fds)
  let ?w3 = "snd (inode_cache_unlock (int l) ?w2)"
  have 3: "changed d w ?w3 V" using 2 changed_unlock by blast
  have "faults ?w2 = []" using 2 by (simp add: changed_def)
  then have 4: "ub_log ?w3 = ub_log w1 \<and> heap ?w3 = heap w1" using 2 by (simp add: quiet_unlock)
  have "get_out err fd (int l) p r w1 = (err, r, c_free p ?w3)" by (simp add: get_out_def Let_def)
  moreover have "changed d w (c_free p ?w3) V" using 3 by (rule changed_free)
  moreover have "ub_log (c_free p ?w3) = ub_log (c_free p w1)" "heap (c_free p ?w3) = heap (c_free p w1)"
    using 4 by (auto simp: c_free_def log_ub_def)
  ultimately show ?thesis by blast
qed

lemma quiet_get_locked:
  assumes r: "ready d c w" and h: "heap w p = Some (nm @ [NUL])" "p \<noteq> NULL" "NUL \<notin> set nm"
    and n: "plain_name nm" and rm: "room (Suc k) w" and l: "fds w l \<noteq> None"
    and c: "ic_dirfd cache = int c"
  shows "dirview w d nm = None \<Longrightarrow>
      \<exists>w'. get_locked cache p (int l) out w = (- errno_val ENOENT, out, w') \<and>
        changed d w w' (dirview w d) \<and> ub_log w' = ub_log w"
    and "dirview w d nm = Some (i, b) \<Longrightarrow> b \<noteq> [] \<Longrightarrow>
      \<exists>q w'. get_locked cache p (int l) out w = (if length b \<le> 510 then 0 else - EXIT_FAILURE, Some q, w') \<and>
        changed d w w' (dirview w d) \<and> q \<noteq> NULL \<and> heap w q = None \<and>
        (length b \<le> 510 \<longrightarrow> heap w' q = Some (cstr b @ [NUL]) \<and> ub_log w' = ub_log w)"
proof -
  from room_free [OF rm] obtain e where e: "free_fd w = Some e" "fds w e = None" "e < fd_max w" by blast
  have el: "e \<noteq> l" "e \<noteq> c" using e(2) l r by (auto simp: ready_def)
  have q: "faults w = []" "heap w (next_ptr w) = None" "next_ptr w \<noteq> NULL"
    using r by (auto simp: ready_def proc_ok_def dest: heap_okD)
  note op = quiet_open_read [OF r n e(1), of "[O_RDONLY, O_NOFOLLOW]"]
  note unf = get_locked_def load_str_heap [OF h] c
  {
    assume v: "dirview w d nm = None"
    let ?w1 = "w\<lparr>errno := errno_val ENOENT\<rparr>"
    have o: "sys_openat (int c) nm [O_RDONLY, O_NOFOLLOW] w = (-1, ?w1)" using op v by simp
    have "changed d w ?w1 (dirview w d)" by (intro changed_upd changed_start [OF r])
    from quiet_get_out [OF this, of l "-1" "- errno_val ENOENT" p out] l h(1,2)
    show "\<exists>w'. get_locked cache p (int l) out w = (- errno_val ENOENT, out, w') \<and>
        changed d w w' (dirview w d) \<and> ub_log w' = ub_log w"
      using o by (auto simp: unf c_free_def)
  next
    assume v: "dirview w d nm = Some (i, b)" and ne: "b \<noteq> []"
    let ?w1 = "w\<lparr>fds := (fds w)(e \<mapsto> OFile i 0 True False)\<rparr>"
    have o: "sys_openat (int c) nm [O_RDONLY, O_NOFOLLOW] w = (int e, ?w1)" using op v by simp
    let ?buf = "map (stack_byte ?w1) [0..<INO_CACHE_ENTRY_MAX_SIZE]"
    have fdata: "file_data ?w1 i = Some b" using dirview_file(1) [OF v] by (simp add: file_data_def)
    from quiet_read_entry [of ?w1 e i False b ?buf] q(1) fdata ne obtain w2 f buf' where
      rd: "read_entry (int e) ?buf ?w1 = (if length b \<le> 510 then 0 else - EXIT_FAILURE, buf', w2)"
      and w2: "w2 = ?w1\<lparr>fds := (fds ?w1)(e \<mapsto> f)\<rparr>"
      and ok: "length b \<le> 510 \<longrightarrow> terminated buf' \<and> cstr buf' = cstr b" by auto
    define w3 where "w3 = (if terminated buf' then w2 else log_ub Unterminated_string w2)"
    let ?q = "next_ptr w"
    let ?w4 = "w3\<lparr>heap := (heap w)(?q \<mapsto> cstr buf' @ [NUL]), next_ptr := Suc ?q\<rparr>"
    have w3: "faults w3 = []" "next_ptr w3 = next_ptr w" "heap w3 = heap w"
      "fds w3 = (fds w)(e \<mapsto> f)" "terminated buf' \<Longrightarrow> ub_log w3 = ub_log w"
      using q(1) by (simp_all add: w3_def w2 log_ub_def)
    have sd: "c_strdup buf' w2 = (?q, ?w4)"
      using w3 by (simp add: c_strdup_def Let_def quiet_fault alloc_def flip: w3_def)
    have "changed d w w3 (dirview w d)"
      using r by (auto simp: w3_def w2 log_ub_def intro!: changed_upd changed_fds changed_start)
    then have ch: "changed d w ?w4 (dirview w d)" by (intro changed_upd)
    have f4: "fds ?w4 l \<noteq> None" "\<exists>e'. int e = int e' \<and> e' \<noteq> l \<and> fds ?w4 e' \<noteq> None"
      using l el by (simp_all add: w3)
    have pq: "p \<noteq> ?q" using h(1) q(2) by auto
    from quiet_get_out [OF ch f4(1) disjI2 [OF f4(2)], of "if length b \<le> 510 then 0 else - EXIT_FAILURE" p "Some ?q"]
    obtain w' where go: "get_out (if length b \<le> 510 then 0 else - EXIT_FAILURE) (int e) (int l) p (Some ?q) ?w4 =
        (if length b \<le> 510 then 0 else - EXIT_FAILURE, Some ?q, w')" "changed d w w' (dirview w d)"
      and fin: "ub_log w' = ub_log (c_free p ?w4)" "heap w' = heap (c_free p ?w4)" by blast
    have gl: "get_locked cache p (int l) out w = (if length b \<le> 510 then 0 else - EXIT_FAILURE, Some ?q, w')"
      using o rd sd q(3) go(1) by (simp add: unf)
    have cf: "c_free p ?w4 = ?w4\<lparr>heap := (heap ?w4)(p := None)\<rparr>" using h(1,2) pq by (simp add: c_free_def)
    have "length b \<le> 510 \<Longrightarrow> heap w' ?q = Some (cstr b @ [NUL]) \<and> ub_log w' = ub_log w"
      using fin [unfolded cf] ok w3 pq by simp
    with gl go(2) q show "\<exists>q w'. get_locked cache p (int l) out w =
        (if length b \<le> 510 then 0 else - EXIT_FAILURE, Some q, w') \<and>
        changed d w w' (dirview w d) \<and> q \<noteq> NULL \<and> heap w q = None \<and>
        (length b \<le> 510 \<longrightarrow> heap w' q = Some (cstr b @ [NUL]) \<and> ub_log w' = ub_log w)" by blast
  }
qed


text \<open>The effect of \<open>inode_cache_get\<close> on the rest of the process, from the ownership lemmas.\<close>

lemma get_frame:
  assumes r: "ready d c w" and g: "inode_cache_get cache path kind out w = (err, out', w')"
    and ch: "changed d w w' V"
  shows "fds w' = fds w" "flocks w' = flocks w" "ready d c w'"
proof -
  have "proc_ok w" using r by (simp add: ready_def)
  from owns_get [OF owns_start [OF this] g] obtain us where
    ow: "owns w {} {} us w' \<or> (\<exists>q. owns w {} {q} us w')" by blast
  then show f: "fds w' = fds w" "flocks w' = flocks w" by (auto simp: owns_def)
  have "proc_ok w'" using ow by (auto simp: owns_def proc_ok_def)
  then show "ready d c w'" using r ch f by (simp add: ready_def changed_def)
qed

lemma quiet_get_nolock:
  assumes r: "ready d c w" and st: "stat_path w path = Inr st" and rm: "room 1 w"
    and c: "ic_dirfd cache = int c" and v: "dirview w d (lock_name (entry_name st kind)) = None"
  shows "\<exists>w'. inode_cache_get cache path kind (Some out) w = (- errno_val ENOENT, Some out, w') \<and>
    changed d w w' (dirview w d) \<and> ub_log w' = ub_log w @ mtime_log st"
proof -
  define nm where "nm = entry_name st kind"
  let ?p = "next_ptr w"
  let ?a = "w\<lparr>heap := (heap w)(?p \<mapsto> nm @ [NUL]), next_ptr := Suc ?p, ub_log := ub_log w @ mtime_log st\<rparr>"
  have q: "faults w = []" "?p \<noteq> NULL" using r by (auto simp: ready_def proc_ok_def dest: heap_okD)
  note names = plain_entry_name [of st kind, folded nm_def]
  have hs: "hash_inode NULL path kind w = (0, ?p, ?a)" unfolding nm_def by (rule quiet_hash_inode [OF q(1) st])
  have ra: "ready d c ?a" by (rule ready_alloc [OF r])
  have rm_a: "room (Suc 0) ?a" using rm by (simp add: room_def)
  have ca: "changed d w ?a (dirview w d)" by (intro changed_upd changed_start [OF r])
  have hp: "heap ?a ?p = Some (nm @ [NUL])" by simp
  from quiet_lock_shared(2) [OF ra hp q(2) names(3,2) rm_a] v obtain w1 where
    lk: "inode_cache_lock (int c) ?p False ?a = (- errno_val ENOENT, w1)"
    and c1: "changed d ?a w1 (dirview w d)" and u1: "ub_log w1 = ub_log w @ mtime_log st" "heap w1 = heap ?a"
    by (auto simp: nm_def)
  show ?thesis
    using changed_upd(2) [OF changed_trans [OF ca c1]] u1 q(2)
    by (auto simp: inode_cache_get_def hs c lk get_out_def c_free_def)
qed


lemma quiet_get_lock:
  assumes r: "ready d c w" and st: "stat_path w path = Inr st" and rm: "room 2 w"
    and c: "ic_dirfd cache = int c" and v: "dirview w d (lock_name (entry_name st kind)) = Some lb"
  shows "\<exists>p l w1. inode_cache_get cache path kind (Some out) w = get_locked cache p (int l) (Some out) w1 \<and>
    changed d w w1 (dirview w d) \<and> ready d c w1 \<and> room 1 w1 \<and> fds w1 l \<noteq> None \<and> p \<noteq> NULL \<and>
    heap w1 p = Some (entry_name st kind @ [NUL]) \<and> ub_log w1 = ub_log w @ mtime_log st \<and>
    (\<forall>q. heap w1 q = None \<longrightarrow> heap w q = None)"
proof -
  define nm where "nm = entry_name st kind"
  let ?p = "next_ptr w"
  let ?a = "w\<lparr>heap := (heap w)(?p \<mapsto> nm @ [NUL]), next_ptr := Suc ?p, ub_log := ub_log w @ mtime_log st\<rparr>"
  obtain j bj where lb: "lb = (j, bj)" by (cases lb)
  have q: "faults w = []" "?p \<noteq> NULL" using r by (auto simp: ready_def proc_ok_def dest: heap_okD)
  note names = plain_entry_name [of st kind, folded nm_def]
  have hs: "hash_inode NULL path kind w = (0, ?p, ?a)" unfolding nm_def by (rule quiet_hash_inode [OF q(1) st])
  have ra: "ready d c ?a" by (rule ready_alloc [OF r])
  have rm_a: "room (Suc (Suc 0)) ?a" using rm by (simp add: room_def numeral_2_eq_2)
  have ca: "changed d w ?a (dirview w d)" by (intro changed_upd changed_start [OF r])
  have hp: "heap ?a ?p = Some (nm @ [NUL])" by simp
  have va: "dirview ?a d (lock_name nm) = Some (j, bj)" using v by (simp add: nm_def lb)
  from quiet_lock_shared(1) [OF ra hp q(2) names(3,2) rm_a va] obtain l w1 where
    lk: "inode_cache_lock (int c) ?p False ?a = (int l, w1)"
    and c1: "changed d ?a w1 (dirview w d)" and l1: "locked d ?a l LOCK_SH (OFile j 0 True False) w1"
    by auto
  note r1 = locked_ready [OF ra c1 l1 rm_a]
  have "inode_cache_get cache path kind (Some out) w = get_locked cache ?p (int l) (Some out) w1"
    by (simp add: inode_cache_get_def hs c lk)
  moreover have "heap w1 ?p = Some (nm @ [NUL])" "ub_log w1 = ub_log w @ mtime_log st" "\<forall>q. heap w1 q = None \<longrightarrow> heap w q = None"
    using l1 by (auto simp: locked_def split: if_splits)
  ultimately show ?thesis using changed_trans [OF ca c1] r1 q(2)
    by (metis One_nat_def nm_def)
qed

lemma quiet_get_missing:
  assumes r: "ready d c w" and st: "stat_path w path = Inr st" and rm: "room 2 w"
    and c: "ic_dirfd cache = int c" and v: "dirview w d (entry_name st kind) = None"
  shows "\<exists>w'. inode_cache_get cache path kind (Some out) w = (- errno_val ENOENT, Some out, w') \<and>
    changed d w w' (dirview w d) \<and> ub_log w' = ub_log w @ mtime_log st"
proof (cases "dirview w d (lock_name (entry_name st kind))")
  case None
  have "room 1 w" using rm by (simp add: room_def)
  from quiet_get_nolock [OF r st this c None] show ?thesis .
next
  case (Some lb)
  from quiet_get_lock [OF r st rm c Some, of out] obtain p l w1 where
    g: "inode_cache_get cache path kind (Some out) w = get_locked cache p (int l) (Some out) w1"
    and ch: "changed d w w1 (dirview w d)" and r1: "ready d c w1" "room (Suc 0) w1" "fds w1 l \<noteq> None"
      "p \<noteq> NULL" "heap w1 p = Some (entry_name st kind @ [NUL])" "ub_log w1 = ub_log w @ mtime_log st" by auto
  have v1: "dirview w1 d = dirview w d" using ch by (simp add: changed_def)
  from quiet_get_locked(1) [OF r1(1,5,4) plain_entry_name(3,1) r1(2,3) c, of "Some out"] v v1 g r1(6)
    changed_trans [OF ch] show ?thesis by fastforce
qed

lemma quiet_get_found:
  assumes r: "ready d c w" and st: "stat_path w path = Inr st" and rm: "room 2 w"
    and c: "ic_dirfd cache = int c" and vl: "dirview w d (lock_name (entry_name st kind)) = Some lb"
    and v: "dirview w d (entry_name st kind) = Some (i, b)" "b \<noteq> []"
  shows "\<exists>q w'. inode_cache_get cache path kind (Some out) w =
      (if length b \<le> 510 then 0 else - EXIT_FAILURE, Some q, w') \<and>
    changed d w w' (dirview w d) \<and> ready d c w' \<and> fds w' = fds w \<and> flocks w' = flocks w \<and>
    (length b \<le> 510 \<longrightarrow> q \<noteq> NULL \<and> heap w q = None \<and> heap w' = (heap w)(q \<mapsto> cstr b @ [NUL]) \<and>
      ub_log w' = ub_log w @ mtime_log st)"
proof -
  from quiet_get_lock [OF r st rm c vl, of out] obtain p l w1 where
    g: "inode_cache_get cache path kind (Some out) w = get_locked cache p (int l) (Some out) w1"
    and ch: "changed d w w1 (dirview w d)" and r1: "ready d c w1" "room (Suc 0) w1" "fds w1 l \<noteq> None"
      "p \<noteq> NULL" "heap w1 p = Some (entry_name st kind @ [NUL])" "ub_log w1 = ub_log w @ mtime_log st"
    and hp: "\<And>q. heap w1 q = None \<Longrightarrow> heap w q = None" by auto
  have "dirview w1 d = dirview w d" using ch by (simp add: changed_def)
  then have v1: "dirview w1 d (entry_name st kind) = Some (i, b)" using v by simp
  from quiet_get_locked(2) [OF r1(1,5,4) plain_entry_name(3,1) r1(2,3) c v1 v(2), of "Some out"] obtain q w'
    where gl: "inode_cache_get cache path kind (Some out) w =
        (if length b \<le> 510 then 0 else - EXIT_FAILURE, Some q, w')"
      and c2: "changed d w1 w' (dirview w1 d)" and q: "q \<noteq> NULL" "heap w1 q = None"
      and s: "length b \<le> 510 \<longrightarrow> heap w' q = Some (cstr b @ [NUL]) \<and> ub_log w' = ub_log w1"
    unfolding g by blast
  have c3: "changed d w w' (dirview w d)"
    using changed_trans [OF ch c2] ch by (simp add: changed_def)
  have "proc_ok w" using r by (simp add: ready_def)
  from owns_get [OF owns_start [OF this] gl] obtain us where
    ow: "owns w {} {} us w' \<or> owns w {} {q} us w'" by blast
  have hq: "heap w q = None" by (rule hp [OF q(2)])
  have "heap w' = (heap w)(q \<mapsto> cstr b @ [NUL])" if "length b \<le> 510"
  proof (rule ext)
    fix x
    show "heap w' x = ((heap w)(q \<mapsto> cstr b @ [NUL])) x"
      using ow s that by (cases "x = q") (auto simp: owns_def)
  qed
  with gl c3 get_frame [OF r gl c3] q(1) hq s r1(6) show ?thesis by auto
qed

end
