(* ===== verification/Inode_Cache_Contract.thy ===== *)
theory Inode_Cache_Contract
  imports Inode_Cache_Function
begin

text \<open>
  The contract of the cache towards its clients: on a system without faults it is a map from
  the names of the entries to strings, whatever sequence of operations is run on it. The
  interface is the locale \<open>kv_store\<close>; the interpretation is the code's model.
\<close>

section \<open>The interface\<close>

datatype ('k, 'v) cmd = Put 'k 'v | Del 'k | Get 'k

primrec cmd_key :: "('k, 'v) cmd \<Rightarrow> 'k" where
  "cmd_key (Put k v) = k"
| "cmd_key (Del k) = k"
| "cmd_key (Get k) = k"

text \<open>A client that issues commands and records the result code and the value it got.\<close>

fun run_cmds ::
  "('k \<Rightarrow> 'v \<Rightarrow> 's \<Rightarrow> int \<times> 's) \<Rightarrow> ('k \<Rightarrow> 's \<Rightarrow> int \<times> 's) \<Rightarrow> ('k \<Rightarrow> 's \<Rightarrow> int \<times> 'v option \<times> 's) \<Rightarrow>
   ('k, 'v) cmd list \<Rightarrow> 's \<Rightarrow> (int \<times> 'v option) list \<times> 's" where
  "run_cmds put del get [] s = ([], s)"
| "run_cmds put del get (Put k v # cs) s =
    (case put k v s of (e, s) \<Rightarrow> case run_cmds put del get cs s of (rs, s) \<Rightarrow> ((e, None) # rs, s))"
| "run_cmds put del get (Del k # cs) s =
    (case del k s of (e, s) \<Rightarrow> case run_cmds put del get cs s of (rs, s) \<Rightarrow> ((e, None) # rs, s))"
| "run_cmds put del get (Get k # cs) s =
    (case get k s of (e, r, s) \<Rightarrow> case run_cmds put del get cs s of (rs, s) \<Rightarrow> ((e, r) # rs, s))"

text \<open>The same commands on a map from names to values.\<close>

fun map_run :: "('k \<Rightarrow> 'n) \<Rightarrow> ('k, 'v) cmd list \<Rightarrow> ('n \<rightharpoonup> 'v) \<Rightarrow> (int \<times> 'v option) list \<times> ('n \<rightharpoonup> 'v)" where
  "map_run name [] m = ([], m)"
| "map_run name (Put k v # cs) m =
    (case map_run name cs (m(name k \<mapsto> v)) of (rs, m) \<Rightarrow> ((0, None) # rs, m))"
| "map_run name (Del k # cs) m =
    (case map_run name cs (m(name k := None)) of (rs, m) \<Rightarrow> ((0, None) # rs, m))"
| "map_run name (Get k # cs) m =
    (case map_run name cs m of (rs, m') \<Rightarrow>
      ((case m (name k) of None \<Rightarrow> - errno_val ENOENT | Some _ \<Rightarrow> 0, m (name k)) # rs, m'))"

locale kv_store =
  fixes inv :: "'s \<Rightarrow> bool"
    and abs :: "'s \<Rightarrow> 'n \<rightharpoonup> 'v"
    and names :: "'s \<Rightarrow> 'k \<Rightarrow> 'n \<Rightarrow> bool"
    and fits :: "'v \<Rightarrow> bool"
    and put :: "'k \<Rightarrow> 'v \<Rightarrow> 's \<Rightarrow> int \<times> 's"
    and del :: "'k \<Rightarrow> 's \<Rightarrow> int \<times> 's"
    and get :: "'k \<Rightarrow> 's \<Rightarrow> int \<times> 'v option \<times> 's"
  assumes put_law: "inv s \<Longrightarrow> names s k n \<Longrightarrow> fits v \<Longrightarrow>
      \<exists>s'. put k v s = (0, s') \<and> inv s' \<and> abs s' = (abs s)(n \<mapsto> v) \<and> (\<forall>k n. names s k n \<longrightarrow> names s' k n)"
    and del_law: "inv s \<Longrightarrow> names s k n \<Longrightarrow>
      \<exists>s'. del k s = (0, s') \<and> inv s' \<and> abs s' = (abs s)(n := None) \<and> (\<forall>k n. names s k n \<longrightarrow> names s' k n)"
    and get_law: "inv s \<Longrightarrow> names s k n \<Longrightarrow>
      \<exists>s'. get k s = (case abs s n of None \<Rightarrow> - errno_val ENOENT | Some _ \<Rightarrow> 0, abs s n, s') \<and>
        inv s' \<and> abs s' = abs s \<and> (\<forall>k n. names s k n \<longrightarrow> names s' k n)"
begin

definition cmd_ok :: "'s \<Rightarrow> ('k \<Rightarrow> 'n) \<Rightarrow> ('k, 'v) cmd \<Rightarrow> bool" where
  "cmd_ok s name c \<longleftrightarrow> names s (cmd_key c) (name (cmd_key c)) \<and> (\<forall>k v. c = Put k v \<longrightarrow> fits v)"

lemma cmd_ok_mono: "cmd_ok s name c \<Longrightarrow> \<forall>k n. names s k n \<longrightarrow> names s' k n \<Longrightarrow> cmd_ok s' name c"
  by (auto simp: cmd_ok_def)

lemma run_refines:
  assumes "inv s" "list_all (cmd_ok s name) cs"
  shows "\<exists>s'. run_cmds put del get cs s = (fst (map_run name cs (abs s)), s') \<and>
    inv s' \<and> abs s' = snd (map_run name cs (abs s)) \<and> (\<forall>k n. names s k n \<longrightarrow> names s' k n)"
  using assms
proof (induction cs arbitrary: s)
  case Nil
  then show ?case by simp
next
  case (Cons c cs)
  have rest: "inv s' \<Longrightarrow> \<forall>k n. names s k n \<longrightarrow> names s' k n \<Longrightarrow>
      \<exists>s''. run_cmds put del get cs s' = (fst (map_run name cs (abs s')), s'') \<and> inv s'' \<and>
        abs s'' = snd (map_run name cs (abs s')) \<and> (\<forall>k n. names s k n \<longrightarrow> names s'' k n)" for s'
    using Cons.IH [of s'] Cons.prems(2) by (fastforce simp: list_all_iff intro: cmd_ok_mono)
  show ?case
  proof (cases c)
    case (Put k v)
    with Cons.prems put_law [of s k "name k" v] obtain s' where
      p: "put k v s = (0, s')" "inv s'" "abs s' = (abs s)(name k \<mapsto> v)" "\<forall>k n. names s k n \<longrightarrow> names s' k n"
      by (auto simp: cmd_ok_def)
    then show ?thesis using rest [OF p(2,4)] by (auto simp: Put split: prod.splits)
  next
    case (Del k)
    with Cons.prems del_law [of s k "name k"] obtain s' where
      p: "del k s = (0, s')" "inv s'" "abs s' = (abs s)(name k := None)" "\<forall>k n. names s k n \<longrightarrow> names s' k n"
      by (auto simp: cmd_ok_def)
    then show ?thesis using rest [OF p(2,4)] by (auto simp: Del split: prod.splits)
  next
    case (Get k)
    with Cons.prems get_law [of s k "name k"] obtain s' where
      p: "get k s = (case abs s (name k) of None \<Rightarrow> - errno_val ENOENT | Some _ \<Rightarrow> 0, abs s (name k), s')"
        "inv s'" "abs s' = abs s" "\<forall>k n. names s k n \<longrightarrow> names s' k n"
      by (auto simp: cmd_ok_def)
    then show ?thesis using rest [OF p(2,4)] by (auto simp: Get split: prod.splits)
  qed
qed

end

section \<open>The cache as a store\<close>

text \<open>
  Every entry has its lock file and holds a string of at most 509 characters with its NUL. The
  names of the entries are the 32 hexadecimal digits of a digest, those of the lock files are
  longer.
\<close>

definition entry_ok :: "cbuffer \<Rightarrow> bool" where
  "entry_ok b \<longleftrightarrow> (\<exists>v. b = v @ [NUL] \<and> NUL \<notin> set v \<and> length v \<le> 509)"

definition entries_ok :: "(cstring \<rightharpoonup> ino \<times> cbuffer) \<Rightarrow> bool" where
  "entries_ok V \<longleftrightarrow> (\<forall>n i b. length n = 32 \<and> V n = Some (i, b) \<longrightarrow> V (lock_name n) \<noteq> None \<and> entry_ok b)"

definition cache_ok :: "ino \<Rightarrow> nat \<Rightarrow> inode_cache \<Rightarrow> world \<Rightarrow> bool" where
  "cache_ok d c cache w \<longleftrightarrow> ready d c w \<and> room 2 w \<and> ic_dirfd cache = int c \<and> entries_ok (dirview w d)"

definition cached :: "ino \<Rightarrow> world \<Rightarrow> cstring \<rightharpoonup> cstring" where
  "cached d w n = (if length n = 32 then map_option (\<lambda>(i, b). cstr b) (dirview w d n) else None)"

type_synonym key = "cstring \<times> u16"

definition key_names :: "ino \<Rightarrow> world \<Rightarrow> key \<Rightarrow> cstring \<Rightarrow> bool" where
  "key_names d w k n \<longleftrightarrow> outside w d (fst k) \<and> (\<exists>st. stat_path w (fst k) = Inr st \<and> n = entry_name st (snd k))"

definition value_fits :: "cstring \<Rightarrow> bool" where
  "value_fits v \<longleftrightarrow> NUL \<notin> set v \<and> length v \<le> 509"

definition cache_put :: "inode_cache \<Rightarrow> key \<Rightarrow> cstring \<Rightarrow> world \<Rightarrow> int \<times> world" where
  "cache_put cache k v w = inode_cache_put (Some cache) (Some (fst k)) (snd k) (Some v) w"

definition cache_del :: "inode_cache \<Rightarrow> key \<Rightarrow> world \<Rightarrow> int \<times> world" where
  "cache_del cache k w = inode_cache_del cache (fst k) (snd k) w"

text \<open>A client reads the string the out parameter designates when the result is zero.\<close>

definition cache_get :: "inode_cache \<Rightarrow> key \<Rightarrow> world \<Rightarrow> int \<times> cstring option \<times> world" where
  "cache_get cache k w =
    (case inode_cache_get cache (fst k) (snd k) (Some NULL) w of (err, out, w') \<Rightarrow>
      (err, if err = 0 then Option.bind out (heap_str w') else None, w'))"

lemma length_entry_name [simp]: "length (entry_name st kind) = 32"
  by (simp add: entry_name_def)

lemma length_lock_name [simp]: "length (lock_name n) = length n + 5"
  by (simp add: lock_name_def)

lemma entries_ok_put:
  assumes "entries_ok V" "length n = 32" "entry_ok b"
  shows "entries_ok (V(lock_name n \<mapsto> (j, []), n \<mapsto> (i, b)))"
proof -
  have inj: "lock_name m = lock_name n \<longleftrightarrow> m = n" for m by (simp add: lock_name_def)
  have "length m = 32 \<Longrightarrow> m \<noteq> lock_name n" "length m = 32 \<Longrightarrow> lock_name m \<noteq> n" for m
    using assms(2) length_lock_name [of n] length_lock_name [of m] by auto
  then show ?thesis using assms by (auto simp: entries_ok_def inj)
qed

lemma entries_ok_del:
  assumes "entries_ok V" "length n = 32"
  shows "entries_ok (V(lock_name n \<mapsto> (j, []), n := None))"
proof -
  have inj: "lock_name m = lock_name n \<longleftrightarrow> m = n" for m by (simp add: lock_name_def)
  have "length m = 32 \<Longrightarrow> m \<noteq> lock_name n" "length m = 32 \<Longrightarrow> lock_name m \<noteq> n" for m
    using assms(2) length_lock_name [of n] length_lock_name [of m] by auto
  then show ?thesis using assms by (auto simp: entries_ok_def inj)
qed

lemma cached_upd:
  assumes "length n = 32" "dirview w' d = (dirview w d)(lock_name n \<mapsto> (j, []), n := x)"
  shows "cached d w' = (cached d w)(n := map_option (\<lambda>(i, b). cstr b) x)"
proof
  fix m
  show "cached d w' m = ((cached d w)(n := map_option (\<lambda>(i, b). cstr b) x)) m"
    using assms(1) length_lock_name [of n] by (auto simp: cached_def assms(2))
qed

lemma key_names_evolves:
  assumes "changed d w w' V" "flat_dir w d" "key_names d w k n"
  shows "key_names d w' k n"
proof -
  have "evolves d w w'" using assms(1) by (simp add: changed_def)
  from outside_evolves [OF _ assms(2) this] assms(3) show ?thesis by (auto simp: key_names_def)
qed

lemma cache_ok_next:
  assumes "cache_ok d c cache w" "changed d w w' V" "ready d c w'" "fds w' = fds w" "entries_ok V"
  shows "cache_ok d c cache w'"
  using assms by (auto simp: cache_ok_def changed_def room_def)

lemma cache_put_frame:
  assumes "cache_ok d c cache w" "key_names d w k n" "value_fits v"
  shows "\<exists>w'. cache_put cache k v w = (0, w') \<and> cache_ok d c cache w' \<and>
    cached d w' = (cached d w)(n \<mapsto> v) \<and> (\<forall>k n. key_names d w k n \<longrightarrow> key_names d w' k n) \<and>
    fds w' = fds w \<and> heap w' = heap w"
proof -
  from assms(1) have r: "ready d c w" "room 2 w" "ic_dirfd cache = int c" "entries_ok (dirview w d)"
    by (simp_all add: cache_ok_def)
  from assms(2) obtain st where st: "stat_path w (fst k) = Inr st" "n = entry_name st (snd k)"
    by (auto simp: key_names_def)
  have v: "length v < INO_CACHE_ENTRY_MAX_SIZE" using assms(3)
    by (simp add: value_fits_def INO_CACHE_ENTRY_MAX_SIZE_def)
  from quiet_put [OF r(1) st(1) r(2,3) v, of "snd k"] obtain i j w' where
    p: "inode_cache_put (Some cache) (Some (fst k)) (snd k) (Some v) w = (0, w')"
    and ch: "changed d w w' ((dirview w d)(lock_name n \<mapsto> (j, []), n \<mapsto> (i, v @ [NUL])))"
    and f: "fds w' = fds w" "ready d c w'" "heap w' = heap w" unfolding st(2) by blast
  have n: "length n = 32" using st(2) by simp
  have "entry_ok (v @ [NUL])" using assms(3) by (auto simp: entry_ok_def value_fits_def)
  from cache_ok_next [OF assms(1) ch f(2,1) entries_ok_put [OF r(4) n this]]
  have "cache_ok d c cache w'" .
  moreover have "cached d w' = (cached d w)(n \<mapsto> v)"
    using cached_upd [OF n] ch assms(3) by (fastforce simp: changed_def value_fits_def)
  moreover have "flat_dir w d" using r(1) by (simp add: ready_def)
  ultimately show ?thesis using p f(1,3) key_names_evolves [OF ch] by (auto simp: cache_put_def)
qed

lemma cache_put_law:
  assumes "cache_ok d c cache w" "key_names d w k n" "value_fits v"
  shows "\<exists>w'. cache_put cache k v w = (0, w') \<and> cache_ok d c cache w' \<and>
    cached d w' = (cached d w)(n \<mapsto> v) \<and> (\<forall>k n. key_names d w k n \<longrightarrow> key_names d w' k n)"
  using cache_put_frame [OF assms] by blast

lemma cache_del_law:
  assumes "cache_ok d c cache w" "key_names d w k n"
  shows "\<exists>w'. cache_del cache k w = (0, w') \<and> cache_ok d c cache w' \<and>
    cached d w' = (cached d w)(n := None) \<and> (\<forall>k n. key_names d w k n \<longrightarrow> key_names d w' k n)"
proof -
  from assms(1) have r: "ready d c w" "room 1 w" "ic_dirfd cache = int c" "entries_ok (dirview w d)"
    by (simp_all add: cache_ok_def room_def)
  from assms(2) obtain st where st: "stat_path w (fst k) = Inr st" "n = entry_name st (snd k)"
    by (auto simp: key_names_def)
  from quiet_del [OF r(1) st(1) r(2,3), of "snd k"] obtain j w' where
    p: "inode_cache_del cache (fst k) (snd k) w = (0, w')"
    and ch: "changed d w w' ((dirview w d)(lock_name n \<mapsto> (j, []), n := None))"
    and f: "fds w' = fds w" "ready d c w'" unfolding st(2) by blast
  have n: "length n = 32" using st(2) by simp
  from cache_ok_next [OF assms(1) ch f(2,1) entries_ok_del [OF r(4) n]]
  have "cache_ok d c cache w'" .
  moreover have "cached d w' = (cached d w)(n := None)"
    using cached_upd [OF n] ch by (fastforce simp: changed_def)
  moreover have "flat_dir w d" using r(1) by (simp add: ready_def)
  ultimately show ?thesis using p key_names_evolves [OF ch] by (auto simp: cache_del_def)
qed

lemma cache_get_law:
  assumes "cache_ok d c cache w" "key_names d w k n"
  shows "\<exists>w'. cache_get cache k w =
      (case cached d w n of None \<Rightarrow> - errno_val ENOENT | Some _ \<Rightarrow> 0, cached d w n, w') \<and>
    cache_ok d c cache w' \<and> cached d w' = cached d w \<and> (\<forall>k n. key_names d w k n \<longrightarrow> key_names d w' k n)"
proof -
  from assms(1) have r: "ready d c w" "room 2 w" "ic_dirfd cache = int c" "entries_ok (dirview w d)"
    by (simp_all add: cache_ok_def)
  from assms(2) obtain st where st: "stat_path w (fst k) = Inr st" "n = entry_name st (snd k)"
    by (auto simp: key_names_def)
  have n: "length n = 32" using st(2) by simp
  have flat: "flat_dir w d" using r(1) by (simp add: ready_def)
  have fin: ?thesis
    if "cache_get cache k w = (case cached d w n of None \<Rightarrow> - errno_val ENOENT | Some _ \<Rightarrow> 0, cached d w n, w')"
      "changed d w w' (dirview w d)" "ready d c w'" "fds w' = fds w" for w'
    using that key_names_evolves [OF that(2) flat] cache_ok_next [OF assms(1) that(2-4) r(4)]
    by (auto simp: changed_def cached_def fun_eq_iff)
  show ?thesis
  proof (cases "dirview w d n")
    case None
    from quiet_get_missing [OF r(1) st(1) r(2,3), of "snd k" NULL] None obtain w' where
      g: "inode_cache_get cache (fst k) (snd k) (Some NULL) w = (- errno_val ENOENT, Some NULL, w')"
      and ch: "changed d w w' (dirview w d)" by (auto simp: st(2))
    note f = get_frame(3,1) [OF r(1) g ch]
    show ?thesis using g None n by (intro fin [OF _ ch f]) (simp add: cache_get_def cached_def)
  next
    case (Some x)
    then obtain i b where ib: "dirview w d n = Some (i, b)" by (cases x) auto
    with r(4) n have ok: "entry_ok b" and lk: "dirview w d (lock_name n) \<noteq> None"
      by (auto simp: entries_ok_def)
    from ok obtain v where v: "b = v @ [NUL]" "NUL \<notin> set v" "length v \<le> 509" by (auto simp: entry_ok_def)
    from lk obtain lb where lb: "dirview w d (lock_name n) = Some lb" by blast
    from quiet_get_found [OF r(1) st(1) r(2,3) lb [unfolded st(2)] ib [unfolded st(2)], of NULL] v obtain q w' where
      g: "inode_cache_get cache (fst k) (snd k) (Some NULL) w = (0, Some q, w')"
      and ch: "changed d w w' (dirview w d)" and f: "ready d c w'" "fds w' = fds w"
      and q: "q \<noteq> NULL" "heap w' q = Some (v @ [NUL])" by auto
    show ?thesis using g ib n v q by (intro fin [OF _ ch f]) (simp add: cache_get_def cached_def heap_str_def)
  qed
qed

interpretation cache: kv_store "cache_ok d c cache" "cached d" "key_names d" value_fits
  "cache_put cache" "cache_del cache" "cache_get cache" for d c cache
  by unfold_locales (rule cache_put_law cache_del_law cache_get_law; assumption)+

section \<open>The image of the key\<close>

lemma length_put_le [simp]: "length (put_le n v) = n"
  by (simp add: put_le_def)

lemma put_le_inject:
  fixes v w :: "'a::len word"
  assumes "LENGTH('a) \<le> 8 * n"
  shows "put_le n v = put_le n w \<longleftrightarrow> v = w"
proof
  assume eq: "put_le n v = put_le n w"
  show "v = w"
  proof (rule bit_word_eqI)
    fix m assume m: "m < LENGTH('a)"
    then have "m div 8 < n" using assms by linarith
    then have "put_le n v ! (m div 8) = ucast (drop_bit (8 * (m div 8)) v)"
      "put_le n w ! (m div 8) = ucast (drop_bit (8 * (m div 8)) w)" by (simp_all add: put_le_def)
    with eq have "bit (ucast (drop_bit (8 * (m div 8)) v) :: u8) (m mod 8) =
        bit (ucast (drop_bit (8 * (m div 8)) w) :: u8) (m mod 8)" by simp
    then show "bit v m = bit w m" by (simp add: bit_simps)
  qed
qed simp

section \<open>A directory to run on\<close>

text \<open>The cache directory \<open>/c\<close>, open as descriptor 3, and a compiler \<open>/f\<close>.\<close>

definition cache_world :: "fault list \<Rightarrow> world" where
  "cache_world fs = \<lparr>inodes = (\<lambda>_. None)
      (0 \<mapsto> \<lparr>i_dev = 1, i_mtime_sec = 0, i_mtime_nsec = 0,
         i_content = Dir ((\<lambda>_. None)(''f'' \<mapsto> 2, ''c'' \<mapsto> 1)) 0\<rparr>,
       1 \<mapsto> \<lparr>i_dev = 1, i_mtime_sec = 0, i_mtime_nsec = 0, i_content = Dir (\<lambda>_. None) 0\<rparr>,
       2 \<mapsto> \<lparr>i_dev = 1, i_mtime_sec = 7, i_mtime_nsec = 1500, i_content = Reg ''ELF''\<rparr>),
     root_ino = 0, cwd_ino = 0, next_ino = 3, clock_sec = 9, clock_nsec = 0,
     fds = (\<lambda>_. None)(3 \<mapsto> OPath 1), fd_max = 8, flocks = \<lambda>_. None, heap = \<lambda>_. None, next_ptr = 1,
     errno = 0, faults = fs, stack_byte = \<lambda>_. CHR ''x'', ub_log = []\<rparr>"

definition demo_cache :: inode_cache where
  "demo_cache = \<lparr>ic_dir = Some ''/c'', ic_dirfd = 3\<rparr>"

definition demo_stat :: stat_buf where
  "demo_stat = \<lparr>st_dev = 1, st_ino = 2, st_size = 3, st_mtim_sec = 7, st_mtim_nsec = 1500\<rparr>"

lemma cache_world_ok: "cache_ok 1 3 demo_cache (cache_world [])"
proof -
  have "{n. n < fd_max (cache_world []) \<and> fds (cache_world []) n = None} = {0, 1, 2, 4, 5, 6, 7}"
    by (auto simp: cache_world_def)
  then have "room 2 (cache_world [])" by (simp add: room_def)
  moreover have "flat_dir (cache_world []) 1"
    by (simp add: flat_dir_def fs_ok_def dir_entries_def cache_world_def)
  moreover have "dirview (cache_world []) 1 = (\<lambda>_. None)"
    by (simp add: dirview_def dir_entries_def cache_world_def fun_eq_iff)
  ultimately show ?thesis
    by (auto simp: cache_ok_def ready_def proc_ok_def heap_ok_def entries_ok_def demo_cache_def)
      (simp_all add: cache_world_def)
qed

lemma cache_world_stat: "stat_path (cache_world fs) ''/f'' = Inr demo_stat"
  by (simp add: stat_path_def lookup_path_def start_dir_def stat_of_def cache_world_def demo_stat_def)

lemma cache_world_outside: "outside (cache_world []) 1 ''/f''"
  by (simp add: outside_def lookup_path_def start_dir_def entinos_def dir_entries_def cache_world_def)

lemma cache_world_view: "cached 1 (cache_world []) n = None" "dirview (cache_world []) 1 n = None"
  by (simp_all add: cached_def dirview_def dir_entries_def cache_world_def)

section \<open>Properties\<close>

text \<open>C1. The cache refines a map. Run any sequence of put, delete and get commands on
  files outside the cache directory, with values of at most 509 characters, on a system
  without faults: every result code and every string got are those of the same commands on a
  map from entry names to strings, and so is the content of the directory at the end.\<close>

theorem cache_refines_map:
  assumes "cache_ok d c cache w"
    and "list_all (\<lambda>x. key_names d w (cmd_key x) (name (cmd_key x)) \<and>
      (\<forall>k v. x = Put k v \<longrightarrow> value_fits v)) cs"
  shows "\<exists>w'. run_cmds (cache_put cache) (cache_del cache) (cache_get cache) cs w =
      (fst (map_run name cs (cached d w)), w') \<and>
    cached d w' = snd (map_run name cs (cached d w)) \<and> cache_ok d c cache w'"
  using cache.run_refines [OF assms(1), of name cs] assms(2) unfolding cache.cmd_ok_def by blast

theorem cache_refines_map_witness:
  "\<exists>w'. run_cmds (cache_put demo_cache) (cache_del demo_cache) (cache_get demo_cache)
      [Get (''/f'', 1), Put (''/f'', 1) ''gcc'', Get (''/f'', 1), Del (''/f'', 1), Get (''/f'', 1)]
      (cache_world []) =
    ([(-2, None), (0, None), (0, Some ''gcc''), (0, None), (-2, None)], w')"
proof -
  let ?cs = "[Get (''/f'', 1), Put (''/f'', 1) ''gcc'', Get (''/f'', 1), Del (''/f'', 1), Get (''/f'', 1)]
    :: (key, cstring) cmd list"
  let ?name = "\<lambda>k :: key. entry_name demo_stat (snd k)"
  have "list_all (\<lambda>x. key_names 1 (cache_world []) (cmd_key x) (?name (cmd_key x)) \<and>
      (\<forall>k v. x = Put k v \<longrightarrow> value_fits v)) ?cs"
    by (simp add: key_names_def cache_world_stat cache_world_outside [simplified] value_fits_def)
  from cache_refines_map [OF cache_world_ok this] show ?thesis
    by (auto simp: cache_world_view [simplified])
qed

text \<open>C6. A value of 510 or 511 characters is accepted by \<open>inode_cache_put\<close> and cannot be
  read back: the following \<open>inode_cache_get\<close> of the same file returns \<open>- EXIT_FAILURE\<close>.\<close>

theorem long_value_lost:
  assumes "cache_ok d c cache w" "key_names d w k n" "length v = 510 \<or> length v = 511"
  shows "\<exists>w' q w''. cache_put cache k v w = (0, w') \<and>
    inode_cache_get cache (fst k) (snd k) (Some NULL) w' = (- EXIT_FAILURE, Some q, w'')"
proof -
  from assms(1) have r: "ready d c w" "room 2 w" "ic_dirfd cache = int c" by (simp_all add: cache_ok_def)
  from assms(2) obtain st where st: "stat_path w (fst k) = Inr st" "outside w d (fst k)"
    by (auto simp: key_names_def)
  let ?n = "entry_name st (snd k)"
  have v: "length v < INO_CACHE_ENTRY_MAX_SIZE" using assms(3) by (auto simp: INO_CACHE_ENTRY_MAX_SIZE_def)
  from quiet_put [OF r(1) st(1) r(2,3) v, of "snd k"] obtain i j w' where
    p: "inode_cache_put (Some cache) (Some (fst k)) (snd k) (Some v) w = (0, w')"
    and ch: "changed d w w' ((dirview w d)(lock_name ?n \<mapsto> (j, []), ?n \<mapsto> (i, v @ [NUL])))"
    and f: "fds w' = fds w" "ready d c w'" by blast
  have st': "stat_path w' (fst k) = Inr st"
    using outside_evolves(2) [OF st(2), of w'] r(1) ch st(1) by (simp add: ready_def changed_def)
  have room': "room 2 w'" using r(2) f(1) ch by (simp add: room_def changed_def)
  have "?n \<noteq> lock_name ?n" by (rule plain_entry_name(4))
  then have dv: "dirview w' d (lock_name ?n) = Some (j, [])" "dirview w' d ?n = Some (i, v @ [NUL])"
    using ch by (auto simp: changed_def)
  from quiet_get_found [OF f(2) st' room' r(3) dv, of NULL] assms(3) p show ?thesis
    by (fastforce simp: cache_put_def)
qed

theorem long_value_lost_witness:
  "\<exists>w' q w''. cache_put demo_cache (''/f'', 1) (replicate 510 CHR ''a'') (cache_world []) = (0, w') \<and>
    inode_cache_get demo_cache ''/f'' 1 (Some NULL) w' = (-1, Some q, w'')"
proof -
  have "key_names 1 (cache_world []) (''/f'', 1) (entry_name demo_stat 1)"
    by (simp add: key_names_def cache_world_stat cache_world_outside [simplified])
  from long_value_lost [OF cache_world_ok this, of "replicate 510 CHR ''a''"] show ?thesis
    by (simp add: EXIT_FAILURE_def)
qed

text \<open>A value of 512 characters or more is refused with \<open>E2BIG\<close>, and a null cache, path
  or value with \<open>EINVAL\<close>, before any system call is made: the world is unchanged.\<close>

lemma inode_cache_put_rejects:
  "inode_cache_put cache path kind val w = (- errno_val E2BIG, w)
     \<and> inode_cache_put None path kind val w = (- errno_val EINVAL, w)
     \<and> inode_cache_put cache None kind val w = (- errno_val EINVAL, w)
     \<and> inode_cache_put cache path kind None w = (- errno_val EINVAL, w)"
  if "cache = Some ca" "path = Some pa" "val = Some v" "512 \<le> length v"
  using that by (simp add: inode_cache_put_def put_out_def INO_CACHE_ENTRY_MAX_SIZE_def)

lemma inode_cache_put_rejects_witness:
  "inode_cache_put (Some demo_cache) (Some ''/f'') 1 (Some (replicate 512 CHR ''a'')) (cache_world []) =
    (-7, cache_world [])"
  using inode_cache_put_rejects [OF refl refl refl, of "replicate 512 CHR ''a''" demo_cache "''/f''" 1
    "cache_world []"] by simp

text \<open>Failing to create the entry, whatever the reason, makes \<open>inode_cache_put\<close> return
  -1 in place of the negated error number.\<close>

lemma put_open_error_code:
  assumes "heap w p = Some (name @ [NUL])" "p \<noteq> NULL" "NUL \<notin> set name" "faults w = Fail e # fs"
  shows "fst (put_locked cache p lock_fd val w) = -1"
  using assms by (simp add: put_locked_def load_str_heap sys_openat_def next_fault_def fail_with_def put_out_def Let_def)

lemma put_open_error_code_witness:
  "fst (put_locked demo_cache 1 (-1) ''v'' ((cache_world [Fail ENOSPC])\<lparr>heap := [1 \<mapsto> ''n'' @ [NUL]]\<rparr>)) = -1"
  by (rule put_open_error_code [of _ _ "''n''" ENOSPC "[]"]) (simp_all add: cache_world_def)

text \<open>The modification time in the image, for a time that \<open>stat\<close> may report.\<close>

definition mtime_valid :: "stat_buf \<Rightarrow> bool" where
  "mtime_valid st \<longleftrightarrow> \<not> mtime_overflows st \<and> 0 \<le> st_mtim_nsec st \<and> st_mtim_nsec st < 10 ^ 9"

lemma div_mult_unique:
  assumes "1000000 * a + x = 1000000 * b + y" "0 \<le> x" "x < 1000000" "0 \<le> y" "y < (1000000 :: int)"
  shows "a = b" "x = y"
proof -
  show "a = b" using assms by (cases a b rule: linorder_cases) linarith+
  then show "x = y" using assms(1) by simp
qed

lemma sdiv_1000: "0 \<le> n \<Longrightarrow> n sdiv 1000 = n div (1000 :: int)"
  by (cases "n = 0") (simp_all add: signed_divide_int_def)

lemma mtime_usec_eq:
  assumes "mtime_valid st" "mtime_valid st'"
  shows "mtime_usec st = mtime_usec st' \<longleftrightarrow>
    st_mtim_sec st = st_mtim_sec st' \<and> st_mtim_nsec st div 1000 = st_mtim_nsec st' div 1000"
proof
  define u where "u st = 1000000 * st_mtim_sec st + st_mtim_nsec st div 1000" for st :: stat_buf
  have w: "mtime_usec x = of_int (u x)" "- 9223372036854000000 \<le> u x" "u x < 9223372036855000000"
    "0 \<le> st_mtim_nsec x div 1000" "st_mtim_nsec x div 1000 < 1000000" if v: "mtime_valid x" for x
  proof -
    have r: "- 9223372036854775808 \<le> 1000000 * st_mtim_sec x" "1000000 * st_mtim_sec x < 9223372036854775808"
      "0 \<le> st_mtim_nsec x" "st_mtim_nsec x < 1000000000" using v by (simp_all add: mtime_valid_def mtime_overflows_def)
    have "st_mtim_nsec x div 1000 * 1000 \<le> st_mtim_nsec x" using mult_div_mod_eq [of 1000 "st_mtim_nsec x"] pos_mod_sign [of 1000 "st_mtim_nsec x"] by linarith
    then show n: "0 \<le> st_mtim_nsec x div 1000" "st_mtim_nsec x div 1000 < 1000000" using r(3,4) by simp_all
    have "- 9223372036854 \<le> st_mtim_sec x" "st_mtim_sec x \<le> 9223372036854" using r(1,2) by linarith+
    then show "- 9223372036854000000 \<le> u x" "u x < 9223372036855000000" unfolding u_def using n by linarith+
    have "st_mtim_nsec x sdiv 1000 = st_mtim_nsec x div 1000" using r(3) by (rule sdiv_1000)
    then show "mtime_usec x = of_int (u x)" by (simp add: mtime_usec_def u_def)
  qed
  assume "mtime_usec st = mtime_usec st'"
  then have "(of_int (u st) :: u64) = of_int (u st')" using w(1) assms by simp
  then have "uint (of_int (u st) :: u64) = uint (of_int (u st') :: u64)" by simp
  then have "u st mod 18446744073709551616 = u st' mod 18446744073709551616"
    by (simp add: unsigned_of_int take_bit_eq_mod)
  then have d: "18446744073709551616 dvd u st - u st'" by (simp add: mod_eq_dvd_iff)
  have "- 18446744073709551616 < u st - u st'" "u st - u st' < 18446744073709551616"
    using w(2,3) [OF assms(1)] w(2,3) [OF assms(2)] by linarith+
  with d have "u st = u st'" using dvd_imp_le_int [of "u st - u st'" 18446744073709551616] by (cases "u st = u st'") auto
  from div_mult_unique [OF this [unfolded u_def] w(4,5) [OF assms(1)] w(4,5) [OF assms(2)]]
  show "st_mtim_sec st = st_mtim_sec st' \<and> st_mtim_nsec st div 1000 = st_mtim_nsec st' div 1000" by blast
next
  assume e: "st_mtim_sec st = st_mtim_sec st' \<and> st_mtim_nsec st div 1000 = st_mtim_nsec st' div 1000"
  have "st_mtim_nsec x sdiv 1000 = st_mtim_nsec x div 1000" if "mtime_valid x" for x
    using that by (simp add: mtime_valid_def sdiv_1000)
  then show "mtime_usec st = mtime_usec st'" using e assms by (simp add: mtime_usec_def)
qed

text \<open>C8. The name of an entry is the MD5 digest of 32 bytes that determine the kind of the value
  and the identity of the file: two images are equal exactly when the kinds, the low 32 bits of
  the devices, the inode numbers, the sizes, and the modification times down to the microsecond
  are equal, for times whose microseconds fit in 64 bits.\<close>

theorem ino_hash_injective:
  assumes "mtime_valid st" "mtime_valid st'"
  shows "length (ino_hash_bytes (ino_hash_of st kind)) = 32 \<and>
    (ino_hash_bytes (ino_hash_of st kind) = ino_hash_bytes (ino_hash_of st' kind') \<longleftrightarrow>
     kind = kind' \<and> unat (st_dev st) mod 2 ^ 32 = unat (st_dev st') mod 2 ^ 32 \<and> st_ino st = st_ino st' \<and>
     st_size st = st_size st' \<and> st_mtim_sec st = st_mtim_sec st' \<and>
     st_mtim_nsec st div 1000 = st_mtim_nsec st' div 1000)"
proof -
  have "(ucast (st_dev st) :: u32) = ucast (st_dev st') \<longleftrightarrow> unat (st_dev st) mod 2 ^ 32 = unat (st_dev st') mod 2 ^ 32"
    by (simp add: word_unat_eq_iff unsigned_ucast_eq take_bit_eq_mod)
  then show ?thesis using mtime_usec_eq [OF assms]
    by (simp add: ino_hash_bytes_def ino_hash_of_def put_le_inject)
qed

theorem ino_hash_injective_witness:
  "ino_hash_bytes (ino_hash_of demo_stat 1) = ino_hash_bytes (ino_hash_of (demo_stat\<lparr>st_mtim_nsec := 1999\<rparr>) 1) \<and>
   ino_hash_bytes (ino_hash_of demo_stat 1) \<noteq> ino_hash_bytes (ino_hash_of (demo_stat\<lparr>st_mtim_nsec := 2000\<rparr>) 1)"
  using ino_hash_injective [of demo_stat "demo_stat\<lparr>st_mtim_nsec := 1999\<rparr>" 1 1]
    ino_hash_injective [of demo_stat "demo_stat\<lparr>st_mtim_nsec := 2000\<rparr>" 1 1]
  by (simp add: mtime_valid_def mtime_overflows_def demo_stat_def)

text \<open>C7. Whatever fails, \<open>hash_inode\<close> either reports a negative error number or has put on
  the heap the hexadecimal MD5 digest (RFC 1321) of the identity that \<open>stat\<close> reports.\<close>

theorem hash_inode_names:
  assumes "hash_inode q path kind w = (err, p, w')"
  shows "err < 0 \<or> err = 0 \<and> (\<exists>st. stat_path w path = Inr st \<and>
    heap w' p = Some (hex_string (rfc_md5 (ino_hash_bytes (ino_hash_of st kind))) @ [NUL]))"
proof -
  obtain r st w1 where st: "sys_stat path w = (r, st, w1)" by (metis prod_cases3)
  show ?thesis
  proof (cases st)
    case None
    then have "0 < errno w1" using sys_stat_cases [OF st] by simp
    then show ?thesis using assms st None by (auto simp: hash_inode_def)
  next
    case (Some s)
    have s: "stat_path w path = Inr s" using sys_stat_Some st Some by blast
    let ?w = "mtime_checked s w1"
    have m: "cstr (MD5Digest (stack_ctx ?w) (ino_hash_bytes (ino_hash_of s kind))) =
        hex_string (rfc_md5 (ino_hash_bytes (ino_hash_of s kind)))"
      using hex_string_not_NUL(1) by (simp add: MD5Digest_rfc stack_ctx_def)
    obtain e p' w2 where as: "c_asprintf (hex_string (rfc_md5 (ino_hash_bytes (ino_hash_of s kind)))) ?w = (e, p', w2)"
      by (metis prod_cases3)
    from c_asprintf_cases [OF as] show ?thesis
      using assms st Some s m as by (auto simp: hash_inode_def Let_def dest: res_eqD(3))
  qed
qed

theorem hash_inode_names_witness:
  "\<exists>p w'. hash_inode NULL ''/f'' 1 (cache_world []) = (0, p, w') \<and>
    (\<exists>b. heap w' p = Some (b @ [NUL]) \<and> length b = 32)"
proof -
  have "hash_inode NULL ''/f'' 1 (cache_world []) = (0, next_ptr (cache_world []), (cache_world [])
      \<lparr>heap := (heap (cache_world []))(next_ptr (cache_world []) \<mapsto> entry_name demo_stat 1 @ [NUL]),
       next_ptr := Suc (next_ptr (cache_world [])), ub_log := ub_log (cache_world []) @ mtime_log demo_stat\<rparr>)"
    by (rule quiet_hash_inode) (simp_all add: cache_world_stat, simp add: cache_world_def)
  from this hash_inode_names [OF this] show ?thesis by (auto simp: cache_world_stat)
qed

text \<open>Opening the cache directory either fails with -1 and changes nothing, or takes one
  fresh descriptor; opening again then does nothing, and closing gives the descriptor back.\<close>

lemma inode_cache_open_close:
  assumes "proc_ok w" "ic_dirfd cache < 0" "inode_cache_open cache w = (err, cache', w')"
  shows "err = -1 \<and> cache' = cache \<and> fds w' = fds w \<or>
    err = 0 \<and> (\<exists>n. fds w n = None \<and> fds w' n \<noteq> None \<and> ic_dirfd cache' = int n \<and>
      inode_cache_open cache' w' = (0, cache', w') \<and>
      fst (inode_cache_close cache' w') = cache\<lparr>ic_dirfd := -1\<rparr> \<and>
      fds (snd (inode_cache_close cache' w')) = fds w)"
proof (cases "ic_dir cache")
  case None
  then show ?thesis using assms(2,3) by (simp add: inode_cache_open_def)
next
  case (Some dir)
  obtain fd w1 where op: "sys_open dir [O_PATH, O_DIRECTORY] w = (fd, w1)" by fastforce
  note o = owns_start [OF assms(1)]
  from owns_opened [OF o sys_open_opened [OF op]] show ?thesis
  proof (elim disjE exE conjE)
    assume "fd = -1" "owns w {} {} [] w1"
    then show ?thesis using assms(2,3) Some op owns_end(1) [of w "[]" w1] by (simp add: inode_cache_open_def)
  next
    fix n assume fd: "fd = int n" and o1: "owns w (insert n {}) {} [] w1"
    from owns_close [OF o1 insertI1] have cl: "fds (snd (sys_close (int n) w1)) = fds w"
      by (simp add: owns_def fun_eq_iff)
    have "fds w n = None" "fds w1 n \<noteq> None" using o1 by (simp_all add: owns_def)
    then show ?thesis using assms(2,3) Some op fd cl
      by (auto simp: inode_cache_open_def inode_cache_close_def split: prod.splits)
  qed
qed

lemma inode_cache_open_close_witness:
  "inode_cache_open \<lparr>ic_dir = Some ''/c'', ic_dirfd = -1\<rparr> (cache_world []) =
    (0, \<lparr>ic_dir = Some ''/c'', ic_dirfd = 0\<rparr>, (cache_world [])\<lparr>fds := [3 \<mapsto> OPath 1, 0 \<mapsto> OPath 1]\<rparr>) \<and>
   fds (snd (inode_cache_close \<lparr>ic_dir = Some ''/c'', ic_dirfd = 0\<rparr>
     ((cache_world [])\<lparr>fds := [3 \<mapsto> OPath 1, 0 \<mapsto> OPath 1]\<rparr>))) = fds (cache_world [])"
proof -
  have "free_fd (cache_world []) = Some 0"
    by (simp add: free_fd_def cache_world_def upt_conv_Cons)
  then have op: "inode_cache_open \<lparr>ic_dir = Some ''/c'', ic_dirfd = -1\<rparr> (cache_world []) =
    (0, \<lparr>ic_dir = Some ''/c'', ic_dirfd = 0\<rparr>, (cache_world [])\<lparr>fds := [3 \<mapsto> OPath 1, 0 \<mapsto> OPath 1]\<rparr>)"
    by (simp add: inode_cache_open_def sys_open_def sys_openat_def next_fault_def lookup_path_def
      start_dir_def open_existing_def install_fd_def open_obj_def AT_FDCWD_def cache_world_def)
  have "proc_ok (cache_world [])" using cache_world_ok by (simp add: cache_ok_def ready_def)
  from inode_cache_open_close [OF this _ op] op show ?thesis by auto
qed

end
