(* ===== verification/Mkdir_P.thy ===== *)
theory Mkdir_P
  imports Posix_Quiet
begin

text \<open>
  The function of \<^verbatim>\<open>c/mkdir_p.c\<close>, which creates and opens a directory together with its
  parents. It cuts the path at each slash by overwriting it with a NUL in the caller's buffer,
  and puts the slash back; the buffer is part of the model. Permission bits and the messages
  on standard error are not modelled.
\<close>

section \<open>The code\<close>

text \<open>
  The loop, up to the label \<open>out\<close>: \<open>err\<close>, \<open>dirfd\<close>, \<open>nextdirfd\<close> and \<open>end\<close> as the code
  after the label finds them, with the buffer.
\<close>

function mkdir_p_loop ::
  "int \<Rightarrow> cbuffer \<Rightarrow> nat \<Rightarrow> world \<Rightarrow> int \<times> int \<times> int \<times> nat option \<times> cbuffer \<times> world" where
  "mkdir_p_loop dirfd buf pos w =
    (let end = strchr_at buf pos (CHR ''/'');
         buf = (case end of None \<Rightarrow> buf | Some e \<Rightarrow> buf[e := NUL]);
         path = cstr (drop pos buf);
         (nextdirfd, w) = sys_mkdirat dirfd path w
     in if nextdirfd < 0 \<and> errno w \<noteq> errno_val EEXIST then (- errno w, dirfd, nextdirfd, end, buf, w)
        else
          let (nextdirfd, w) = sys_openat dirfd path [O_PATH, O_DIRECTORY] w
          in if nextdirfd < 0 then (- errno w, dirfd, nextdirfd, end, buf, w)
             else
               let (_, w) = sys_close dirfd w;
                   dirfd = nextdirfd
               in (case end of
                     None \<Rightarrow> (0, dirfd, -1, None, buf, w)
                   | Some e \<Rightarrow> mkdir_p_loop dirfd (buf[e := CHR ''/'']) (Suc e) w))"
  by pat_completeness auto
termination
  by (relation "measure (\<lambda>(_, buf, pos, _). length buf - pos)") (auto dest!: strchr_at_bounds [OF sym] split: option.split)

declare mkdir_p_loop.simps [simp del]

definition mkdir_p_out ::
  "int \<Rightarrow> int \<Rightarrow> int \<Rightarrow> nat option \<Rightarrow> cbuffer \<Rightarrow> world \<Rightarrow> int \<times> cbuffer \<times> world" where
  "mkdir_p_out err dirfd nextdirfd end buf w =
    (let buf = (case end of None \<Rightarrow> buf | Some e \<Rightarrow> buf[e := CHR ''/'']);
         w = (if 0 \<le> nextdirfd then snd (sys_close nextdirfd w) else w)
     in if err \<noteq> 0 then (err, buf, if 0 \<le> dirfd then snd (sys_close dirfd w) else w)
        else (dirfd, buf, w))"

definition mkdir_p :: "cbuffer \<Rightarrow> world \<Rightarrow> int \<times> cbuffer \<times> world" where
  "mkdir_p buf w =
    (if buf ! 0 = CHR ''/'' then
       let (dirfd, w) = sys_open ''/'' [O_PATH, O_DIRECTORY] w
       in if dirfd < 0 then mkdir_p_out (- errno w) dirfd (-1) None buf w
          else
            let (err, dirfd, nextdirfd, end, buf, w) = mkdir_p_loop dirfd buf 1 w
            in mkdir_p_out err dirfd nextdirfd end buf w
     else
       let (err, dirfd, nextdirfd, end, buf, w) = mkdir_p_loop AT_FDCWD buf 0 w
       in mkdir_p_out err dirfd nextdirfd end buf w)"

section \<open>The components of the path\<close>

text \<open>The loop on the list of components: what is left when the buffer is abstracted away.\<close>

fun mkdir_comps :: "int \<Rightarrow> cstring list \<Rightarrow> world \<Rightarrow> int \<times> int \<times> int \<times> world" where
  "mkdir_comps dirfd [] w = (0, dirfd, -1, w)"
| "mkdir_comps dirfd (c # cs) w =
    (case sys_mkdirat dirfd c w of (r, w) \<Rightarrow>
      if r < 0 \<and> errno w \<noteq> errno_val EEXIST then (- errno w, dirfd, r, w)
      else case sys_openat dirfd c [O_PATH, O_DIRECTORY] w of (n, w) \<Rightarrow>
        if n < 0 then (- errno w, dirfd, n, w)
        else mkdir_comps n cs (snd (sys_close dirfd w)))"

definition restore :: "nat option \<Rightarrow> cbuffer \<Rightarrow> cbuffer" where
  "restore end buf = (case end of None \<Rightarrow> buf | Some e \<Rightarrow> buf[e := CHR ''/''])"

lemma split_path_append:
  "CHR ''/'' \<notin> set a \<Longrightarrow> split_path (a @ CHR ''/'' # s) = a # split_path s"
  by (induction a) auto

lemma mkdir_p_loop_comps:
  assumes "NUL \<notin> set s"
  shows "\<exists>err d n end buf w'. mkdir_p_loop dirfd (pre @ s @ NUL # post) (length pre) w = (err, d, n, end, buf, w') \<and>
    mkdir_comps dirfd (split_path s) w = (err, d, n, w') \<and> restore end buf = pre @ s @ NUL # post"
  using assms
proof (induction s arbitrary: pre dirfd w rule: measure_induct_rule [of length])
  case (less s)
  show ?case
  proof (cases "CHR ''/'' \<in> set s")
    case False
    note none = strchr_at_None [OF less.prems False]
    have "cstr (s @ NUL # post) = s" using less.prems by simp
    then show ?thesis using none split_path_no_slash [OF False]
      by (subst mkdir_p_loop.simps) (auto simp: restore_def Let_def split: prod.split)
  next
    case True
    then obtain a t where s: "s = a @ CHR ''/'' # t" and a: "CHR ''/'' \<notin> set a"
      using split_list_first by metis
    let ?buf = "pre @ s @ NUL # post" and ?e = "length pre + length a"
    have e: "strchr_at ?buf (length pre) (CHR ''/'') = Some ?e"
      using strchr_at_Some [of a t pre post] less.prems a s by simp
    have cut: "?buf[?e := NUL] = pre @ a @ NUL # t @ NUL # post"
      by (simp add: s list_update_append)
    have pth: "cstr (drop (length pre) (?buf[?e := NUL])) = a"
      unfolding cut using less.prems by (simp add: s)
    have undo: "?buf[?e := CHR ''/''] = ?buf"
      by (simp add: s list_update_append)
    have IH: "\<exists>err d n end buf w'. mkdir_p_loop df ?buf (Suc ?e) w = (err, d, n, end, buf, w') \<and>
        mkdir_comps df (split_path t) w = (err, d, n, w') \<and> restore end buf = ?buf" for df w
      using less.IH [of t df "pre @ a @ ''/''" w] less.prems by (simp add: s)
    obtain r w1 where mk: "sys_mkdirat dirfd a w = (r, w1)" by fastforce
    obtain n w2 where op: "sys_openat dirfd a [O_PATH, O_DIRECTORY] w1 = (n, w2)" by fastforce
    have sp: "split_path s = a # split_path t" using s a split_path_append by simp
    note loop = mkdir_p_loop.simps [of dirfd ?buf "length pre" w, unfolded e option.case pth Let_def]
    show ?thesis
      using IH [of n "snd (sys_close dirfd w2)"]
      by (auto simp: loop pth mk op sp restore_def undo split: prod.split)
  qed
qed


text \<open>A path in a buffer: its characters, the NUL, and whatever follows.\<close>

definition path_buf :: "cstring \<Rightarrow> cbuffer \<Rightarrow> cbuffer" where
  "path_buf s post = s @ NUL # post"

text \<open>The whole function on the components of the path.\<close>

definition mkdir_p_on :: "cstring \<Rightarrow> world \<Rightarrow> int \<times> world" where
  "mkdir_p_on s w =
    (if s \<noteq> [] \<and> hd s = CHR ''/'' then
       (case sys_open ''/'' [O_PATH, O_DIRECTORY] w of (d, w) \<Rightarrow>
         if d < 0 then (- errno w, w)
         else case mkdir_comps d (split_path (tl s)) w of (err, d, n, w) \<Rightarrow>
           (case mkdir_p_out err d n None [] w of (r, _, w) \<Rightarrow> (r, w)))
     else (case mkdir_comps AT_FDCWD (split_path s) w of (err, d, n, w) \<Rightarrow>
         (case mkdir_p_out err d n None [] w of (r, _, w) \<Rightarrow> (r, w))))"

lemma mkdir_p_out_restore:
  "mkdir_p_out err d n end buf w =
    (case mkdir_p_out err d n None [] w of (r, _, w') \<Rightarrow> (r, restore end buf, w'))"
  by (simp add: mkdir_p_out_def restore_def Let_def)

lemma sys_open_errno: "sys_open p fl w = (r, w') \<Longrightarrow> r < 0 \<Longrightarrow> 0 < errno w'"
  using sys_open_opened by (fastforce simp: opened_def)

lemma mkdir_p_path:
  assumes "NUL \<notin> set s"
  shows "mkdir_p (path_buf s post) w = (case mkdir_p_on s w of (r, w') \<Rightarrow> (r, path_buf s post, w'))"
proof (cases "\<exists>t. s = CHR ''/'' # t")
  case True
  then obtain t where s: "s = CHR ''/'' # t" by blast
  obtain d w1 where op: "sys_open ''/'' [O_PATH, O_DIRECTORY] w = (d, w1)" by fastforce
  show ?thesis
  proof (cases "d < 0")
    case True
    then show ?thesis using sys_open_errno [OF op] op
      by (simp add: mkdir_p_def path_buf_def s mkdir_p_on_def mkdir_p_out_def)
  next
    case False
    from mkdir_p_loop_comps [of t d "''/''" post w1] assms obtain err d' n e buf w' where
      "mkdir_p_loop d (path_buf s post) 1 w1 = (err, d', n, e, buf, w')"
      "mkdir_comps d (split_path t) w1 = (err, d', n, w')" "restore e buf = path_buf s post"
      by (auto simp: s path_buf_def)
    then show ?thesis using op False mkdir_p_out_restore [of err d' n e buf w']
      by (simp add: mkdir_p_def s mkdir_p_on_def path_buf_def split: prod.split)
  qed
next
  case False
  then have first: "path_buf s post ! 0 \<noteq> CHR ''/''"
    by (cases s) (auto simp: path_buf_def)
  have on: "mkdir_p_on s w = (case mkdir_comps AT_FDCWD (split_path s) w of (err, d, n, w) \<Rightarrow>
         (case mkdir_p_out err d n None [] w of (r, _, w) \<Rightarrow> (r, w)))"
    using False by (cases s) (simp_all add: mkdir_p_on_def)
  from mkdir_p_loop_comps [of s AT_FDCWD "[]" post w] assms obtain err d' n e buf w' where
    "mkdir_p_loop AT_FDCWD (path_buf s post) 0 w = (err, d', n, e, buf, w')"
    "mkdir_comps AT_FDCWD (split_path s) w = (err, d', n, w')" "restore e buf = path_buf s post"
    by (auto simp: path_buf_def)
  then show ?thesis using first on mkdir_p_out_restore [of err d' n e buf w']
    by (simp add: mkdir_p_def split: prod.split)
qed

section \<open>Resources\<close>

lemma comps_owns:
  assumes "owns w0 D {} [] w" "mkdir_comps dirfd cs w = (err, d, n, w')"
    and "dirfd = AT_FDCWD \<and> D = {} \<or> (\<exists>k. dirfd = int k \<and> D = {k})"
  shows "n < 0 \<and> err \<le> 0 \<and> (d = AT_FDCWD \<and> dirfd = AT_FDCWD \<and> owns w0 {} {} [] w' \<and> (err = 0 \<longrightarrow> cs = []) \<or>
    (\<exists>k. d = int k \<and> owns w0 {k} {} [] w'))"
  using assms
proof (induction cs arbitrary: dirfd D w)
  case Nil
  then show ?case by auto
next
  case (Cons c cs)
  obtain r w1 where mk: "sys_mkdirat dirfd c w = (r, w1)" by fastforce
  obtain m w2 where op: "sys_openat dirfd c [O_PATH, O_DIRECTORY] w1 = (m, w2)" by fastforce
  note pl = sys_mkdirat_plain [OF mk]
  have o1: "owns w0 D {} [] w1" using Cons.prems(1) pl by (rule owns_plain)
  show ?case
  proof (cases "r < 0 \<and> errno w1 \<noteq> errno_val EEXIST")
    case True
    then have "(err, d, n, w') = (- errno w1, dirfd, r, w1)" using Cons.prems(2) mk by auto
    then show ?thesis using Cons.prems(3) o1 pl True by (auto simp: plain_result_def)
  next
    case False
    from owns_opened [OF o1 sys_openat_opened [OF op]] show ?thesis
    proof (elim disjE exE conjE)
      assume m: "m = -1" "owns w0 D {} [] w2" "0 < errno w2"
      then have "(err, d, n, w') = (- errno w2, dirfd, -1, w2)" using Cons.prems(2) mk op False by auto
      then show ?thesis using Cons.prems(3) m by auto
    next
      fix k assume k: "m = int k" "k \<notin> D" and o2: "owns w0 (insert k D) {} [] w2"
      let ?w3 = "snd (sys_close dirfd w2)"
      have rest: "mkdir_comps (int k) cs ?w3 = (err, d, n, w')"
        using Cons.prems(2) mk op False k by (auto split: if_splits)
      have "owns w0 {k} {} [] ?w3"
        using Cons.prems(3)
      proof (elim disjE exE conjE)
        assume "dirfd = AT_FDCWD" "D = {}"
        then have "sys_close dirfd w2 = fail_with EBADF w2" by (simp add: sys_close_def fd_lookup_def AT_FDCWD_def)
        then show ?thesis using o2 \<open>D = {}\<close> by (auto intro: owns_res)
      next
        fix j assume "dirfd = int j" "D = {j}"
        then show ?thesis using owns_close [OF o2, of j] k(2) by (simp add: insert_Diff_if)
      qed
      from Cons.IH [OF this rest] show ?thesis by (auto simp: AT_FDCWD_def)
    qed
  qed
qed

lemma mkdir_p_out_owns:
  assumes "mkdir_p_out err d n None [] w = (r, b, w')" "n < 0" "err \<le> 0"
    and "d = AT_FDCWD \<and> owns w0 {} {} [] w \<and> err < 0 \<or> (\<exists>k. d = int k \<and> owns w0 {k} {} [] w)"
  shows "r < 0 \<and> owns w0 {} {} [] w' \<or> (\<exists>k. r = int k \<and> err = 0 \<and> owns w0 {k} {} [] w')"
  using assms owns_close [of w0 _ "{}" "[]" w] by (fastforce simp: mkdir_p_out_def AT_FDCWD_def split: if_splits)

lemma mkdir_p_on_owns:
  assumes o: "owns w0 {} {} [] w" and eq: "mkdir_p_on s w = (r, w')"
  shows "r < 0 \<and> owns w0 {} {} [] w' \<or> (\<exists>k. r = int k \<and> owns w0 {k} {} [] w')"
proof -
  have fin: ?thesis
    if "owns w0 D {} [] w1" "dirfd = AT_FDCWD \<and> D = {} \<or> (\<exists>k. dirfd = int k \<and> D = {k})"
      "(case mkdir_comps dirfd (split_path t) w1 of (err, d, n, w) \<Rightarrow>
         (case mkdir_p_out err d n None [] w of (r, _, w) \<Rightarrow> (r, w))) = (r, w')" for D dirfd t w1
  proof -
    obtain err d n w2 where c: "mkdir_comps dirfd (split_path t) w1 = (err, d, n, w2)" by (metis prod_cases4)
    obtain r' b w3 where out: "mkdir_p_out err d n None [] w2 = (r', b, w3)" by (metis prod_cases3)
    from comps_owns [OF that(1) c that(2)] mkdir_p_out_owns [OF out, of w0] that(3) c out
    show ?thesis by fastforce
  qed
  show ?thesis
  proof (cases "s \<noteq> [] \<and> hd s = CHR ''/''")
    case False
    then have "mkdir_p_on s w = (case mkdir_comps AT_FDCWD (split_path s) w of (err, d, n, w) \<Rightarrow>
         (case mkdir_p_out err d n None [] w of (r, _, w) \<Rightarrow> (r, w)))"
      by (simp only: mkdir_p_on_def if_False)
    then show ?thesis using eq fin [OF o, of AT_FDCWD s] by simp
  next
    case True
    obtain d w1 where op: "sys_open ''/'' [O_PATH, O_DIRECTORY] w = (d, w1)" by fastforce
    from owns_opened [OF o sys_open_opened [OF op]] show ?thesis
    proof (elim disjE exE conjE)
      assume "d = -1" "owns w0 {} {} [] w1" "0 < errno w1"
      then show ?thesis using eq True op by (auto simp: mkdir_p_on_def)
    next
      fix k assume "d = int k" "owns w0 (insert k {}) {} [] w1"
      then show ?thesis using eq True op fin [of "{k}" w1 d "tl s"] by (simp add: mkdir_p_on_def)
    qed
  qed
qed

section \<open>Empty components\<close>

lemma sys_openat_empty: "sys_openat dirfd [] fl w = (n, w') \<Longrightarrow> n = -1 \<and> 0 < errno w'"
  by (auto simp: sys_openat_def lookup_path_def lookup_parent_def start_dir_def fail_with_def
      split: prod.splits fault.splits option.splits)

lemma comps_success:
  assumes "mkdir_comps dirfd (c # cs) w = (0, d, n, w')"
  shows "\<exists>m w1 w2. sys_openat dirfd c [O_PATH, O_DIRECTORY] w1 = (m, w2) \<and> 0 \<le> m \<and>
    mkdir_comps m cs (snd (sys_close dirfd w2)) = (0, d, n, w')"
proof -
  obtain r w1 where mk: "sys_mkdirat dirfd c w = (r, w1)" by fastforce
  obtain m w2 where op: "sys_openat dirfd c [O_PATH, O_DIRECTORY] w1 = (m, w2)" by fastforce
  have "r < 0 \<Longrightarrow> 0 < errno w1" using sys_mkdirat_plain [OF mk] by (auto simp: plain_result_def)
  then have "\<not> (r < 0 \<and> errno w1 \<noteq> errno_val EEXIST)" using assms mk by (auto split: if_splits)
  moreover have "m < 0 \<Longrightarrow> 0 < errno w2" using sys_openat_opened [OF op] by (auto simp: opened_def)
  ultimately have "0 \<le> m" "mkdir_comps m cs (snd (sys_close dirfd w2)) = (0, d, n, w')"
    using assms mk op by (auto split: if_splits)
  then show ?thesis using op by blast
qed

lemma comps_nonempty: "mkdir_comps dirfd cs w = (0, d, n, w') \<Longrightarrow> [] \<notin> set cs"
proof (induction cs arbitrary: dirfd w)
  case (Cons c cs)
  from comps_success [OF Cons.prems] Cons.IH sys_openat_empty show ?case by fastforce
qed simp

lemma comps_kind: "mkdir_comps dirfd cs w = (0, d, n, w') \<Longrightarrow> cs \<noteq> [] \<Longrightarrow> \<exists>k. d = int k"
proof (induction cs arbitrary: dirfd w)
  case (Cons c cs)
  from comps_success [OF Cons.prems(1)] obtain m w2 where
    m: "0 \<le> m" "mkdir_comps m cs (snd (sys_close dirfd w2)) = (0, d, n, w')" by blast
  show ?case
  proof (cases "cs = []")
    case True
    then show ?thesis using m by (intro exI [of _ "nat m"]) simp
  next
    case False
    then show ?thesis using Cons.IH m(2) by blast
  qed
qed simp

section \<open>The directories created\<close>

text \<open>What only adding directories leaves: every directory keeps its entries, every file its data.\<close>

definition grows :: "world \<Rightarrow> world \<Rightarrow> bool" where
  "grows w w' \<longleftrightarrow> root_ino w' = root_ino w \<and> cwd_ino w' = cwd_ino w \<and>
     (\<forall>k ents. dir_entries w k = Some ents \<longrightarrow>
       (\<exists>ents'. dir_entries w' k = Some ents' \<and> ents \<subseteq>\<^sub>m ents') \<and> dir_parent w' k = dir_parent w k) \<and>
     (\<forall>k b. file_data w k = Some b \<longrightarrow> file_data w' k = Some b)"

lemma grows_same:
  "inodes w' = inodes w \<Longrightarrow> root_ino w' = root_ino w \<Longrightarrow> cwd_ino w' = cwd_ino w \<Longrightarrow> grows w w'"
  by (simp add: grows_def dir_entries_def file_data_def dir_parent_def)

lemma growsD:
  "grows w w' \<Longrightarrow> dir_entries w k = Some e \<Longrightarrow>
    \<exists>e'. dir_entries w' k = Some e' \<and> e \<subseteq>\<^sub>m e' \<and> dir_parent w' k = dir_parent w k"
  unfolding grows_def by blast

lemma grows_trans: "grows w w1 \<Longrightarrow> grows w1 w2 \<Longrightarrow> grows w w2"
proof -
  assume a: "grows w w1" and b: "grows w1 w2"
  have "(\<exists>e2. dir_entries w2 k = Some e2 \<and> e \<subseteq>\<^sub>m e2) \<and> dir_parent w2 k = dir_parent w k"
    if e: "dir_entries w k = Some e" for k e
  proof -
    from growsD [OF a e] obtain e1 where
      e1: "dir_entries w1 k = Some e1" "e \<subseteq>\<^sub>m e1" "dir_parent w1 k = dir_parent w k" by blast
    from growsD [OF b e1(1)] e1(2,3) show ?thesis by (auto intro: map_le_trans)
  qed
  then show ?thesis using a b by (simp add: grows_def)
qed

lemma resolve_grows:
  "resolve (inodes w) i cs = Inr f \<Longrightarrow> grows w w' \<Longrightarrow> resolve (inodes w') i cs = Inr f"
proof (induction cs arbitrary: i)
  case (Cons c cs)
  from Cons.prems(1) obtain nd ents par where i: "inodes w i = Some nd" "i_content nd = Dir ents par"
    by (auto split: option.splits content.splits)
  then have "dir_entries w i = Some ents" "dir_parent w i = Some par"
    by (simp_all add: dir_entries_def dir_parent_def)
  with Cons.prems(2) obtain ents' where e: "dir_entries w' i = Some ents'" "ents \<subseteq>\<^sub>m ents'"
    "dir_parent w' i = Some par" unfolding grows_def by metis
  then obtain nd' where i': "inodes w' i = Some nd'" "i_content nd' = Dir ents' par"
    by (auto simp: dir_entries_def dir_parent_def split: option.splits content.splits)
  have "ents c = Some j \<Longrightarrow> ents' c = Some j" for j using e(2) by (auto simp: map_le_def dom_def)
  then show ?case using Cons i i' by (auto split: option.splits if_splits)
qed simp

lemma new_inode_dir:
  assumes "dir_entries w i = Some ents" "ents c = None" "fs_ok w"
    and "new_inode i c (Dir (\<lambda>_. None) i) w = (j, w')"
  shows "dir_entries w' i = Some (ents(c \<mapsto> j))" "dir_entries w' j = Some (\<lambda>_. None)" "grows w w'" "fs_ok w'"
    "faults w' = faults w" "fds w' = fds w" "fd_max w' = fd_max w"
proof -
  from dir_entries_content [OF assms(1)] obtain nd p where nd: "inodes w i = Some nd" "i_content nd = Dir ents p"
    by blast
  have j: "j = next_ino w" using assms(4) by (simp add: new_inode_def Let_def)
  have fresh: "inodes w j = None" using assms(3) j by (simp add: fs_ok_def)
  have ne: "j \<noteq> i" using nd fresh by auto
  have w': "w' = set_entry i c (Some j) (w\<lparr>next_ino := Suc j, inodes := (inodes w)(j \<mapsto>
      \<lparr>i_dev = i_dev nd, i_mtime_sec = clock_sec w, i_mtime_nsec = clock_nsec w, i_content = Dir (\<lambda>_. None) i\<rparr>)\<rparr>)"
    using assms(4) nd j by (simp add: new_inode_def Let_def)
  have in': "inodes w' k = (if k = i then Some (nd\<lparr>i_content := Dir (ents(c \<mapsto> j)) p,
        i_mtime_sec := clock_sec w, i_mtime_nsec := clock_nsec w\<rparr>)
      else if k = j then Some \<lparr>i_dev = i_dev nd, i_mtime_sec = clock_sec w, i_mtime_nsec = clock_nsec w,
        i_content = Dir (\<lambda>_. None) i\<rparr>
      else inodes w k)" for k
    using ne nd by (simp add: w' set_entry_def set_content_def)
  show de: "dir_entries w' i = Some (ents(c \<mapsto> j))" "dir_entries w' j = Some (\<lambda>_. None)"
    using ne by (simp_all add: dir_entries_def in')
  have "root_ino w' = root_ino w" "cwd_ino w' = cwd_ino w" "next_ino w' = Suc j"
    using ne nd by (simp_all add: w' set_entry_def set_content_def)
  moreover have "dir_entries w k = Some e \<Longrightarrow> \<exists>e'. dir_entries w' k = Some e' \<and> e \<subseteq>\<^sub>m e'" for k e
    using assms(1,2) fresh nd by (auto simp: dir_entries_def in' map_le_def)
  moreover have "dir_entries w k = Some e \<Longrightarrow> dir_parent w' k = dir_parent w k" for k e
    using fresh nd by (auto simp: dir_parent_def dir_entries_def in')
  moreover have "file_data w k = Some b \<Longrightarrow> file_data w' k = Some b" for k b
    using fresh nd by (auto simp: file_data_def in')
  ultimately show "grows w w'" "fs_ok w'"
    using assms(3) nd j by (auto simp: grows_def fs_ok_def in')
  show "faults w' = faults w" "fds w' = fds w" "fd_max w' = fd_max w"
    using fd_max_new_inode [of i c "Dir (\<lambda>_. None) i" w] assms(4) by simp_all
qed


text \<open>The descriptor the loop works in designates the directory \<open>i\<close>.\<close>

definition at_dir :: "world \<Rightarrow> int \<Rightarrow> ino \<Rightarrow> bool" where
  "at_dir w dirfd i \<longleftrightarrow> dirfd = AT_FDCWD \<and> cwd_ino w = i \<or> (\<exists>k. dirfd = int k \<and> fds w k = Some (OPath i))"

text \<open>One descriptor to spare, besides the one the loop holds.\<close>

definition spare :: "world \<Rightarrow> int \<Rightarrow> bool" where
  "spare w dirfd \<longleftrightarrow> dirfd = AT_FDCWD \<and> room 2 w \<or> (\<exists>k. dirfd = int k \<and> fds w k \<noteq> None \<and> k < fd_max w \<and> room 1 w)"

lemma lookup_component:
  assumes "at_dir w dirfd i" "dir_entries w i = Some ents" "plain_name c"
  shows "lookup_path w dirfd c = (case ents c of None \<Rightarrow> Inl ENOENT | Some j \<Rightarrow> Inr j)"
    "lookup_parent w dirfd c = Inr (i, c)"
proof -
  have c: "hd c \<noteq> CHR ''/''" "c \<noteq> []" "c \<noteq> ''.''" "c \<noteq> ''..''" "CHR ''/'' \<notin> set c"
    using assms(3) hd_in_set [of c] unfolding plain_name_def by metis+
  then have st: "start_dir w dirfd c = Inr i"
    using assms(1) by (auto simp: start_dir_def at_dir_def AT_FDCWD_def)
  have sp: "split_path c = [c]" using c by (simp add: split_path_no_slash)
  from dir_entries_content [OF assms(2)] obtain nd p where "inodes w i = Some nd" "i_content nd = Dir ents p"
    by blast
  then show "lookup_path w dirfd c = (case ents c of None \<Rightarrow> Inl ENOENT | Some j \<Rightarrow> Inr j)"
    using c by (cases "ents c") (simp_all add: lookup_path_def st sp)
  show "lookup_parent w dirfd c = Inr (i, c)" by (simp add: lookup_parent_def st sp)
qed

lemma quiet_opendir:
  assumes "faults w = []" "at_dir w dirfd i" "dir_entries w i = Some ents" "plain_name c" "ents c = Some j"
    and "free_fd w = Some m"
  shows "dir_entries w j \<noteq> None \<Longrightarrow>
      sys_openat dirfd c [O_PATH, O_DIRECTORY] w = (int m, w\<lparr>fds := (fds w)(m \<mapsto> OPath j)\<rparr>)"
    and "file_data w j \<noteq> None \<Longrightarrow>
      sys_openat dirfd c [O_PATH, O_DIRECTORY] w = (-1, w\<lparr>errno := errno_val ENOTDIR\<rparr>)"
proof -
  note l = lookup_component(1) [OF assms(2-4)]
  show "dir_entries w j \<noteq> None \<Longrightarrow>
      sys_openat dirfd c [O_PATH, O_DIRECTORY] w = (int m, w\<lparr>fds := (fds w)(m \<mapsto> OPath j)\<rparr>)"
    using assms(5,6) by (auto simp: sys_openat_def quiet_fault [OF assms(1)] l open_existing_def install_fd_def
      open_obj_def dir_entries_def split: option.splits content.splits)
  show "file_data w j \<noteq> None \<Longrightarrow>
      sys_openat dirfd c [O_PATH, O_DIRECTORY] w = (-1, w\<lparr>errno := errno_val ENOTDIR\<rparr>)"
    using assms(5,6) by (auto simp: sys_openat_def quiet_fault [OF assms(1)] l open_existing_def fail_with_def
      file_data_def split: option.splits content.splits)
qed

lemma quiet_mkdirat:
  assumes "faults w = []" "at_dir w dirfd i" "dir_entries w i = Some ents" "plain_name c"
  shows "ents c = Some j \<Longrightarrow> sys_mkdirat dirfd c w = (-1, w\<lparr>errno := errno_val EEXIST\<rparr>)"
    and "ents c = None \<Longrightarrow> sys_mkdirat dirfd c w = (0, snd (new_inode i c (Dir (\<lambda>_. None) i) w))"
  using lookup_component [OF assms(2-4)] assms(3,4)
  by (simp_all add: sys_mkdirat_def quiet_fault [OF assms(1)] fail_with_def plain_name_def)

lemma spare_free:
  assumes "spare w dirfd"
  shows "\<exists>m. free_fd w = Some m \<and> fds w m = None \<and> m < fd_max w \<and> dirfd \<noteq> int m"
proof -
  have "room (Suc 0) w" using assms by (auto simp: spare_def room_def)
  from room_free [OF this] assms show ?thesis by (auto simp: spare_def AT_FDCWD_def)
qed

lemma spare_next:
  fixes f :: fd_obj
  assumes sp: "spare w dirfd" and m: "free_fd w = Some m" "fds w m = None" "m < fd_max w" "dirfd \<noteq> int m"
    and q: "faults w = []"
  defines "w' \<equiv> snd (sys_close dirfd (w\<lparr>fds := (fds w)(m \<mapsto> f)\<rparr>))"
  shows "spare w' (int m)" "inodes w' = inodes w" "faults w' = []" "fds w' m = Some f"
    "root_ino w' = root_ino w" "cwd_ino w' = cwd_ino w" "next_ino w' = next_ino w"
proof -
  let ?w = "w\<lparr>fds := (fds w)(m \<mapsto> f)\<rparr>"
  have "spare w' (int m) \<and> inodes w' = inodes w \<and> faults w' = [] \<and> fds w' m = Some f \<and>
    root_ino w' = root_ino w \<and> cwd_ino w' = cwd_ino w \<and> next_ino w' = next_ino w"
    using sp unfolding spare_def [of w]
  proof (elim disjE conjE exE)
    assume d: "dirfd = AT_FDCWD" and rm: "room 2 w"
    have w': "w' = ?w\<lparr>errno := errno_val EBADF\<rparr>"
      unfolding w'_def by (simp add: d sys_close_def fd_lookup_def AT_FDCWD_def fail_with_def)
    have "room 1 w'" using rm m by (intro room_install [of 1 w m w' f]) (simp_all add: w' numeral_2_eq_2)
    then show ?thesis using m q by (simp add: w' spare_def)
  next
    fix k assume d: "dirfd = int k" and k: "fds w k \<noteq> None" "k < fd_max w" and rm: "room 1 w"
    have km: "k \<noteq> m" using d m by auto
    have w': "w' = ?w\<lparr>fds := (fds w)(m \<mapsto> f, k := None), flocks := (flocks w)(k := None)\<rparr>"
      unfolding w'_def d using k(1) km q by (subst quiet_close) (simp_all add: fun_upd_twist)
    have "{n. n < fd_max w' \<and> fds w' n = None} \<supseteq> {k}" using k km by (auto simp: w')
    then have "card {k} \<le> card {n. n < fd_max w' \<and> fds w' n = None}" by (intro card_mono) simp_all
    then have "room 1 w'" by (simp add: room_def)
    then show ?thesis using m km q by (simp add: w' spare_def)
  qed
  then show "spare w' (int m)" "inodes w' = inodes w" "faults w' = []" "fds w' m = Some f"
    "root_ino w' = root_ino w" "cwd_ino w' = cwd_ino w" "next_ino w' = next_ino w" by simp_all
qed


text \<open>No component on the way is a file; or the way reaches a file.\<close>

fun dirs_only :: "world \<Rightarrow> ino \<Rightarrow> cstring list \<Rightarrow> bool" where
  "dirs_only w i [] = (dir_entries w i \<noteq> None)"
| "dirs_only w i (c # cs) =
    (case dir_entries w i of None \<Rightarrow> False
     | Some ents \<Rightarrow> (case ents c of None \<Rightarrow> True | Some j \<Rightarrow> dirs_only w j cs))"

fun blocked :: "world \<Rightarrow> ino \<Rightarrow> cstring list \<Rightarrow> bool" where
  "blocked w i [] = False"
| "blocked w i (c # cs) =
    (case dir_entries w i of None \<Rightarrow> False
     | Some ents \<Rightarrow> (case ents c of None \<Rightarrow> False | Some j \<Rightarrow> file_data w j \<noteq> None \<or> blocked w j cs))"

lemma dirs_only_dir: "dirs_only w i cs \<Longrightarrow> dir_entries w i \<noteq> None"
  by (cases cs) (auto split: option.splits)

lemma blocked_dir: "blocked w i cs \<Longrightarrow> dir_entries w i \<noteq> None"
  by (cases cs) (auto split: option.splits)

lemma way_same:
  assumes "inodes w' = inodes w"
  shows "dirs_only w' i cs = dirs_only w i cs" "blocked w' i cs = blocked w i cs"
  by (induction cs arbitrary: i) (simp_all add: inodes_same [OF assms] split: option.split)

lemma resolve_step:
  assumes "dir_entries w i = Some ents" "plain_name c"
  shows "resolve (inodes w) i (c # cs) = (case ents c of None \<Rightarrow> Inl ENOENT | Some j \<Rightarrow> resolve (inodes w) j cs)"
  using dir_entries_content [OF assms(1)] assms(2) by (auto simp: plain_name_def)

text \<open>One turn of the loop on a component that exists, and on one that does not.\<close>

lemma comps_step_exists:
  assumes "faults w = []" "at_dir w dirfd i" "dir_entries w i = Some ents" "plain_name c"
    and "ents c = Some j" "dir_entries w j \<noteq> None" "spare w dirfd"
  shows "\<exists>m w1. mkdir_comps dirfd (c # cs) w = mkdir_comps (int m) cs w1 \<and> spare w1 (int m) \<and>
    at_dir w1 (int m) j \<and> inodes w1 = inodes w \<and> faults w1 = [] \<and> root_ino w1 = root_ino w \<and>
    cwd_ino w1 = cwd_ino w \<and> next_ino w1 = next_ino w"
proof -
  let ?e = "w\<lparr>errno := errno_val EEXIST\<rparr>"
  from spare_free [OF assms(7)] obtain m where m: "free_fd w = Some m" "fds w m = None" "m < fd_max w"
    "dirfd \<noteq> int m" by blast
  have e: "at_dir ?e dirfd i" "dir_entries ?e i = Some ents" "free_fd ?e = Some m" "faults ?e = []"
    "dir_entries ?e j \<noteq> None" "spare ?e dirfd" "fds ?e m = None" "m < fd_max ?e"
    using assms m by (simp_all add: at_dir_def dir_entries_def free_fd_def spare_def room_def)
  note op = quiet_opendir(1) [OF e(4,1,2) assms(4,5) e(3,5)]
  note sp = spare_next [OF e(6,3,7,8) m(4) e(4), of "OPath j"]
  show ?thesis
    using quiet_mkdirat(1) [OF assms(1-5)] op sp by (auto simp: at_dir_def intro!: exI [of _ m])
qed

lemma comps_step_new:
  assumes "faults w = []" "at_dir w dirfd i" "dir_entries w i = Some ents" "plain_name c"
    and "ents c = None" "spare w dirfd" "fs_ok w"
  shows "\<exists>m w1 j. mkdir_comps dirfd (c # cs) w = mkdir_comps (int m) cs w1 \<and> spare w1 (int m) \<and>
    at_dir w1 (int m) j \<and> faults w1 = [] \<and> fs_ok w1 \<and> grows w w1 \<and>
    dir_entries w1 i = Some (ents(c \<mapsto> j)) \<and> dir_entries w1 j = Some (\<lambda>_. None)"
proof -
  from spare_free [OF assms(6)] obtain m where m: "free_fd w = Some m" "fds w m = None" "m < fd_max w"
    "dirfd \<noteq> int m" by blast
  obtain j w2 where ni: "new_inode i c (Dir (\<lambda>_. None) i) w = (j, w2)" by fastforce
  note n = new_inode_dir [OF assms(3,5,7) ni]
  have cw: "cwd_ino w2 = cwd_ino w" using n(3) by (simp add: grows_def)
  have e: "at_dir w2 dirfd i" "free_fd w2 = Some m" "faults w2 = []" "spare w2 dirfd" "fds w2 m = None"
    "m < fd_max w2"
    using assms m n cw by (simp_all add: at_dir_def free_fd_def spare_def room_def)
  have c: "(ents(c \<mapsto> j)) c = Some j" "dir_entries w2 j \<noteq> None" using n(2) by simp_all
  note op = quiet_opendir(1) [OF e(3,1) n(1) assms(4) c(1) e(2) c(2)]
  let ?w1 = "snd (sys_close dirfd (w2\<lparr>fds := (fds w2)(m \<mapsto> OPath j)\<rparr>))"
  note sp = spare_next [OF e(4,2,5,6) m(4) e(3), of "OPath j"]
  have "grows w ?w1" using grows_trans [OF n(3) grows_same [OF sp(2,5,6)]] .
  moreover have "fs_ok ?w1" using n(4) sp(2,7) by (simp add: fs_ok_def)
  moreover have "mkdir_comps dirfd (c # cs) w = mkdir_comps (int m) cs ?w1"
    using quiet_mkdirat(2) [OF assms(1-5)] ni op by simp
  moreover have "at_dir ?w1 (int m) j" using sp(4) by (simp add: at_dir_def)
  moreover have "dir_entries ?w1 i = Some (ents(c \<mapsto> j))" "dir_entries ?w1 j = Some (\<lambda>_. None)"
    using n(1,2) inodes_same(1) [OF sp(2)] by simp_all
  ultimately show ?thesis using sp(1,3) by blast
qed

lemma comps_creates:
  assumes "faults w = []" "fs_ok w" "at_dir w dirfd i" "list_all plain_name cs" "dirs_only w i cs" "spare w dirfd"
  shows "\<exists>d f w'. mkdir_comps dirfd cs w = (0, d, -1, w') \<and> at_dir w' d f \<and>
    resolve (inodes w') i cs = Inr f \<and> dir_entries w' f \<noteq> None \<and> grows w w' \<and>
    (\<forall>f0. resolve (inodes w) i cs = Inr f0 \<longrightarrow> inodes w' = inodes w)"
  using assms
proof (induction cs arbitrary: dirfd i w)
  case Nil
  then show ?case by (auto intro!: grows_same)
next
  case (Cons c cs)
  from dirs_only_dir [OF Cons.prems(5)] obtain ents where ents: "dir_entries w i = Some ents" by blast
  have c: "plain_name c" "list_all plain_name cs" using Cons.prems(4) by simp_all
  show ?case
  proof (cases "ents c")
    case (Some j)
    with Cons.prems(5) ents have dj: "dirs_only w j cs" by simp
    from comps_step_exists [OF Cons.prems(1,3) ents c(1) Some dirs_only_dir [OF dj] Cons.prems(6), of cs]
    obtain m w1 where st: "mkdir_comps dirfd (c # cs) w = mkdir_comps (int m) cs w1" "spare w1 (int m)"
      "at_dir w1 (int m) j" "faults w1 = []" and sm: "inodes w1 = inodes w" "root_ino w1 = root_ino w"
      "cwd_ino w1 = cwd_ino w" "next_ino w1 = next_ino w" by blast
    have "fs_ok w1" using Cons.prems(2) sm by (simp add: fs_ok_def)
    from Cons.IH [OF st(4) this st(3) c(2) _ st(2)] dj way_same [OF sm(1)] obtain d f w' where
      r: "mkdir_comps (int m) cs w1 = (0, d, -1, w')" "at_dir w' d f" "resolve (inodes w') j cs = Inr f"
        "dir_entries w' f \<noteq> None" "grows w1 w'" "\<forall>f0. resolve (inodes w1) j cs = Inr f0 \<longrightarrow> inodes w' = inodes w1"
      by auto
    have g: "grows w w'" using grows_trans [OF grows_same [OF sm(1-3)] r(5)] .
    from growsD [OF this ents] obtain ents' where e': "dir_entries w' i = Some ents'" "ents \<subseteq>\<^sub>m ents'" by blast
    then have "ents' c = Some j" using Some by (auto simp: map_le_def dom_def)
    then have "resolve (inodes w') i (c # cs) = Inr f" using resolve_step [OF e'(1) c(1)] r(3) by simp
    moreover have "resolve (inodes w) i (c # cs) = resolve (inodes w) j cs"
      using resolve_step [OF ents c(1)] Some by simp
    ultimately show ?thesis using st(1) r g sm(1) by auto
  next
    case None
    from comps_step_new [OF Cons.prems(1,3) ents c(1) None Cons.prems(6,2), of cs] obtain m w1 j where
      st: "mkdir_comps dirfd (c # cs) w = mkdir_comps (int m) cs w1" "spare w1 (int m)" "at_dir w1 (int m) j"
        "faults w1 = []" "fs_ok w1" "grows w w1" "dir_entries w1 i = Some (ents(c \<mapsto> j))"
        "dir_entries w1 j = Some (\<lambda>_. None)" by blast
    have "dirs_only w1 j cs" using st(8) by (cases cs) simp_all
    from Cons.IH [OF st(4,5,3) c(2) this st(2)] obtain d f w' where
      r: "mkdir_comps (int m) cs w1 = (0, d, -1, w')" "at_dir w' d f" "resolve (inodes w') j cs = Inr f"
        "dir_entries w' f \<noteq> None" "grows w1 w'" by blast
    from growsD [OF r(5) st(7)] obtain ents' where e': "dir_entries w' i = Some ents'" "ents(c \<mapsto> j) \<subseteq>\<^sub>m ents'"
      by blast
    then have "ents' c = Some j" by (auto simp: map_le_def dom_def)
    then have "resolve (inodes w') i (c # cs) = Inr f" using resolve_step [OF e'(1) c(1)] r(3) by simp
    moreover have "resolve (inodes w) i (c # cs) = Inl ENOENT" using resolve_step [OF ents c(1)] None by simp
    ultimately show ?thesis using st(1) r grows_trans [OF st(6) r(5)] by auto
  qed
qed

lemma comps_blocked:
  assumes "faults w = []" "at_dir w dirfd i" "list_all plain_name cs" "blocked w i cs" "spare w dirfd"
  shows "\<exists>d w'. mkdir_comps dirfd cs w = (- errno_val ENOTDIR, d, -1, w') \<and> inodes w' = inodes w"
  using assms
proof (induction cs arbitrary: dirfd i w)
  case (Cons c cs)
  from blocked_dir [OF Cons.prems(4)] obtain ents where ents: "dir_entries w i = Some ents" by blast
  have c: "plain_name c" "list_all plain_name cs" using Cons.prems(3) by simp_all
  from Cons.prems(4) ents obtain j where j: "ents c = Some j" "file_data w j \<noteq> None \<or> blocked w j cs"
    by (auto split: option.splits)
  show ?case
  proof (cases "file_data w j = None")
    case False
    let ?e = "w\<lparr>errno := errno_val EEXIST\<rparr>"
    from spare_free [OF Cons.prems(5)] obtain m where m: "free_fd w = Some m" by blast
    have "at_dir ?e dirfd i" "dir_entries ?e i = Some ents" "free_fd ?e = Some m" "faults ?e = []"
      "file_data ?e j \<noteq> None"
      using Cons.prems ents m False by (simp_all add: at_dir_def dir_entries_def free_fd_def file_data_def)
    from quiet_opendir(2) [OF this(4,1,2) c(1) j(1) this(3,5)]
    show ?thesis using quiet_mkdirat(1) [OF Cons.prems(1,2) ents c(1) j(1)] by simp
  next
    case True
    then have b: "blocked w j cs" using j(2) by simp
    from comps_step_exists [OF Cons.prems(1,2) ents c(1) j(1) blocked_dir [OF b] Cons.prems(5), of cs]
    obtain m w1 where st: "mkdir_comps dirfd (c # cs) w = mkdir_comps (int m) cs w1" "spare w1 (int m)"
      "at_dir w1 (int m) j" "faults w1 = []" and sm: "inodes w1 = inodes w" by blast
    from Cons.IH [OF st(4,3) c(2) _ st(2)] b way_same [OF sm] show ?thesis using st(1) sm by auto
  qed
qed simp


lemma sys_close_inodes [simp]: "inodes (snd (sys_close n w)) = inodes w"
  by (auto simp: sys_close_def fail_with_def next_fault_def Let_def split: option.split list.split fault.split)

section \<open>The function\<close>

definition absolute :: "cstring \<Rightarrow> bool" where
  "absolute s \<longleftrightarrow> s \<noteq> [] \<and> hd s = CHR ''/''"

text \<open>Where the path starts and the components the function creates.\<close>

definition path_base :: "world \<Rightarrow> cstring \<Rightarrow> ino" where
  "path_base w s = (if absolute s then root_ino w else cwd_ino w)"

definition path_comps :: "cstring \<Rightarrow> cstring list" where
  "path_comps s = split_path (if absolute s then tl s else s)"

lemma lookup_path_comps:
  assumes "s \<noteq> []" "dir_entries w (path_base w s) \<noteq> None"
  shows "lookup_path w AT_FDCWD s = resolve (inodes w) (path_base w s) (path_comps s)"
proof (cases "absolute s")
  case True
  then obtain t where s: "s = CHR ''/'' # t" by (cases s) (auto simp: absolute_def)
  from assms(2) True obtain ents where "dir_entries w (root_ino w) = Some ents" by (auto simp: path_base_def)
  from dir_entries_content [OF this] True show ?thesis
    by (auto simp: lookup_path_def start_dir_def path_base_def path_comps_def s)
next
  case False
  then show ?thesis using assms(1)
    by (simp add: lookup_path_def start_dir_def path_base_def path_comps_def absolute_def)
qed

text \<open>The state in which the loop starts.\<close>

lemma mkdir_p_start:
  assumes "faults w = []" "dir_entries w (path_base w s) \<noteq> None" "room 2 w"
  shows "\<exists>d w1. mkdir_p_on s w = (case mkdir_comps d (path_comps s) w1 of (err, d, n, w) \<Rightarrow>
      (case mkdir_p_out err d n None [] w of (r, _, w) \<Rightarrow> (r, w))) \<and>
    at_dir w1 d (path_base w s) \<and> spare w1 d \<and> faults w1 = [] \<and> inodes w1 = inodes w \<and>
    root_ino w1 = root_ino w \<and> cwd_ino w1 = cwd_ino w \<and> next_ino w1 = next_ino w"
proof (cases "absolute s")
  case False
  then have "mkdir_p_on s w = (case mkdir_comps AT_FDCWD (path_comps s) w of (err, d, n, w) \<Rightarrow>
      (case mkdir_p_out err d n None [] w of (r, _, w) \<Rightarrow> (r, w)))"
    by (simp only: mkdir_p_on_def path_comps_def absolute_def if_False)
  then show ?thesis using False assms(1,3)
    by (intro exI [of _ AT_FDCWD] exI [of _ w]) (simp add: at_dir_def path_base_def spare_def)
next
  case True
  have rm: "room (Suc 1) w" using assms(3) by (simp add: numeral_2_eq_2)
  from room_free [OF rm] obtain m where m: "free_fd w = Some m" "fds w m = None" "m < fd_max w" by blast
  let ?w1 = "w\<lparr>fds := (fds w)(m \<mapsto> OPath (root_ino w))\<rparr>"
  have d: "dir_entries w (root_ino w) \<noteq> None" using assms(2) True by (simp add: path_base_def)
  then obtain nd ents p where nd: "inodes w (root_ino w) = Some nd" "i_content nd = Dir ents p"
    using dir_entries_content by blast
  have "lookup_path w AT_FDCWD ''/'' = Inr (root_ino w)"
    using nd by (simp add: lookup_path_def start_dir_def)
  then have op: "sys_open ''/'' [O_PATH, O_DIRECTORY] w = (int m, ?w1)"
    using m(1) nd by (simp add: sys_open_def sys_openat_def quiet_fault [OF assms(1)] open_existing_def
      install_fd_def open_obj_def)
  have "room 1 ?w1" using rm m(2,3) by (rule room_install) simp_all
  then have "spare ?w1 (int m)" using m(3) by (simp add: spare_def)
  moreover have "mkdir_p_on s w = (case mkdir_comps (int m) (path_comps s) ?w1 of (err, d, n, w) \<Rightarrow>
      (case mkdir_p_out err d n None [] w of (r, _, w) \<Rightarrow> (r, w)))"
    using True op by (simp add: mkdir_p_on_def path_comps_def absolute_def)
  ultimately show ?thesis using True assms(1)
    by (intro exI [of _ "int m"] exI [of _ ?w1]) (simp add: at_dir_def path_base_def)
qed

section \<open>Properties\<close>

text \<open>C11. Whatever system calls fail, \<open>mkdir_p\<close> leaves the caller's path as it was: every
  slash it overwrote is put back, on the error paths too.\<close>

theorem mkdir_p_restores_path:
  assumes "NUL \<notin> set s" "mkdir_p (path_buf s post) w = (r, buf, w')"
  shows "buf = path_buf s post"
  using assms(2) by (simp add: mkdir_p_path [OF assms(1)] split: prod.splits)

text \<open>A file system with a directory \<open>/d\<close> and a file \<open>/f\<close>.\<close>

definition tree_world :: "fault list \<Rightarrow> world" where
  "tree_world fs = \<lparr>inodes = (\<lambda>_. None)
      (0 \<mapsto> \<lparr>i_dev = 1, i_mtime_sec = 0, i_mtime_nsec = 0,
         i_content = Dir ((\<lambda>_. None)(''f'' \<mapsto> 2, ''d'' \<mapsto> 1)) 0\<rparr>,
       1 \<mapsto> \<lparr>i_dev = 1, i_mtime_sec = 0, i_mtime_nsec = 0, i_content = Dir (\<lambda>_. None) 0\<rparr>,
       2 \<mapsto> \<lparr>i_dev = 1, i_mtime_sec = 0, i_mtime_nsec = 0, i_content = Reg ''data''\<rparr>),
     root_ino = 0, cwd_ino = 0, next_ino = 3, clock_sec = 5, clock_nsec = 0,
     fds = \<lambda>_. None, fd_max = 8, flocks = \<lambda>_. None, heap = \<lambda>_. None, next_ptr = 1,
     errno = 0, faults = fs, stack_byte = \<lambda>_. CHR ''x'', ub_log = []\<rparr>"

lemma tree_world_ok: "proc_ok (tree_world fs)" "fs_ok (tree_world fs)" "room 2 (tree_world fs)"
    "faults (tree_world fs) = fs"
proof -
  have "{n. n < fd_max (tree_world fs) \<and> fds (tree_world fs) n = None} = {0..<8}"
    by (auto simp: tree_world_def)
  then show "room 2 (tree_world fs)" by (simp add: room_def)
qed (simp_all add: tree_world_def proc_ok_def heap_ok_def fs_ok_def)

theorem mkdir_p_restores_path_witness:
  "fst (snd (mkdir_p (path_buf ''/d/x/y'' []) (tree_world [Pass, Fail EIO]))) = path_buf ''/d/x/y'' []"
  by (rule mkdir_p_restores_path [of "''/d/x/y''" "[]" "tree_world [Pass, Fail EIO]", OF _ prod_eqI])
    (simp_all add: prod_eq_iff)

text \<open>C10. Whatever system calls fail, a failed call leaks nothing, and a successful one leaves
  exactly one more descriptor open, the one it returns.\<close>

theorem mkdir_p_no_leak:
  assumes "proc_ok w" "NUL \<notin> set s" "mkdir_p (path_buf s post) w = (r, buf, w')"
  shows "(r < 0 \<and> fds w' = fds w \<and> flocks w' = flocks w \<or>
     (\<exists>k f. r = int k \<and> fds w k = None \<and> fds w' = (fds w)(k \<mapsto> f))) \<and>
    heap w' = heap w \<and> ub_log w' = ub_log w"
proof -
  have on: "mkdir_p_on s w = (r, w')"
    using assms(3) by (simp add: mkdir_p_path [OF assms(2)] split: prod.splits)
  from mkdir_p_on_owns [OF owns_start [OF assms(1)] on] show ?thesis
  proof (elim disjE exE conjE)
    assume "r < 0" "owns w {} {} [] w'"
    then show ?thesis using owns_end [of w "[]" w'] by simp
  next
    fix k assume k: "r = int k" and o: "owns w {k} {} [] w'"
    then obtain f where "fds w' k = Some f" "fds w k = None" by (auto simp: owns_def)
    moreover from this o have "fds w' = (fds w)(k \<mapsto> f)" by (auto simp: owns_def fun_eq_iff)
    ultimately show ?thesis using k o by (auto simp: owns_def fun_eq_iff)
  qed
qed

theorem mkdir_p_no_leak_witness:
  "heap (snd (snd (mkdir_p (path_buf ''/d/x/y'' []) (tree_world [Pass, Fail EIO])))) = (\<lambda>_. None)"
proof -
  obtain r buf w' where m: "mkdir_p (path_buf ''/d/x/y'' []) (tree_world [Pass, Fail EIO]) = (r, buf, w')"
    by (metis prod_cases3)
  from mkdir_p_no_leak [OF tree_world_ok(1) _ m] m show ?thesis by (simp add: tree_world_def)
qed

text \<open>C9. \<open>mkdir_p\<close> creates the directory. On a system without faults, for a path whose
  components are ordinary names and on whose way there is no file, it returns a descriptor of
  the directory that the path designates afterwards; nothing that existed is lost, and when
  the directory existed the file system does not change at all.\<close>

theorem mkdir_p_creates:
  assumes "faults w = []" "fs_ok w" "room 2 w" "s \<noteq> []" "NUL \<notin> set s"
    and "list_all plain_name (path_comps s)" "dirs_only w (path_base w s) (path_comps s)"
  shows "\<exists>k f w'. mkdir_p (path_buf s post) w = (int k, path_buf s post, w') \<and>
    fds w' k = Some (OPath f) \<and> lookup_path w' AT_FDCWD s = Inr f \<and> dir_entries w' f \<noteq> None \<and>
    grows w w' \<and> (\<forall>f0. lookup_path w AT_FDCWD s = Inr f0 \<longrightarrow> inodes w' = inodes w)"
proof -
  note base = dirs_only_dir [OF assms(7)]
  from mkdir_p_start [OF assms(1) base assms(3)] obtain d w1 where
    on: "mkdir_p_on s w = (case mkdir_comps d (path_comps s) w1 of (err, d, n, w) \<Rightarrow>
      (case mkdir_p_out err d n None [] w of (r, _, w) \<Rightarrow> (r, w)))"
    and st: "at_dir w1 d (path_base w s)" "spare w1 d" "faults w1 = []"
    and sm: "inodes w1 = inodes w" "root_ino w1 = root_ino w" "cwd_ino w1 = cwd_ino w" "next_ino w1 = next_ino w"
    by blast
  have "fs_ok w1" using assms(2) sm by (simp add: fs_ok_def)
  from comps_creates [OF st(3) this st(1) assms(6) _ st(2)] assms(7) way_same [OF sm(1)] obtain d' f w' where
    c: "mkdir_comps d (path_comps s) w1 = (0, d', -1, w')" "at_dir w' d' f"
      "resolve (inodes w') (path_base w s) (path_comps s) = Inr f" "dir_entries w' f \<noteq> None" "grows w1 w'"
      "\<forall>f0. resolve (inodes w1) (path_base w s) (path_comps s) = Inr f0 \<longrightarrow> inodes w' = inodes w1" by auto
  have g: "grows w w'" using grows_trans [OF grows_same [OF sm(1-3)] c(5)] .
  have bs: "path_base w' s = path_base w s" using g by (simp add: path_base_def grows_def)
  have "dir_entries w' (path_base w' s) \<noteq> None" using growsD [OF g] base bs by fastforce
  note l = lookup_path_comps [OF assms(4) this] lookup_path_comps [OF assms(4) base]
  have "mkdir_p (path_buf s post) w = (d', path_buf s post, w')"
    by (simp add: mkdir_p_path [OF assms(5)] on c(1) mkdir_p_out_def)
  moreover have "path_comps s \<noteq> []" by (simp add: path_comps_def)
  then have "\<exists>k. d' = int k" using comps_kind [OF c(1)] by simp
  ultimately show ?thesis using c(2,3,4,6) g l bs sm(1) by (auto simp: at_dir_def AT_FDCWD_def)
qed

theorem mkdir_p_creates_witness:
  "\<exists>k f w'. mkdir_p (path_buf ''/d/x/y'' []) (tree_world []) = (int k, path_buf ''/d/x/y'' [], w') \<and>
    lookup_path w' AT_FDCWD ''/d/x/y'' = Inr f \<and> file_data w' 2 = Some ''data''"
proof -
  have p: "path_comps ''/d/x/y'' = [''d'', ''x'', ''y'']" "path_base w ''/d/x/y'' = root_ino w" for w
    by (simp_all add: path_comps_def path_base_def absolute_def)
  have "dirs_only (tree_world []) (path_base (tree_world []) ''/d/x/y'') (path_comps ''/d/x/y'')"
    unfolding p by (simp add: dir_entries_def tree_world_def)
  from mkdir_p_creates [OF tree_world_ok(4,2,3) _ _ _ this, of "[]"]
  obtain k f w' where "mkdir_p (path_buf ''/d/x/y'' []) (tree_world []) = (int k, path_buf ''/d/x/y'' [], w')"
    "lookup_path w' AT_FDCWD ''/d/x/y'' = Inr f" "grows (tree_world []) w'"
    by (auto simp: p plain_name_def)
  moreover have "file_data (tree_world []) 2 = Some ''data''" by (simp add: file_data_def tree_world_def)
  ultimately show ?thesis unfolding grows_def by blast
qed

text \<open>C12. A file in the way makes \<open>mkdir_p\<close> fail with \<open>ENOTDIR\<close> and nothing is created.\<close>

theorem mkdir_p_file_in_the_way:
  assumes "faults w = []" "room 2 w" "NUL \<notin> set s"
    and "list_all plain_name (path_comps s)" "blocked w (path_base w s) (path_comps s)"
  shows "\<exists>w'. mkdir_p (path_buf s post) w = (- errno_val ENOTDIR, path_buf s post, w') \<and> inodes w' = inodes w"
proof -
  from mkdir_p_start [OF assms(1) blocked_dir [OF assms(5)] assms(2)] obtain d w1 where
    on: "mkdir_p_on s w = (case mkdir_comps d (path_comps s) w1 of (err, d, n, w) \<Rightarrow>
      (case mkdir_p_out err d n None [] w of (r, _, w) \<Rightarrow> (r, w)))"
    and st: "at_dir w1 d (path_base w s)" "spare w1 d" "faults w1 = []" and sm: "inodes w1 = inodes w"
    by blast
  from comps_blocked [OF st(3,1) assms(4) _ st(2)] assms(5) way_same [OF sm] obtain d' w' where
    c: "mkdir_comps d (path_comps s) w1 = (- errno_val ENOTDIR, d', -1, w')" "inodes w' = inodes w1" by auto
  then show ?thesis using sm by (simp add: mkdir_p_path [OF assms(3)] on mkdir_p_out_def sys_close_inodes)
qed

theorem mkdir_p_file_in_the_way_witness:
  "\<exists>w'. mkdir_p (path_buf ''f/x'' []) (tree_world []) = (-20, path_buf ''f/x'' [], w') \<and>
    inodes w' = inodes (tree_world [])"
proof -
  have p: "path_comps ''f/x'' = [''f'', ''x'']" "path_base w ''f/x'' = cwd_ino w" for w
    by (simp_all add: path_comps_def path_base_def absolute_def)
  have "blocked (tree_world []) (path_base (tree_world []) ''f/x'') (path_comps ''f/x'')"
    unfolding p by (simp add: dir_entries_def file_data_def tree_world_def)
  from mkdir_p_file_in_the_way [OF tree_world_ok(4,3) _ _ this, of "[]"] show ?thesis
    by (simp add: p plain_name_def)
qed

text \<open>C13. Empty components are never accepted: a path with a trailing slash or with two
  slashes in a row (after the leading one) fails, whatever the state of the system.\<close>

theorem mkdir_p_no_empty_component:
  assumes "NUL \<notin> set s" "proc_ok w" "[] \<in> set (path_comps s)"
  shows "fst (mkdir_p (path_buf s post) w) < 0"
proof (rule ccontr)
  assume nn: "\<not> fst (mkdir_p (path_buf s post) w) < 0"
  obtain r w' where on: "mkdir_p_on s w = (r, w')" by fastforce
  then have r: "\<not> r < 0" using nn by (simp add: mkdir_p_path [OF assms(1)])
  have fin: False
    if "owns w D {} [] w1" "dirfd = AT_FDCWD \<and> D = {} \<or> (\<exists>k. dirfd = int k \<and> D = {k})"
      "(case mkdir_comps dirfd (path_comps s) w1 of (err, d, n, w) \<Rightarrow>
         (case mkdir_p_out err d n None [] w of (r, _, w) \<Rightarrow> (r, w))) = (r, w')" for D dirfd w1
  proof -
    obtain err d n w2 where c: "mkdir_comps dirfd (path_comps s) w1 = (err, d, n, w2)" by (metis prod_cases4)
    have "err \<noteq> 0" using comps_nonempty c assms(3) by blast
    moreover have "err \<le> 0" using comps_owns [OF that(1) c that(2)] by blast
    ultimately show False using that(3) c r by (simp add: mkdir_p_out_def Let_def split: if_splits)
  qed
  note o = owns_start [OF assms(2)]
  show False
  proof (cases "absolute s")
    case False
    then show ?thesis using on fin [OF o, of AT_FDCWD]
      by (simp add: mkdir_p_on_def path_comps_def absolute_def split: if_splits)
  next
    case True
    obtain d w1 where op: "sys_open ''/'' [O_PATH, O_DIRECTORY] w = (d, w1)" by fastforce
    from owns_opened [OF o sys_open_opened [OF op]] show ?thesis
    proof (elim disjE exE conjE)
      assume "d = -1" "0 < errno w1"
      then show ?thesis using on op True r by (auto simp: mkdir_p_on_def absolute_def)
    next
      fix k assume "d = int k" "owns w (insert k {}) {} [] w1"
      then show ?thesis using on op True fin [of "{k}" w1 d]
        by (simp add: mkdir_p_on_def path_comps_def absolute_def)
    qed
  qed
qed

theorem mkdir_p_no_empty_component_witness:
  "fst (mkdir_p (path_buf ''/d/'' []) (tree_world [])) < 0 \<and>
   lookup_path (tree_world []) AT_FDCWD ''/d/'' = Inr 1"
proof -
  have "[] \<in> set (path_comps ''/d/'')" by (simp add: path_comps_def absolute_def)
  from mkdir_p_no_empty_component [OF _ tree_world_ok(1) this] show ?thesis
    by (simp add: lookup_path_def start_dir_def tree_world_def)
qed

end
