(* ===== verification/Step_Systems.thy ===== *)
theory Step_Systems
  imports Prelude
begin

text \<open>
  What the systems of concurrent processes of the development share: a rank that every action
  lowers bounds the length of all executions, and every execution can be continued to a state
  in which nobody can move.
\<close>

locale ranked_system =
  fixes step :: "'s \<Rightarrow> 's \<Rightarrow> bool" and rank :: "'s \<Rightarrow> int"
  assumes rank_nonneg: "0 \<le> rank s"
    and rank_step: "step s s' \<Longrightarrow> rank s' < rank s"
begin

lemma run_length: "(step ^^ k) s s' \<Longrightarrow> int k + rank s' \<le> rank s"
proof (induction k arbitrary: s')
  case (Suc k)
  then obtain s1 where "(step ^^ k) s s1" "step s1 s'" by auto
  then show ?case using Suc.IH [of s1] rank_step [of s1 s'] by simp
qed simp

lemma run_bound: "(step ^^ k) s s' \<Longrightarrow> int k \<le> rank s"
  using run_length [of k s s'] rank_nonneg [of s'] by linarith

lemma comes_to_rest: "\<exists>s'. step\<^sup>*\<^sup>* s s' \<and> (\<forall>s''. \<not> step s' s'')"
proof (induction "nat (rank s)" arbitrary: s rule: less_induct)
  case less
  show ?case
  proof (cases "\<forall>s''. \<not> step s s''")
    case False
    then obtain s1 where s1: "step s s1" by blast
    have "nat (rank s1) < nat (rank s)" using rank_step [OF s1] rank_nonneg [of s1] by simp
    from less.hyps [OF this] show ?thesis using s1 by (meson converse_rtranclp_into_rtranclp)
  qed blast
qed

end

end
