(* ===== verification/Barrier.thy ===== *)
theory Barrier
  imports Posix Step_Systems
begin

text \<open>
  The interprocess barrier of \<^verbatim>\<open>c/barrier.c\<close>: two semaphores and a counter in shared memory.
  \<open>barrier_wait\<close> is cut into its atomic actions, one control point before each; the
  processes that share the barrier interleave them in any order. Every semaphore call may
  also fail. The messages of \<open>perror\<close> are not modelled.
\<close>

section \<open>Semaphores\<close>

record sem =
  sem_shared :: bool
  sem_val :: nat

text \<open>A semaphore that is not initialised, or destroyed, is \<open>None\<close>.\<close>

type_synonym sem_t = "sem option"

datatype sem_result = Blocked | Failed errno | Proceed sem_t

text \<open>The first argument is the failure scheduled for the call, if any.\<close>

definition sem_wait :: "errno option \<Rightarrow> sem_t \<Rightarrow> sem_result" where
  "sem_wait f s =
    (case s of None \<Rightarrow> Failed EINVAL
     | Some v \<Rightarrow> (case f of Some e \<Rightarrow> Failed e
       | None \<Rightarrow> if sem_val v = 0 then Blocked else Proceed (Some (v\<lparr>sem_val := sem_val v - 1\<rparr>))))"

definition sem_post :: "errno option \<Rightarrow> sem_t \<Rightarrow> sem_result" where
  "sem_post f s =
    (case s of None \<Rightarrow> Failed EINVAL
     | Some v \<Rightarrow> (case f of Some e \<Rightarrow> Failed e | None \<Rightarrow> Proceed (Some (v\<lparr>sem_val := sem_val v + 1\<rparr>))))"

definition sem_init :: "errno option \<Rightarrow> bool \<Rightarrow> nat \<Rightarrow> sem_t \<Rightarrow> int \<times> int \<times> sem_t" where
  "sem_init f pshared v s =
    (case f of Some e \<Rightarrow> (-1, errno_val e, s) | None \<Rightarrow> (0, 0, Some \<lparr>sem_shared = pshared, sem_val = v\<rparr>))"

section \<open>The barrier\<close>

record barrier =
  b_N :: int
  b_count :: int
  b_mutex :: sem_t
  b_barrier :: sem_t
  b_barrier_init :: bool
  b_mutex_init :: bool

definition barrier_close :: "barrier \<Rightarrow> barrier" where
  "barrier_close b =
    (let b = (if b_mutex_init b then b\<lparr>b_mutex := None, b_mutex_init := False\<rparr> else b);
         b = (if b_barrier_init b then b\<lparr>b_barrier := None, b_barrier_init := False\<rparr> else b)
     in b)"

text \<open>The failures of the two \<open>sem_init\<close> calls come first; the old contents are overwritten.\<close>

definition barrier_init :: "errno option \<Rightarrow> errno option \<Rightarrow> int \<Rightarrow> int \<Rightarrow> int \<times> barrier" where
  "barrier_init f1 f2 n interprocess =
    (let b = \<lparr>b_N = 0, b_count = 0, b_mutex = None, b_barrier = None,
               b_barrier_init = False, b_mutex_init = False\<rparr>;
         b = b\<lparr>b_N := n\<rparr>;
         (err, errno, s) = sem_init f1 (interprocess \<noteq> 0) 1 (b_mutex b)
     in if err \<noteq> 0 then (errno, barrier_close b)
        else
          let b = b\<lparr>b_mutex := s, b_mutex_init := True\<rparr>;
              (err, errno, s) = sem_init f2 (interprocess \<noteq> 0) 0 (b_barrier b)
          in if err \<noteq> 0 then (errno, barrier_close b)
             else (0, b\<lparr>b_barrier := s, b_barrier_init := True\<rparr>))"

section \<open>Waiting\<close>

text \<open>
  The control points of \<open>barrier_wait\<close>: before \<open>sem_wait\<close> of the mutex, the load and the
  store of \<open>count++\<close>, the comparison, \<open>sem_post\<close> of the barrier, \<open>sem_post\<close> of the mutex,
  \<open>sem_wait\<close> of the barrier, its second \<open>sem_post\<close>, the \<open>sem_post\<close> of the mutex on the
  error path; and the two kinds of return, before and after the process has been counted.
\<close>

datatype pc = Enter | Load | Store int | Check | Open | Release | Await | Repost | Leave int
  | Refused int | Done int

text \<open>One atomic action; \<open>None\<close> when the process is blocked or has returned.\<close>

fun wait_step :: "errno option \<Rightarrow> barrier \<Rightarrow> pc \<Rightarrow> (barrier \<times> pc) option" where
  "wait_step f b Enter =
    (case sem_wait f (b_mutex b) of
       Blocked \<Rightarrow> None
     | Failed e \<Rightarrow> Some (b, Refused (errno_val e))
     | Proceed s \<Rightarrow> Some (b\<lparr>b_mutex := s\<rparr>, Load))"
| "wait_step f b Load = Some (b, Store (b_count b))"
| "wait_step f b (Store c) = Some (b\<lparr>b_count := c + 1\<rparr>, Check)"
| "wait_step f b Check = Some (b, if b_count b = b_N b then Open else Release)"
| "wait_step f b Open =
    (case sem_post f (b_barrier b) of
       Blocked \<Rightarrow> None
     | Failed e \<Rightarrow> Some (b, Leave (errno_val e))
     | Proceed s \<Rightarrow> Some (b\<lparr>b_barrier := s\<rparr>, Release))"
| "wait_step f b Release =
    (case sem_post f (b_mutex b) of
       Blocked \<Rightarrow> None
     | Failed e \<Rightarrow> Some (b, Await)
     | Proceed s \<Rightarrow> Some (b\<lparr>b_mutex := s\<rparr>, Await))"
| "wait_step f b Await =
    (case sem_wait f (b_barrier b) of
       Blocked \<Rightarrow> None
     | Failed e \<Rightarrow> Some (b, Done (errno_val e))
     | Proceed s \<Rightarrow> Some (b\<lparr>b_barrier := s\<rparr>, Repost))"
| "wait_step f b Repost =
    (case sem_post f (b_barrier b) of
       Blocked \<Rightarrow> None
     | Failed e \<Rightarrow> Some (b, Done (errno_val e))
     | Proceed s \<Rightarrow> Some (b\<lparr>b_barrier := s\<rparr>, Done 0))"
| "wait_step f b (Leave err) =
    (case sem_post f (b_mutex b) of
       Blocked \<Rightarrow> None
     | Failed e \<Rightarrow> Some (b, Done err)
     | Proceed s \<Rightarrow> Some (b\<lparr>b_mutex := s\<rparr>, Done err))"
| "wait_step f b (Refused err) = None"
| "wait_step f b (Done err) = None"

text \<open>\<open>n\<close> processes; \<open>faulty\<close> says whether semaphore calls may fail.\<close>

type_synonym bsys = "barrier \<times> (nat \<Rightarrow> pc)"

inductive bstep :: "nat \<Rightarrow> bool \<Rightarrow> bsys \<Rightarrow> bsys \<Rightarrow> bool" for n :: nat and faulty :: bool where
  run: "i < n \<Longrightarrow> f = None \<or> faulty \<Longrightarrow> wait_step f b (pcs i) = Some (b', p) \<Longrightarrow>
    bstep n faulty (b, pcs) (b', pcs(i := p))"

inductive_cases bstepE: "bstep n faulty (b, pcs) s'"

text \<open>All processes enter a freshly initialised barrier.\<close>

definition bstart :: "int \<Rightarrow> bsys" where
  "bstart N = (snd (barrier_init None None N 1), \<lambda>_. Enter)"

definition breach :: "nat \<Rightarrow> bool \<Rightarrow> int \<Rightarrow> bsys \<Rightarrow> bool" where
  "breach n faulty N s \<longleftrightarrow> (bstep n faulty)\<^sup>*\<^sup>* (bstart N) s"

lemma breach_induct [consumes 1, case_names start step]:
  assumes "breach n faulty N s" "P (bstart N)"
    and "\<And>i f b pcs b' p. breach n faulty N (b, pcs) \<Longrightarrow> P (b, pcs) \<Longrightarrow> i < n \<Longrightarrow> f = None \<or> faulty \<Longrightarrow>
      wait_step f b (pcs i) = Some (b', p) \<Longrightarrow> P (b', pcs(i := p))"
  shows "P s"
  using assms(1) unfolding breach_def
proof (induction rule: rtranclp_induct)
  case base
  then show ?case by (rule assms(2))
next
  case (step s s')
  obtain b pcs where s: "s = (b, pcs)" by fastforce
  with step.hyps(2) obtain i f b' p where st: "i < n" "f = None \<or> faulty"
    "wait_step f b (pcs i) = Some (b', p)" "s' = (b', pcs(i := p))" by (auto elim!: bstepE)
  show ?case unfolding st(4)
    using assms(3) [of b pcs i f b' p] step.hyps(1) step.IH st(1-3) s by (simp add: breach_def)
qed

section \<open>Counting processes\<close>

definition tot :: "(pc \<Rightarrow> int) \<Rightarrow> nat \<Rightarrow> (nat \<Rightarrow> pc) \<Rightarrow> int" where
  "tot g n pcs = (\<Sum>j<n. g (pcs j))"

lemma tot_upd:
  assumes "i < n"
  shows "tot g n (pcs(i := p)) = tot g n pcs - g (pcs i) + g p"
proof -
  have "{..<n} = insert i ({..<n} - {i})" using assms by auto
  then have "tot g n qs = g (qs i) + (\<Sum>j\<in>{..<n} - {i}. g (qs j))" for qs
    unfolding tot_def by (metis Diff_iff finite_Diff finite_lessThan singletonI sum.insert)
  from this [of pcs] this [of "pcs(i := p)"] show ?thesis by simp
qed

lemma tot_mono: "(\<And>p. g p \<le> h p) \<Longrightarrow> tot g n pcs \<le> tot h n pcs"
  unfolding tot_def by (rule sum_mono)

lemma tot_nonneg: "(\<And>p. 0 \<le> g p) \<Longrightarrow> 0 \<le> tot g n pcs"
  unfolding tot_def by (rule sum_nonneg)

lemma tot_ge:
  assumes "i < n" "\<And>p. 0 \<le> g p"
  shows "g (pcs i) \<le> tot g n pcs"
  unfolding tot_def using assms by (intro member_le_sum [of i "{..<n}" "\<lambda>j. g (pcs j)"]) auto

lemma tot_add: "tot (\<lambda>p. g p + h p) n pcs = tot g n pcs + tot h n pcs"
  by (simp add: tot_def sum.distrib)

lemma tot_two:
  assumes "i < n" "j < n" "i \<noteq> j" "\<And>p. 0 \<le> g p"
  shows "g (pcs i) + g (pcs j) \<le> tot g n pcs"
proof -
  have "tot g n (pcs(i := p)) \<ge> g (pcs j)" for p
    using tot_ge [of j n g "pcs(i := p)"] assms by simp
  then have "tot g n pcs - g (pcs i) + g p \<ge> g (pcs j)" for p using tot_upd assms(1) by metis
  from this [of "pcs i"] show ?thesis
    using tot_upd [OF assms(1), of g pcs] sum.remove [of "{..<n}" i "\<lambda>j. g (pcs j)"] assms
      member_le_sum [of j "{..<n} - {i}" "\<lambda>j. g (pcs j)"]
    by (simp add: tot_def)
qed

definition crit :: "pc \<Rightarrow> int" where
  "crit p = (case p of Load \<Rightarrow> 1 | Store _ \<Rightarrow> 1 | Check \<Rightarrow> 1 | Open \<Rightarrow> 1 | Release \<Rightarrow> 1 | Leave _ \<Rightarrow> 1 | _ \<Rightarrow> 0)"

definition arrived :: "pc \<Rightarrow> int" where
  "arrived p = (case p of Enter \<Rightarrow> 0 | Load \<Rightarrow> 0 | Store _ \<Rightarrow> 0 | Refused _ \<Rightarrow> 0 | _ \<Rightarrow> 1)"

definition at :: "pc \<Rightarrow> pc \<Rightarrow> int" where
  "at q p = (if p = q then 1 else 0)"

lemma count_nonneg [simp]: "0 \<le> crit p" "0 \<le> arrived p" "0 \<le> at q p"
  by (simp_all add: crit_def arrived_def at_def split: pc.split)

definition tokens :: "sem_t \<Rightarrow> int" where
  "tokens s = (case s of None \<Rightarrow> 0 | Some v \<Rightarrow> int (sem_val v))"


text \<open>Live semaphores, and what the two calls make of them.\<close>

definition live :: "sem_t \<Rightarrow> bool" where
  "live s \<longleftrightarrow> s \<noteq> None"

definition up :: "sem_t \<Rightarrow> sem_t" where
  "up s = map_option (\<lambda>v. v\<lparr>sem_val := sem_val v + 1\<rparr>) s"

definition down :: "sem_t \<Rightarrow> sem_t" where
  "down s = map_option (\<lambda>v. v\<lparr>sem_val := sem_val v - 1\<rparr>) s"

lemma sem_live [simp]:
  "live s \<Longrightarrow> sem_post f s = (case f of Some e \<Rightarrow> Failed e | None \<Rightarrow> Proceed (up s))"
  "live s \<Longrightarrow> sem_wait f s = (case f of Some e \<Rightarrow> Failed e | None \<Rightarrow> if tokens s = 0 then Blocked else Proceed (down s))"
  "live s \<Longrightarrow> live (up s)" "live s \<Longrightarrow> live (down s)" "live s \<Longrightarrow> tokens (up s) = tokens s + 1"
  "live s \<Longrightarrow> tokens s \<noteq> 0 \<Longrightarrow> tokens (down s) = tokens s - 1"
  by (auto simp: sem_post_def sem_wait_def tokens_def live_def up_def down_def of_nat_diff split: option.splits)

lemma tokens_nonneg [simp]: "0 \<le> tokens s"
  by (simp add: tokens_def split: option.split)

lemma tokens_pos: "tokens s \<noteq> 0 \<Longrightarrow> 0 < tokens s"
  using tokens_nonneg [of s] by linarith

section \<open>Safety, with failing semaphore calls\<close>

text \<open>What holds in every reachable state, whatever fails.\<close>

definition binv :: "nat \<Rightarrow> int \<Rightarrow> bsys \<Rightarrow> bool" where
  "binv n N s \<longleftrightarrow> (case s of (b, pcs) \<Rightarrow>
     live (b_mutex b) \<and> live (b_barrier b) \<and> b_N b = N \<and>
     tokens (b_mutex b) + tot crit n pcs \<le> 1 \<and> b_count b = tot arrived n pcs \<and>
     (\<forall>i<n. (\<forall>c. pcs i = Store c \<longrightarrow> c = b_count b) \<and> pcs i \<noteq> Leave 0 \<and>
        (pcs i = Open \<or> pcs i = Repost \<or> pcs i = Done 0 \<longrightarrow> N \<le> b_count b)) \<and>
     (0 < tokens (b_barrier b) \<longrightarrow> N \<le> b_count b))"

lemma binv_start: "binv n N (bstart N)"
  by (simp add: binv_def bstart_def barrier_init_def sem_init_def tot_def crit_def arrived_def tokens_def live_def)

lemma store_alone:
  assumes "tokens s + tot crit n pcs \<le> 1" "i < n" "crit (pcs i) = 1" "j < n" "j \<noteq> i"
  shows "crit (pcs j) = 0"
proof -
  have "crit (pcs i) + crit (pcs j) \<le> tot crit n pcs"
    using assms by (intro tot_two) auto
  then show ?thesis using assms(1,3) tokens_nonneg [of s] count_nonneg(1) [of "pcs j"] by linarith
qed

lemma binv_step:
  assumes inv: "binv n N (b, pcs)" and i: "i < n" and st: "wait_step f b (pcs i) = Some (b', p)"
  shows "binv n N (b', pcs(i := p))"
proof -
  have c: "tot crit n (pcs(i := p)) = tot crit n pcs - crit (pcs i) + crit p"
    "tot arrived n (pcs(i := p)) = tot arrived n pcs - arrived (pcs i) + arrived p"
    using tot_upd [OF i] by simp_all
  have a: "live (b_mutex b)" "live (b_barrier b)" "b_N b = N" "tokens (b_mutex b) + tot crit n pcs \<le> 1"
    "b_count b = tot arrived n pcs"
    and pi: "\<And>j c. j < n \<Longrightarrow> pcs j = Store c \<Longrightarrow> c = b_count b" "\<And>j. j < n \<Longrightarrow> pcs j \<noteq> Leave 0"
      "\<And>j. j < n \<Longrightarrow> pcs j = Open \<or> pcs j = Repost \<or> pcs j = Done 0 \<Longrightarrow> N \<le> b_count b"
    and tk: "0 < tokens (b_barrier b) \<Longrightarrow> N \<le> b_count b"
    using inv unfolding binv_def prod.case by blast+
  have alone: "crit (pcs i) = 1 \<Longrightarrow> j < n \<Longrightarrow> j \<noteq> i \<Longrightarrow> crit (pcs j) = 0" for j
    using store_alone [OF a(4) i] by blast
  show ?thesis
  proof (cases "pcs i")
    case (Store c)
    then have b': "b' = b\<lparr>b_count := b_count b + 1\<rparr>" "p = Check" using st pi(1) [OF i] by auto
    have "pcs j \<noteq> Store c'" if "j < n" "j \<noteq> i" for j c'
      using alone [OF _ that] Store by (auto simp: crit_def)
    moreover have "N \<le> b_count b + 1" if "j < n" "pcs j = Open \<or> pcs j = Repost \<or> pcs j = Done 0" for j
      using pi(3) [OF that] by simp
    ultimately show ?thesis using a pi(2) tk c Store
      by (auto simp: binv_def b' crit_def arrived_def)
  qed (use st a pi pi(3) [OF i] pi(2) [OF i] tk c in \<open>auto simp: binv_def crit_def arrived_def
      dest: tokens_pos split: if_splits option.splits\<close>)
qed

lemma breach_binv: "breach n faulty N s \<Longrightarrow> binv n N s"
  by (induction rule: breach_induct) (auto intro: binv_start binv_step)


section \<open>Liveness, without failures past the mutex\<close>

text \<open>
  The steps in which no call fails but the first \<open>sem_wait\<close> of a process, which a signal may
  interrupt.
\<close>

inductive istep :: "nat \<Rightarrow> bsys \<Rightarrow> bsys \<Rightarrow> bool" for n :: nat where
  irun: "i < n \<Longrightarrow> f = None \<or> pcs i = Enter \<Longrightarrow> wait_step f b (pcs i) = Some (b', p) \<Longrightarrow>
    istep n (b, pcs) (b', pcs(i := p))"

inductive_cases istepE: "istep n (b, pcs) s'"

definition ireach :: "nat \<Rightarrow> bsys \<Rightarrow> bool" where
  "ireach n s \<longleftrightarrow> (istep n)\<^sup>*\<^sup>* (bstart (int n)) s"

lemma ireach_induct [consumes 1, case_names start step]:
  assumes "ireach n s" "P (bstart (int n))"
    and "\<And>i f b pcs b' p. P (b, pcs) \<Longrightarrow> i < n \<Longrightarrow> f = None \<or> pcs i = Enter \<Longrightarrow>
      wait_step f b (pcs i) = Some (b', p) \<Longrightarrow> P (b', pcs(i := p))"
  shows "P s"
  using assms(1) unfolding ireach_def
proof (induction rule: rtranclp_induct)
  case base
  then show ?case by (rule assms(2))
next
  case (step s s')
  obtain b pcs where s: "s = (b, pcs)" by fastforce
  with step.hyps(2) obtain i f b' p where st: "i < n" "f = None \<or> pcs i = Enter"
    "wait_step f b (pcs i) = Some (b', p)" "s' = (b', pcs(i := p))" by (auto elim!: istepE)
  show ?case unfolding st(4) using assms(3) [of b pcs i f b' p] step.IH s st(1-3) by simp
qed

lemma bstep_istep: "bstep n False s s' \<Longrightarrow> istep n s s'"
  by (auto elim!: bstep.cases intro: irun)

lemma bsteps_isteps: "(bstep n False)\<^sup>*\<^sup>* s s' \<Longrightarrow> (istep n)\<^sup>*\<^sup>* s s'"
  by (rule mono_rtranclp [rule_format]) (rule bstep_istep)

lemma breach_ireach: "breach n False (int n) s \<Longrightarrow> ireach n s"
  by (auto simp: breach_def ireach_def intro: bsteps_isteps)

text \<open>
  With as many processes as the barrier expects: the mutex is never lost, and once all have
  arrived exactly one token of the second semaphore is in circulation.
\<close>

definition minv :: "nat \<Rightarrow> bsys \<Rightarrow> bool" where
  "minv n s \<longleftrightarrow> binv n (int n) s \<and> (case s of (b, pcs) \<Rightarrow>
     tokens (b_mutex b) + tot crit n pcs = 1 \<and>
     (\<forall>i<n. (\<forall>e. pcs i \<noteq> Leave e \<and> (pcs i = Done e \<longrightarrow> e = 0) \<and>
        (pcs i = Refused e \<longrightarrow> (\<exists>x. e = errno_val x)))) \<and>
     tokens (b_barrier b) + tot (at Repost) n pcs + tot (at Open) n pcs +
       (if b_count b = int n then tot (at Check) n pcs else 0) = (if b_count b = int n then 1 else 0))"

lemma tot_const: "(\<And>i. i < n \<Longrightarrow> g (pcs i) = c) \<Longrightarrow> tot g n pcs = int n * c"
  by (simp add: tot_def)

lemma arrived_bound:
  assumes "i < n" "arrived (pcs i) = 0"
  shows "tot arrived n pcs < int n"
proof -
  have "tot arrived n (pcs(i := Await)) \<le> tot (\<lambda>_. 1) n (pcs(i := Await))"
    by (intro tot_mono) (simp add: arrived_def split: pc.split)
  then show ?thesis using tot_upd [OF assms(1), of arrived pcs Await] assms(2) tot_const [of n "\<lambda>_. 1" _ 1]
    by (simp add: arrived_def)
qed

lemma no_other_check:
  assumes "tokens s + tot crit n pcs = 1" "i < n" "pcs i = Store c"
  shows "tot (at Check) n pcs = 0"
proof -
  let ?q = "pcs(i := Await)"
  have "tot (at Check) n ?q \<le> tot crit n ?q"
    by (intro tot_mono) (simp add: crit_def at_def split: pc.split)
  moreover have "tot (at Check) n ?q = tot (at Check) n pcs" "tot crit n ?q = tot crit n pcs - 1"
    using assms(3) by (simp_all add: tot_upd [OF assms(2)] at_def crit_def)
  moreover have "0 \<le> tot (at Check) n pcs" by (intro tot_nonneg) simp
  ultimately show ?thesis using assms(1) tokens_nonneg [of s] by linarith
qed

lemma minv_start: "0 < n \<Longrightarrow> minv n (bstart (int n))"
  using binv_start [of n "int n"]
  by (simp add: minv_def bstart_def barrier_init_def sem_init_def tot_def crit_def arrived_def tokens_def at_def)

lemma minv_step:
  assumes inv: "minv n (b, pcs)" and i: "i < n" and f: "f = None \<or> pcs i = Enter"
    and st: "wait_step f b (pcs i) = Some (b', p)"
  shows "minv n (b', pcs(i := p))"
proof -
  have bi: "binv n (int n) (b, pcs)" and a: "tokens (b_mutex b) + tot crit n pcs = 1"
    and pl: "\<And>j e. j < n \<Longrightarrow> pcs j \<noteq> Leave e \<and> (pcs j = Done e \<longrightarrow> e = 0) \<and> (pcs j = Refused e \<longrightarrow> (\<exists>x. e = errno_val x))"
    and tk: "tokens (b_barrier b) + tot (at Repost) n pcs + tot (at Open) n pcs +
       (if b_count b = int n then tot (at Check) n pcs else 0) = (if b_count b = int n then 1 else 0)"
    using inv unfolding minv_def prod.case by blast+
  have lv: "live (b_mutex b)" "live (b_barrier b)" "b_N b = int n" "b_count b = tot arrived n pcs"
    and ps: "\<And>c. pcs i = Store c \<Longrightarrow> c = b_count b"
    using bi i unfolding binv_def prod.case by blast+
  have bi': "binv n (int n) (b', pcs(i := p))" using binv_step [OF bi i st] .
  show ?thesis
  proof (cases "pcs i")
    case (Store x)
    then have b': "b' = b\<lparr>b_count := b_count b + 1\<rparr>" "p = Check" using st ps by auto
    have "b_count b < int n" using arrived_bound [OF i, of pcs] Store lv(4) by (simp add: arrived_def)
    moreover have "tot (at Check) n pcs = 0" using no_other_check [OF a i Store] .
    ultimately show ?thesis using bi' a pl tk Store by (simp add: minv_def b' tot_upd [OF i] crit_def at_def)
  qed (use f st bi' a pl pl [OF i] tk lv(1-3) in
      \<open>auto simp: minv_def tot_upd [OF i] crit_def at_def split: if_splits option.splits\<close>)
qed

lemma ireach_minv:
  assumes "0 < n" "ireach n s"
  shows "minv n s"
  using assms(2)
proof (induction rule: ireach_induct)
  case start
  then show ?case using assms(1) by (rule minv_start)
next
  case (step i f b pcs b' p)
  then show ?case using minv_step by blast
qed

text \<open>At rest: the processes of which none was refused have returned 0; else nobody has.\<close>

lemma at_rest:
  assumes "0 < n" "minv n (b, pcs)" "\<forall>i<n. wait_step None b (pcs i) = None"
  shows "tokens (b_mutex b) = 1 \<and>
    (if \<exists>i<n. \<exists>e. pcs i = Refused e
     then tokens (b_barrier b) = 0 \<and> (\<forall>i<n. pcs i = Await \<or> (\<exists>x. pcs i = Refused (errno_val x)))
     else (\<forall>i<n. pcs i = Done 0) \<and> b_count b = int n \<and> tokens (b_barrier b) = 1)"
proof -
  have bi: "binv n (int n) (b, pcs)" and a: "tokens (b_mutex b) + tot crit n pcs = 1"
    and pl: "\<And>j e. j < n \<Longrightarrow> pcs j \<noteq> Leave e \<and> (pcs j = Done e \<longrightarrow> e = 0) \<and> (pcs j = Refused e \<longrightarrow> (\<exists>x. e = errno_val x))"
    and tk: "tokens (b_barrier b) + tot (at Repost) n pcs + tot (at Open) n pcs +
       (if b_count b = int n then tot (at Check) n pcs else 0) = (if b_count b = int n then 1 else 0)"
    using assms(2) unfolding minv_def prod.case by blast+
  have lv: "live (b_mutex b)" "live (b_barrier b)" "b_count b = tot arrived n pcs"
    and dn: "\<And>j. j < n \<Longrightarrow> pcs j = Done 0 \<Longrightarrow> int n \<le> b_count b"
    using bi unfolding binv_def prod.case by blast+
  have rest: "pcs i = Enter \<and> tokens (b_mutex b) = 0 \<or> pcs i = Await \<and> tokens (b_barrier b) = 0 \<or> pcs i = Done 0 \<or>
      (\<exists>x. pcs i = Refused (errno_val x))"
    if "i < n" for i
    using assms(3) [rule_format, OF that] pl [OF that] lv by (cases "pcs i") (auto split: if_splits)
  have "tot crit n pcs = int n * 0" by (rule tot_const) (use rest in \<open>force simp: crit_def\<close>)
  then have m: "tokens (b_mutex b) = 1" using a by simp
  have idle: "tot (at q) n pcs = 0" if "q \<in> {Repost, Open, Check}" for q
    using tot_const [of n "at q" pcs 0] rest that by (force simp: at_def)
  show ?thesis
  proof (cases "\<exists>i<n. \<exists>e. pcs i = Refused e")
    case True
    then have bc: "b_count b < int n" using arrived_bound [of _ n pcs] lv(3) by (auto simp: arrived_def)
    have "tokens (b_barrier b) = 0" using tk bc idle by simp
    moreover have "pcs j \<noteq> Done 0" if "j < n" for j using dn [OF that] bc by auto
    ultimately show ?thesis using True m rest by force
  next
    case False
    then have r: "pcs i = Await \<and> tokens (b_barrier b) = 0 \<or> pcs i = Done 0" if "i < n" for i
      using rest [OF that] m that by auto
    have "tot arrived n pcs = int n * 1" by (rule tot_const) (use r in \<open>force simp: arrived_def\<close>)
    then have "b_count b = int n" "tokens (b_barrier b) = 1" using tk lv(3) idle by simp_all
    then show ?thesis using False m r by fastforce
  qed
qed

text \<open>Without any failure, nobody is refused.\<close>

definition linv :: "nat \<Rightarrow> bsys \<Rightarrow> bool" where
  "linv n s \<longleftrightarrow> minv n s \<and> (\<forall>i<n. \<forall>e. snd s i \<noteq> Refused e)"

lemma breach_unrefused: "breach n False N s \<Longrightarrow> \<forall>i<n. \<forall>e. snd s i \<noteq> Refused e"
proof (induction rule: breach_induct)
  case start
  then show ?case by (simp add: bstart_def)
next
  case (step i f b pcs b' p)
  have "live (b_mutex b)" "live (b_barrier b)" using breach_binv [OF step.hyps(1)] by (simp_all add: binv_def)
  then have "p \<noteq> Refused e" for e
    using step.hyps(3,4) by (cases "pcs i") (auto split: if_splits)
  then show ?case using step.IH by simp
qed

lemma breach_linv:
  assumes "0 < n" "breach n False (int n) s"
  shows "linv n s"
  using ireach_minv [OF assms(1) breach_ireach [OF assms(2)]] breach_unrefused [OF assms(2)] by (simp add: linv_def)

lemma stuck_done:
  assumes "0 < n" "linv n (b, pcs)" "\<And>i. i < n \<Longrightarrow> wait_step None b (pcs i) = None"
  shows "(\<forall>i<n. pcs i = Done 0) \<and> b_count b = int n \<and> tokens (b_mutex b) = 1 \<and> tokens (b_barrier b) = 1"
proof -
  have "minv n (b, pcs)" "\<not> (\<exists>i<n. \<exists>e. pcs i = Refused e)" using assms(2) by (simp_all add: linv_def)
  moreover have "\<forall>i<n. wait_step None b (pcs i) = None" using assms(3) by blast
  ultimately show ?thesis using at_rest [OF assms(1)] by auto
qed

text \<open>Every action brings its process closer to its return, also when calls fail.\<close>

definition rank :: "pc \<Rightarrow> int" where
  "rank p = (case p of Enter \<Rightarrow> 8 | Load \<Rightarrow> 7 | Store _ \<Rightarrow> 6 | Check \<Rightarrow> 5 | Open \<Rightarrow> 4 | Release \<Rightarrow> 3
     | Leave _ \<Rightarrow> 3 | Await \<Rightarrow> 2 | Repost \<Rightarrow> 1 | Refused _ \<Rightarrow> 0 | Done _ \<Rightarrow> 0)"

lemma rank_nonneg [simp]: "0 \<le> rank p"
  by (simp add: rank_def split: pc.split)

lemma wait_step_rank: "wait_step f b p = Some (b', p') \<Longrightarrow> rank p' < rank p"
  by (cases p) (auto simp: rank_def split: sem_result.splits)

lemma bstep_rank:
  assumes "bstep n faulty (b, pcs) (b', pcs')"
  shows "tot rank n pcs' < tot rank n pcs"
  using assms by (auto elim!: bstepE simp: tot_upd dest: wait_step_rank)

interpretation barrier_run: ranked_system "bstep n faulty" "\<lambda>s. tot rank n (snd s)" for n faulty
proof
  fix s s' :: bsys
  show "0 \<le> tot rank n (snd s)" by (intro tot_nonneg) simp
  show "bstep n faulty s s' \<Longrightarrow> tot rank n (snd s') < tot rank n (snd s)"
    using bstep_rank by (cases s; cases s') simp
qed

text \<open>A process that was refused stays so, and then nobody returns 0.\<close>

lemma refused_stays: "(istep n)\<^sup>*\<^sup>* s s' \<Longrightarrow> snd s i = Refused e \<Longrightarrow> snd s' i = Refused e"
proof (induction rule: rtranclp_induct)
  case (step s1 s2)
  then show ?case by (cases s1) (auto elim!: istepE)
qed simp

lemma refused_nobody_done:
  assumes "minv n (b, pcs)" "i < n" "pcs i = Refused e" "j < n"
  shows "pcs j \<noteq> Done 0"
proof
  assume "pcs j = Done 0"
  then have "int n \<le> tot arrived n pcs" using assms(1,4) unfolding minv_def binv_def prod.case by metis
  then show False using arrived_bound [OF assms(2), of pcs] assms(3) by (simp add: arrived_def)
qed

lemma runs_to_rest: "\<exists>b' pcs'. (bstep n False)\<^sup>*\<^sup>* s (b', pcs') \<and> (\<forall>i<n. wait_step None b' (pcs' i) = None)"
proof -
  from barrier_run.comes_to_rest obtain b pcs where
    s: "(bstep n False)\<^sup>*\<^sup>* s (b, pcs)" and rest: "\<And>s'. \<not> bstep n False (b, pcs) s'" by (metis surj_pair)
  have "wait_step None b (pcs i) = None" if i: "i < n" for i
    using rest run [OF i, of None False b pcs] by (cases "wait_step None b (pcs i)") auto
  then show ?thesis using s by blast
qed

lemma breach_finishes:
  assumes "0 < n" "breach n False (int n) s"
  shows "\<exists>b pcs. (bstep n False)\<^sup>*\<^sup>* s (b, pcs) \<and> (\<forall>i<n. pcs i = Done 0)"
proof -
  from runs_to_rest obtain b pcs where s: "(bstep n False)\<^sup>*\<^sup>* s (b, pcs)" "\<forall>i<n. wait_step None b (pcs i) = None"
    by blast
  moreover from s have "breach n False (int n) (b, pcs)" using assms(2) by (auto simp: breach_def)
  ultimately show ?thesis using stuck_done [OF assms(1) breach_linv [OF assms(1)]] by blast
qed

section \<open>Schedules\<close>

text \<open>Executing the processes in a given order, each action with its failure, if any.\<close>

fun run_schedule :: "nat \<Rightarrow> (nat \<times> errno option) list \<Rightarrow> bsys \<Rightarrow> bsys option" where
  "run_schedule n [] s = Some s"
| "run_schedule n ((i, f) # is) (b, pcs) =
    (if i < n then
       (case wait_step f b (pcs i) of None \<Rightarrow> None
        | Some (b', p) \<Rightarrow> run_schedule n is (b', pcs(i := p)))
     else None)"

lemma run_schedule_reach:
  "run_schedule n is s = Some s' \<Longrightarrow> list_all (\<lambda>x. snd x = None) is \<or> faulty \<Longrightarrow> (bstep n faulty)\<^sup>*\<^sup>* s s'"
proof (induction n "is" s rule: run_schedule.induct)
  case (2 n i f "is" b pcs)
  then obtain b' p where st: "i < n" "wait_step f b (pcs i) = Some (b', p)"
    "run_schedule n is (b', pcs(i := p)) = Some s'" by (auto split: if_splits option.splits)
  have "bstep n faulty (b, pcs) (b', pcs(i := p))"
    using st(1,2) "2.prems"(2) by (intro run [of i _ f]) auto
  moreover have "(bstep n faulty)\<^sup>*\<^sup>* (b', pcs(i := p)) s'"
    using "2.IH" [OF st(1,2) refl st(3)] "2.prems"(2) by auto
  ultimately show ?case by (rule converse_rtranclp_into_rtranclp)
qed simp

lemma run_schedule_breach:
  "run_schedule n is (bstart N) = Some s \<Longrightarrow> list_all (\<lambda>x. snd x = None) is \<or> faulty \<Longrightarrow> breach n faulty N s"
  by (simp add: breach_def run_schedule_reach)

declare bstart_def [op_defs] barrier_init_def [op_defs] sem_init_def [op_defs] sem_wait_def [op_defs] sem_post_def [op_defs]

lemma passed_all_arrived:
  assumes "breach n faulty (int n) (b, pcs)" "i < n" "pcs i = Done 0" "j < n"
  shows "arrived (pcs j) = 1"
proof -
  from breach_binv [OF assms(1)] have "b_count b = tot arrived n pcs" "int n \<le> b_count b"
    using assms(2,3) unfolding binv_def prod.case by blast+
  then have "arrived (pcs j) \<noteq> 0" using arrived_bound [of j n pcs] assms(4) by force
  then show ?thesis by (simp add: arrived_def split: pc.splits)
qed

lemma breach_run:
  assumes "breach n faulty N (b, pcs)" "i < n" "f = None \<or> faulty" "wait_step f b (pcs i) = Some (b', p)"
  shows "breach n faulty N (b', pcs(i := p))"
  using assms bstep.run [of i n f faulty b pcs b' p] by (auto simp: breach_def intro: rtranclp.rtrancl_into_rtrancl)

section \<open>Properties\<close>

text \<open>C14. No process passes the barrier early. In every state that any interleaving of any
  number of processes can reach, with any pattern of failing semaphore calls, once one process
  has passed at least \<open>N\<close> processes have been counted in.\<close>

theorem barrier_safe:
  assumes "breach n faulty N (b, pcs)" "i < n" "pcs i = Repost \<or> pcs i = Done 0"
  shows "N \<le> int (card {j. j < n \<and> arrived (pcs j) = 1})"
proof -
  from breach_binv [OF assms(1)] have "b_count b = tot arrived n pcs" "N \<le> b_count b"
    using assms(2,3) unfolding binv_def prod.case by blast+
  moreover have "tot arrived n pcs = int (card {j \<in> {..<n}. arrived (pcs j) = 1})"
  proof -
    have "arrived p = (if arrived p = 1 then 1 else 0)" for p
      by (simp add: arrived_def split: pc.split)
    then have "tot arrived n pcs = (\<Sum>j<n. if arrived (pcs j) = 1 then 1 else 0)"
      unfolding tot_def by presburger
    then show ?thesis by (simp add: sum.If_cases Int_def)
  qed
  ultimately show ?thesis by simp
qed

theorem barrier_safe_witness:
  "\<exists>b pcs. breach 2 False 2 (b, pcs) \<and> pcs 0 = Repost \<and> 2 \<le> int (card {j. j < 2 \<and> arrived (pcs j) = 1})"
proof -
  let ?is = "map (\<lambda>i. (i, None)) [0, 0, 0, 0, 0, 1, 1, 1, 1, 1, 1, 0]"
  have r: "\<exists>b pcs. run_schedule 2 ?is (bstart 2) = Some (b, pcs) \<and> pcs 0 = Repost"
    by (simp add: op_defs)
  then obtain b pcs where "run_schedule 2 ?is (bstart 2) = Some (b, pcs)" "pcs 0 = Repost" by blast
  with run_schedule_breach [of 2 ?is 2 "(b, pcs)" False] barrier_safe [of 2 False 2 b pcs 0]
  show ?thesis by fastforce
qed

text \<open>At most one process at a time is between its two calls on the mutex, so no
  increment of the counter is lost.\<close>

lemma barrier_mutual_exclusion:
  assumes "breach n faulty N (b, pcs)" "i < n" "j < n" "crit (pcs i) = 1" "crit (pcs j) = 1"
  shows "i = j"
proof (rule ccontr)
  assume "i \<noteq> j"
  have "tokens (b_mutex b) + tot crit n pcs \<le> 1"
    using breach_binv [OF assms(1)] unfolding binv_def prod.case by blast
  from store_alone [OF this assms(2,4,3)] assms(5) \<open>i \<noteq> j\<close> show False by simp
qed

lemma barrier_mutual_exclusion_witness:
  "\<exists>b pcs. breach 2 True 2 (b, pcs) \<and> crit (pcs 1) = 1 \<and> crit (pcs 0) \<noteq> 1"
proof -
  let ?is = "[(0, Some EINTR), (1, None), (1, None)]"
  have "\<exists>b pcs. run_schedule 2 ?is (bstart 2) = Some (b, pcs) \<and> crit (pcs 1) = 1"
    by (simp add: op_defs crit_def)
  then obtain b pcs where r: "run_schedule 2 ?is (bstart 2) = Some (b, pcs)" "crit (pcs 1) = 1" by blast
  then have br: "breach 2 True 2 (b, pcs)" by (intro run_schedule_breach) auto
  then show ?thesis using barrier_mutual_exclusion [OF br, of 0 1] r(2) by auto
qed

text \<open>C15. No deadlock. When as many processes as the barrier expects call \<open>barrier_wait\<close> and
  no call fails, a state in which none can move is one in which all have returned 0; the
  counter then stands at \<open>N\<close> and both semaphores at 1.\<close>

theorem barrier_no_deadlock:
  assumes "0 < n" "breach n False (int n) (b, pcs)" "\<forall>i<n. wait_step None b (pcs i) = None"
  shows "(\<forall>i<n. pcs i = Done 0) \<and> b_count b = int n \<and> tokens (b_mutex b) = 1 \<and> tokens (b_barrier b) = 1"
  using stuck_done [OF assms(1) breach_linv [OF assms(1,2)]] assms(3) by blast

theorem barrier_no_deadlock_witness:
  "\<exists>b pcs. breach 1 False 1 (b, pcs) \<and> pcs 0 = Done 0 \<and> tokens (b_barrier b) = 1"
proof -
  let ?is = "replicate 8 (0, None)"
  have "\<exists>b pcs. run_schedule 1 ?is (bstart 1) = Some (b, pcs) \<and> wait_step None b (pcs 0) = None"
    by (simp add: op_defs numeral_eq_Suc)
  then obtain b pcs where r: "run_schedule 1 ?is (bstart 1) = Some (b, pcs)" "wait_step None b (pcs 0) = None"
    by blast
  then have br: "breach 1 False (int 1) (b, pcs)"
    by (intro run_schedule_breach) (auto simp: list_all_iff)
  then show ?thesis using barrier_no_deadlock [OF _ br] r(2) by fastforce
qed

text \<open>C16. From every state they can reach, the processes can all run to their return with 0,
  and no execution at all, also with failing calls, has more than eight actions per process.\<close>

theorem barrier_all_return:
  "(0 < n \<longrightarrow> breach n False (int n) s \<longrightarrow>
     (\<exists>b pcs. (bstep n False)\<^sup>*\<^sup>* s (b, pcs) \<and> (\<forall>i<n. pcs i = Done 0))) \<and>
   ((bstep n faulty ^^ k) (bstart N) s \<longrightarrow> k \<le> 8 * n)"
proof (intro conjI impI)
  assume "0 < n" "breach n False (int n) s"
  then show "\<exists>b pcs. (bstep n False)\<^sup>*\<^sup>* s (b, pcs) \<and> (\<forall>i<n. pcs i = Done 0)" by (rule breach_finishes)
next
  assume "(bstep n faulty ^^ k) (bstart N) s"
  from barrier_run.run_bound [OF this] show "k \<le> 8 * n"
    using tot_const [of n rank "snd (bstart N)" 8] by (simp add: bstart_def rank_def)
qed

theorem barrier_all_return_witness:
  "\<exists>b pcs. (bstep 2 False)\<^sup>*\<^sup>* (bstart 2) (b, pcs) \<and> (\<forall>i<2. pcs i = Done 0)"
  using barrier_all_return [of 2 "bstart 2"] by (simp add: breach_def)

text \<open>Initialisation either succeeds, with the mutex at 1, the barrier at 0 and nobody
  counted, or returns the error number of the semaphore call that failed with everything that
  had been initialised destroyed again.\<close>

lemma barrier_init_result:
  "barrier_init f1 f2 n ip =
    (case (f1, f2) of
       (Some e, _) \<Rightarrow> (errno_val e, \<lparr>b_N = n, b_count = 0, b_mutex = None, b_barrier = None,
         b_barrier_init = False, b_mutex_init = False\<rparr>)
     | (None, Some e) \<Rightarrow> (errno_val e, \<lparr>b_N = n, b_count = 0, b_mutex = None, b_barrier = None,
         b_barrier_init = False, b_mutex_init = False\<rparr>)
     | (None, None) \<Rightarrow> (0, \<lparr>b_N = n, b_count = 0, b_mutex = Some \<lparr>sem_shared = (ip \<noteq> 0), sem_val = 1\<rparr>,
         b_barrier = Some \<lparr>sem_shared = (ip \<noteq> 0), sem_val = 0\<rparr>, b_barrier_init = True, b_mutex_init = True\<rparr>))
   \<and> barrier_close (barrier_close b) = barrier_close b
   \<and> b_mutex (barrier_close (snd (barrier_init f1 f2 n ip))) = None
   \<and> b_barrier (barrier_close (snd (barrier_init f1 f2 n ip))) = None"
  by (auto simp: barrier_init_def sem_init_def barrier_close_def Let_def split: option.split)

text \<open>The barrier serves once: when all have passed it stays open, and a process that
  calls \<open>barrier_wait\<close> again returns 0 without waiting for anybody.\<close>

lemma barrier_stays_open:
  assumes "0 < n" "breach n False (int n) (b, pcs)" "\<forall>i<n. pcs i = Done 0"
  shows "\<exists>b'. run_schedule 1 (replicate 7 (0, None)) (b, \<lambda>_. Enter) = Some (b', (\<lambda>_. Enter)(0 := Done 0)) \<and>
    b_count b' = int n + 1"
proof -
  have s: "\<And>i. i < n \<Longrightarrow> wait_step None b (pcs i) = None" using assms(3) by simp
  note li = breach_linv [OF assms(1,2)]
  from stuck_done [OF assms(1) li s] have c: "b_count b = int n" "tokens (b_mutex b) = 1" "tokens (b_barrier b) = 1"
    by blast+
  have lv: "live (b_mutex b)" "live (b_barrier b)" "b_N b = int n"
    using li unfolding linv_def minv_def binv_def prod.case by blast+
  show ?thesis using c lv by (simp add: numeral_eq_Suc)
qed

lemma barrier_stays_open_witness:
  "\<exists>b b'. breach 1 False 1 (b, (\<lambda>_. Enter)(0 := Done 0)) \<and>
    run_schedule 1 (replicate 7 (0, None)) (b, \<lambda>_. Enter) = Some (b', (\<lambda>_. Enter)(0 := Done 0))"
proof -
  let ?is = "replicate 8 (0, None)"
  have "\<exists>b. run_schedule 1 ?is (bstart 1) = Some (b, (\<lambda>_. Enter)(0 := Done 0))"
    by (simp add: op_defs numeral_eq_Suc)
  then obtain b where "run_schedule 1 ?is (bstart 1) = Some (b, (\<lambda>_. Enter)(0 := Done 0))" by blast
  then have br: "breach 1 False (int 1) (b, (\<lambda>_. Enter)(0 := Done 0))"
    by (intro run_schedule_breach) (auto simp: list_all_iff)
  then show ?thesis using barrier_stays_open [OF _ br] by fastforce
qed

text \<open>C17. A process interrupted in its first \<open>sem_wait\<close> returns the error uncounted and strands
  the others. Let no other call fail: when nobody can move any more, either nobody was refused
  and all have returned 0, or somebody was and all the others are blocked on the barrier for
  ever. And from any state in which somebody was refused the processes can only run into that.\<close>

theorem barrier_interrupt_strands:
  assumes "0 < n" "ireach n (b, pcs)"
  shows "((\<forall>i<n. wait_step None b (pcs i) = None) \<longrightarrow>
      (if \<exists>i<n. \<exists>e. pcs i = Refused e
       then \<forall>i<n. pcs i = Await \<and> tokens (b_barrier b) = 0 \<or> (\<exists>x. pcs i = Refused (errno_val x))
       else \<forall>i<n. pcs i = Done 0)) \<and>
    (\<forall>i<n. \<forall>e. pcs i = Refused e \<longrightarrow>
      (\<forall>b' pcs'. (istep n)\<^sup>*\<^sup>* (b, pcs) (b', pcs') \<longrightarrow> pcs' i = Refused e \<and> (\<forall>j<n. pcs' j \<noteq> Done 0)) \<and>
      (\<exists>b' pcs'. (bstep n False)\<^sup>*\<^sup>* (b, pcs) (b', pcs') \<and> (\<forall>j<n. wait_step None b' (pcs' j) = None)))"
proof (intro conjI allI impI)
  assume "\<forall>i<n. wait_step None b (pcs i) = None"
  from at_rest [OF assms(1) ireach_minv [OF assms] this]
  show "if \<exists>i<n. \<exists>e. pcs i = Refused e
       then \<forall>i<n. pcs i = Await \<and> tokens (b_barrier b) = 0 \<or> (\<exists>x. pcs i = Refused (errno_val x))
       else \<forall>i<n. pcs i = Done 0"
    by (cases "\<exists>i<n. \<exists>e. pcs i = Refused e") auto
next
  fix i e b' pcs' assume i: "i < n" "pcs i = Refused e" and r: "(istep n)\<^sup>*\<^sup>* (b, pcs) (b', pcs')"
  then show r': "pcs' i = Refused e" using refused_stays [of n "(b, pcs)" "(b', pcs')" i e] by simp
  fix j assume "j < n"
  have "ireach n (b', pcs')" using assms(2) r by (auto simp: ireach_def)
  from refused_nobody_done [OF ireach_minv [OF assms(1) this] i(1) r' \<open>j < n\<close>] show "pcs' j \<noteq> Done 0" .
next
  show "\<exists>b' pcs'. (bstep n False)\<^sup>*\<^sup>* (b, pcs) (b', pcs') \<and> (\<forall>j<n. wait_step None b' (pcs' j) = None)"
    by (rule runs_to_rest)
qed

theorem barrier_interrupt_strands_witness:
  "\<exists>b pcs. ireach 2 (b, pcs) \<and> pcs 0 = Refused 4 \<and> pcs 1 = Await \<and>
    (\<forall>b' pcs'. (istep 2)\<^sup>*\<^sup>* (b, pcs) (b', pcs') \<longrightarrow> pcs' 1 \<noteq> Done 0)"
proof -
  have "istep 2 (bstart 2) (fst (bstart 2), (\<lambda>_. Enter)(0 := Refused 4))"
    unfolding bstart_def by (simp, rule irun [of 0 2 "Some EINTR"]) (simp_all add: op_defs)
  moreover have "\<exists>b pcs. run_schedule 2 (replicate 5 (1, None)) (fst (bstart 2), (\<lambda>_. Enter)(0 := Refused 4)) = Some (b, pcs) \<and>
      pcs 0 = Refused 4 \<and> pcs 1 = Await"
    by (simp add: op_defs numeral_eq_Suc)
  then obtain b pcs where s: "run_schedule 2 (replicate 5 (1, None)) (fst (bstart 2), (\<lambda>_. Enter)(0 := Refused 4)) = Some (b, pcs)"
    "pcs 0 = Refused 4" "pcs 1 = Await" by blast
  have "(bstep 2 False)\<^sup>*\<^sup>* (fst (bstart 2), (\<lambda>_. Enter)(0 := Refused 4)) (b, pcs)"
    using run_schedule_reach [OF s(1), of False] by (simp add: list_all_iff)
  ultimately have r: "ireach 2 (b, pcs)" using bsteps_isteps by (force simp: ireach_def)
  have "0 < (2::nat)" by simp
  from barrier_interrupt_strands [OF this r, THEN conjunct2, rule_format, of 0 4] s(2)
  have "\<forall>b' pcs'. (istep 2)\<^sup>*\<^sup>* (b, pcs) (b', pcs') \<longrightarrow> pcs' 1 \<noteq> Done 0" by simp
  then show ?thesis using r s(2,3) by blast
qed

end
