(* ===== verification/Bench_Stats.thy ===== *)
theory Bench_Stats
  imports Complex_Main Prelude
begin

text \<open>
  The running statistics of \<^verbatim>\<open>c/bench_stats.c\<close>: mean and second moment updated one sample at
  a time, and the merge of two records. The counters and samples are 64-bit words compared as
  signed numbers. The type \<open>double\<close> and its operations are a parameter, a record of
  operations: what is proved about counts and extremes holds for every such record, what is
  proved about the moments for exact arithmetic with an explicit not-a-number.
\<close>

section \<open>Arithmetic\<close>

record 'd arith =
  ar_of :: "int \<Rightarrow> 'd"
  ar_add :: "'d \<Rightarrow> 'd \<Rightarrow> 'd"
  ar_sub :: "'d \<Rightarrow> 'd \<Rightarrow> 'd"
  ar_mul :: "'d \<Rightarrow> 'd \<Rightarrow> 'd"
  ar_div :: "'d \<Rightarrow> 'd \<Rightarrow> 'd"
  ar_sqrt :: "'d \<Rightarrow> 'd"
  ar_nan :: 'd

type_synonym i64 = "64 word"

definition INT64_MAX :: i64 where "INT64_MAX = 0x7fffffffffffffff"
definition INT64_MIN :: i64 where "INT64_MIN = 0x8000000000000000"

section \<open>The code\<close>

record 'd bench_stats =
  st_avg :: 'd
  st_count :: i64
  st_min :: i64
  st_max :: i64
  st_m2 :: 'd
  st_var :: 'd

definition bench_stats_reset :: "'d arith \<Rightarrow> 'd bench_stats" where
  "bench_stats_reset A = \<lparr>st_avg = ar_of A 0, st_count = 0, st_min = INT64_MAX, st_max = INT64_MIN,
     st_m2 = ar_of A 0, st_var = ar_nan A\<rparr>"

definition bench_stats_update :: "'d arith \<Rightarrow> 'd bench_stats \<Rightarrow> i64 \<Rightarrow> 'd bench_stats" where
  "bench_stats_update A st x =
    (let old_avg = st_avg st;
         st = st\<lparr>st_count := st_count st + 1\<rparr>;
         st = st\<lparr>st_avg := ar_add A (st_avg st)
                (ar_div A (ar_sub A (ar_of A (sint x)) (st_avg st)) (ar_of A (sint (st_count st))))\<rparr>;
         st = st\<lparr>st_m2 := ar_add A (st_m2 st)
                (ar_mul A (ar_sub A (ar_of A (sint x)) (st_avg st)) (ar_sub A (ar_of A (sint x)) old_avg))\<rparr>;
         st = (if sint (st_max st) < sint x then st\<lparr>st_max := x\<rparr> else st);
         st = (if sint x < sint (st_min st) then st\<lparr>st_min := x\<rparr> else st)
     in st)"

definition square :: "'d arith \<Rightarrow> 'd \<Rightarrow> 'd" where
  "square A x = ar_mul A x x"

definition prod_over_sum :: "'d arith \<Rightarrow> i64 \<Rightarrow> i64 \<Rightarrow> 'd" where
  "prod_over_sum A x y = ar_div A (ar_of A (sint (x * y))) (ar_of A (sint (x + y)))"

definition bench_stats_finalize :: "'d arith \<Rightarrow> 'd bench_stats \<Rightarrow> 'd bench_stats" where
  "bench_stats_finalize A self =
    self\<lparr>st_var := ar_sqrt A (ar_div A (st_m2 self) (ar_of A (sint (st_count self))))\<rparr>"

definition bench_stats_merge :: "'d arith \<Rightarrow> 'd bench_stats \<Rightarrow> 'd bench_stats \<Rightarrow> 'd bench_stats" where
  "bench_stats_merge A self other =
    (let new_count = st_count self + st_count other;
         delta = ar_sub A (st_avg self) (st_avg other);
         self = self\<lparr>st_m2 := ar_add A (st_m2 self) (ar_add A (st_m2 other)
                  (ar_mul A (square A delta) (prod_over_sum A (st_count self) (st_count other))))\<rparr>;
         self = self\<lparr>st_avg := ar_div A
                  (ar_add A (ar_mul A (st_avg self) (ar_of A (sint (st_count self))))
                            (ar_mul A (st_avg other) (ar_of A (sint (st_count other)))))
                  (ar_of A (sint new_count))\<rparr>;
         self = self\<lparr>st_count := new_count\<rparr>;
         self = (if sint (st_max self) < sint (st_max other) then self\<lparr>st_max := st_max other\<rparr> else self);
         self = (if sint (st_min other) < sint (st_min self) then self\<lparr>st_min := st_min other\<rparr> else self)
     in bench_stats_finalize A self)"

text \<open>A benchmark run: reset, then one update per sample.\<close>

definition stats_of :: "'d arith \<Rightarrow> i64 list \<Rightarrow> 'd bench_stats" where
  "stats_of A xs = foldl (bench_stats_update A) (bench_stats_reset A) xs"

lemma stats_of_Nil [simp]: "stats_of A [] = bench_stats_reset A"
  by (simp add: stats_of_def)

lemma stats_of_snoc [simp]: "stats_of A (xs @ [x]) = bench_stats_update A (stats_of A xs) x"
  by (simp add: stats_of_def)

section \<open>Counts and extremes, for any arithmetic\<close>

lemma update_fields:
  "st_count (bench_stats_update A st x) = st_count st + 1"
  "sint (st_max (bench_stats_update A st x)) = max (sint (st_max st)) (sint x)"
  "sint (st_min (bench_stats_update A st x)) = min (sint (st_min st)) (sint x)"
  by (simp_all add: bench_stats_update_def Let_def)

lemma update_moments:
  "st_avg (bench_stats_update A st x) = ar_add A (st_avg st)
     (ar_div A (ar_sub A (ar_of A (sint x)) (st_avg st)) (ar_of A (sint (st_count st + 1))))"
  "st_m2 (bench_stats_update A st x) = ar_add A (st_m2 st)
     (ar_mul A (ar_sub A (ar_of A (sint x)) (st_avg (bench_stats_update A st x)))
       (ar_sub A (ar_of A (sint x)) (st_avg st)))"
  by (simp_all add: bench_stats_update_def Let_def)

lemma sint_small: "n < 2 ^ 63 \<Longrightarrow> sint (of_nat n :: i64) = int n"
  by (simp add: sint_uint signed_take_bit_int_eq_self_iff take_bit_int_eq_self unat_of_nat
    uint_nat take_bit_nat_eq_self)

lemma stats_count: "st_count (stats_of A xs) = of_nat (length xs)"
  by (induction xs rule: rev_induct) (simp_all add: update_fields bench_stats_reset_def)

definition s_max :: "i64 list \<Rightarrow> int" where
  "s_max xs = foldl max (sint INT64_MIN) (map sint xs)"

definition s_min :: "i64 list \<Rightarrow> int" where
  "s_min xs = foldl min (sint INT64_MAX) (map sint xs)"

lemma stats_extremes: "sint (st_max (stats_of A xs)) = s_max xs" "sint (st_min (stats_of A xs)) = s_min xs"
  by (induction xs rule: rev_induct) (simp_all add: update_fields bench_stats_reset_def s_max_def s_min_def)

lemma sint_limits: "sint INT64_MIN = - (2 ^ 63)" "sint INT64_MAX = 2 ^ 63 - 1"
  by (simp_all add: INT64_MIN_def INT64_MAX_def)

lemma i64_range: "sint INT64_MIN \<le> sint x" "sint x \<le> sint INT64_MAX" for x :: i64
  using sint_ge [of x] sint_lt [of x] by (simp_all add: sint_limits)

lemma s_max_Max: "xs \<noteq> [] \<Longrightarrow> s_max xs = Max (sint ` set xs)"
proof (induction xs rule: rev_nonempty_induct)
  case (single x)
  then show ?case using i64_range(1) [of x] by (simp add: s_max_def)
next
  case (snoc x xs)
  have "s_max (xs @ [x]) = max (s_max xs) (sint x)" by (simp add: s_max_def)
  then show ?case using snoc by (simp add: max.commute)
qed

lemma s_min_Min: "xs \<noteq> [] \<Longrightarrow> s_min xs = Min (sint ` set xs)"
proof (induction xs rule: rev_nonempty_induct)
  case (single x)
  then show ?case using i64_range(2) [of x] by (simp add: s_min_def)
next
  case (snoc x xs)
  have "s_min (xs @ [x]) = min (s_min xs) (sint x)" by (simp add: s_min_def)
  then show ?case using snoc by (simp add: min.commute)
qed

section \<open>Exact arithmetic\<close>

text \<open>Real numbers, and \<open>None\<close> for what is not a number: a division by zero, and all it taints.\<close>

definition lift2 :: "(real \<Rightarrow> real \<Rightarrow> real) \<Rightarrow> real option \<Rightarrow> real option \<Rightarrow> real option" where
  "lift2 f x y = (case (x, y) of (Some a, Some b) \<Rightarrow> Some (f a b) | _ \<Rightarrow> None)"

definition exact :: "real option arith" where
  "exact = \<lparr>ar_of = (\<lambda>i. Some (of_int i)), ar_add = lift2 (+), ar_sub = lift2 (-), ar_mul = lift2 (*),
     ar_div = (\<lambda>x y. if y = Some 0 then None else lift2 (/) x y),
     ar_sqrt = (\<lambda>x. case x of Some a \<Rightarrow> if a < 0 then None else Some (sqrt a) | None \<Rightarrow> None),
     ar_nan = None\<rparr>"

lemma exact_simps [simp]:
  "ar_of exact i = Some (of_int i)" "ar_add exact (Some a) (Some b) = Some (a + b)"
  "ar_sub exact (Some a) (Some b) = Some (a - b)" "ar_mul exact (Some a) (Some b) = Some (a * b)"
  "b \<noteq> 0 \<Longrightarrow> ar_div exact (Some a) (Some b) = Some (a / b)" "ar_div exact x (Some 0) = None"
  "0 \<le> a \<Longrightarrow> ar_sqrt exact (Some a) = Some (sqrt a)" "ar_nan exact = None"
  by (simp_all add: exact_def lift2_def)

text \<open>The samples as numbers, their mean and the sum of the squared deviations from it.\<close>

definition samples :: "i64 list \<Rightarrow> real list" where
  "samples xs = map (\<lambda>x. of_int (sint x)) xs"

definition mean :: "real list \<Rightarrow> real" where
  "mean xs = sum_list xs / length xs"

definition moment2 :: "real list \<Rightarrow> real" where
  "moment2 xs = (\<Sum>x\<leftarrow>xs. (x - mean xs)\<^sup>2)"

lemma sum_list_mean: "length xs * mean xs = sum_list xs" for xs :: "real list"
  by (simp add: mean_def)

lemma mean_unique: "xs \<noteq> [] \<Longrightarrow> real (length xs) * m = sum_list xs \<Longrightarrow> mean xs = m"
  by (simp add: mean_def nonzero_divide_eq_eq mult.commute)

lemma deviations: "(\<Sum>x\<leftarrow>xs. (x - m)\<^sup>2) = (\<Sum>x\<leftarrow>xs. x\<^sup>2) - 2 * m * sum_list xs + length xs * m\<^sup>2" for m :: real
  by (induction xs) (auto simp: power2_eq_square algebra_simps)

lemma moment2_expand: "moment2 xs = (\<Sum>x\<leftarrow>xs. x\<^sup>2) - length xs * (mean xs)\<^sup>2"
proof -
  have "moment2 xs = (\<Sum>x\<leftarrow>xs. x\<^sup>2) - 2 * mean xs * (length xs * mean xs) + length xs * (mean xs)\<^sup>2"
    unfolding moment2_def deviations sum_list_mean [of xs] ..
  then show ?thesis by (simp add: power2_eq_square)
qed

lemma mean_snoc: "mean (xs @ [x]) = mean xs + (x - mean xs) / (length xs + 1)"
proof -
  define n m d where "n = real (length xs)" and "m = mean xs" and "d = (x - m) / (n + 1)"
  have "n + 1 \<noteq> 0" by (simp add: n_def add_nonneg_eq_0_iff)
  then have "(n + 1) * d = x - m" by (simp add: d_def)
  then have "(n + 1) * (m + d) = n * m + x" by (simp add: algebra_simps)
  then have "mean (xs @ [x]) = m + d"
    by (intro mean_unique) (simp_all add: sum_list_mean n_def m_def add.commute)
  then show ?thesis by (simp add: m_def d_def n_def add.commute)
qed

lemma moment2_snoc: "moment2 (xs @ [x]) = moment2 xs + (x - mean (xs @ [x])) * (x - mean xs)"
proof -
  define n m d where "n = real (length xs)" and "m = mean xs" and "d = (x - m) / (n + 1)"
  have "n + 1 \<noteq> 0" by (simp add: n_def add_nonneg_eq_0_iff)
  then have x: "x = m + (n + 1) * d" by (simp add: d_def)
  have m': "mean (xs @ [x]) = m + d" by (simp add: mean_snoc n_def m_def d_def)
  have "x\<^sup>2 - (n + 1) * (m + d)\<^sup>2 + n * m\<^sup>2 = (x - (m + d)) * (x - m)"
    by (simp add: x power2_eq_square algebra_simps)
  then show ?thesis
    by (simp add: moment2_expand m' n_def [symmetric] m_def [symmetric] add.commute)
qed

lemma moment2_append:
  assumes "xs @ ys \<noteq> []"
  shows "moment2 (xs @ ys) = moment2 xs + (moment2 ys +
    (mean xs - mean ys)\<^sup>2 * (length xs * length ys / (length xs + length ys)))"
proof -
  define n k a b m where "n = real (length xs)" and "k = real (length ys)" and "a = mean xs"
    and "b = mean ys" and "m = mean (xs @ ys)"
  have pos: "n + k \<noteq> 0" using assms by (simp add: n_def k_def add_nonneg_eq_0_iff)
  have "(n + k) * m = n * a + k * b"
    unfolding n_def k_def a_def b_def m_def using sum_list_mean [of "xs @ ys"]
    by (simp add: sum_list_mean)
  then have "(n + k) * ((n + k) * m\<^sup>2) = (n * a + k * b)\<^sup>2"
    by (simp add: power2_eq_square mult.assoc mult.left_commute flip: \<open>(n + k) * m = n * a + k * b\<close>)
  then have "(n + k) * (n * a\<^sup>2 + k * b\<^sup>2 - (n + k) * m\<^sup>2) = (a - b)\<^sup>2 * (n * k)"
    by (simp add: power2_eq_square algebra_simps)
  then have "n * a\<^sup>2 + k * b\<^sup>2 - (n + k) * m\<^sup>2 = (a - b)\<^sup>2 * (n * k) / (n + k)"
    using pos by (simp add: nonzero_eq_divide_eq mult.commute)
  then show ?thesis
    by (simp add: moment2_expand n_def k_def a_def b_def m_def)
qed

lemma moment2_nonneg: "0 \<le> moment2 xs"
  unfolding moment2_def by (rule sum_list_nonneg) auto

lemma stats_exact:
  "length xs < 2 ^ 63 \<Longrightarrow> st_avg (stats_of exact xs) = Some (mean (samples xs)) \<and>
    st_m2 (stats_of exact xs) = Some (moment2 (samples xs))"
proof (induction xs rule: rev_induct)
  case Nil
  show ?case by (simp add: bench_stats_reset_def samples_def mean_def moment2_def)
next
  case (snoc x xs)
  let ?st = "stats_of exact xs"
  have IH: "st_avg ?st = Some (mean (samples xs))" "st_m2 ?st = Some (moment2 (samples xs))"
    using snoc by simp_all
  have "st_count ?st + 1 = of_nat (length xs + 1)" by (simp add: stats_count)
  then have n: "sint (st_count ?st + 1) = int (length xs + 1)"
    using sint_small [of "length xs + 1"] snoc.prems by (simp add: add.commute)
  have sm: "samples (xs @ [x]) = samples xs @ [of_int (sint x)]" "length (samples xs) = length xs"
    by (simp_all add: samples_def)
  have nz: "real_of_int (int (length xs + 1)) \<noteq> 0" by linarith
  have "st_avg (bench_stats_update exact ?st x) = Some (mean (samples (xs @ [x])))"
    using n nz by (simp add: update_moments(1) IH sm mean_snoc del: of_int_sint)
  moreover from this have "st_m2 (bench_stats_update exact ?st x) = Some (moment2 (samples (xs @ [x])))"
    by (simp add: update_moments(2) IH sm moment2_snoc del: of_int_sint)
  ultimately show ?case by simp
qed

lemma s_max_append: "s_max (xs @ ys) = max (s_max xs) (s_max ys)"
proof (induction ys rule: rev_induct)
  case Nil
  have "sint INT64_MIN \<le> s_max xs"
    using stats_extremes(1) [of exact xs] i64_range(1) by metis
  then show ?case by (simp add: s_max_def)
next
  case (snoc y ys)
  then show ?case by (simp add: s_max_def append_assoc [symmetric] max.assoc del: append_assoc)
qed

lemma s_min_append: "s_min (xs @ ys) = min (s_min xs) (s_min ys)"
proof (induction ys rule: rev_induct)
  case Nil
  have "s_min xs \<le> sint INT64_MAX"
    using stats_extremes(2) [of exact xs] i64_range(2) by metis
  then show ?case by (simp add: s_min_def)
next
  case (snoc y ys)
  then show ?case by (simp add: s_min_def append_assoc [symmetric] min.assoc del: append_assoc)
qed

lemma merge_fields:
  "st_count (bench_stats_merge A s t) = st_count s + st_count t"
  "sint (st_max (bench_stats_merge A s t)) = max (sint (st_max s)) (sint (st_max t))"
  "sint (st_min (bench_stats_merge A s t)) = min (sint (st_min s)) (sint (st_min t))"
  "st_var (bench_stats_merge A s t) = ar_sqrt A (ar_div A (st_m2 (bench_stats_merge A s t))
     (ar_of A (sint (st_count (bench_stats_merge A s t)))))"
  by (simp_all add: bench_stats_merge_def bench_stats_finalize_def Let_def)

lemma merge_exact:
  assumes "xs @ ys \<noteq> []" "length xs + length ys < 2 ^ 63" "length xs * length ys < 2 ^ 63"
  defines "m \<equiv> bench_stats_merge exact (stats_of exact xs) (stats_of exact ys)"
  shows "st_avg m = Some (mean (samples (xs @ ys)))" "st_m2 m = Some (moment2 (samples (xs @ ys)))"
proof -
  have l: "length xs < 2 ^ 63" "length ys < 2 ^ 63" using assms(2) by linarith+
  note x = stats_exact [OF l(1)] and y = stats_exact [OF l(2)]
  have s: "samples (xs @ ys) = samples xs @ samples ys" "length (samples xs) = length xs"
    "length (samples ys) = length ys" "samples xs @ samples ys \<noteq> []"
    using assms(1) by (simp_all add: samples_def)
  have c: "sint (st_count (stats_of exact xs)) = int (length xs)" "sint (st_count (stats_of exact ys)) = int (length ys)"
    using sint_small l by (simp_all add: stats_count)
  have "sint (of_nat (length xs) * of_nat (length ys) :: i64) = int (length xs * length ys)"
    "sint (of_nat (length xs) + of_nat (length ys) :: i64) = int (length xs + length ys)"
    using sint_small [of "length xs * length ys"] sint_small [of "length xs + length ys"] assms(2,3) by simp_all
  then have w: "sint (st_count (stats_of exact xs) * st_count (stats_of exact ys)) = int (length xs * length ys)"
    "sint (st_count (stats_of exact xs) + st_count (stats_of exact ys)) = int (length xs + length ys)"
    by (simp_all add: stats_count)
  have nz: "real (length xs) + real (length ys) \<noteq> 0" using assms(1) by (auto simp: add_nonneg_eq_0_iff)
  show "st_m2 m = Some (moment2 (samples (xs @ ys)))"
    using x y w nz s by (simp add: m_def bench_stats_merge_def bench_stats_finalize_def Let_def square_def
      prod_over_sum_def moment2_append power2_eq_square)
  have "mean (samples xs @ samples ys) =
      (mean (samples xs) * length xs + mean (samples ys) * length ys) / (length xs + length ys)"
    using nz s(2-4) sum_list_mean [of "samples xs"] sum_list_mean [of "samples ys"]
    by (intro mean_unique) (simp_all add: mult.commute)
  then show "st_avg m = Some (mean (samples (xs @ ys)))"
    using x y w c nz s(1)
    by (simp add: m_def bench_stats_merge_def bench_stats_finalize_def Let_def del: of_int_sint)
qed

lemma bench_stats_eqI:
  fixes s t :: "'d bench_stats"
  assumes "st_avg s = st_avg t" "st_count s = st_count t" "sint (st_min s) = sint (st_min t)"
    "sint (st_max s) = sint (st_max t)" "st_m2 s = st_m2 t" "st_var s = st_var t"
  shows "s = t"
  using assms by (intro bench_stats.equality) (simp_all add: signed_word_eqI)

lemma merge_stats_of:
  assumes "xs @ ys \<noteq> []" "length xs + length ys < 2 ^ 63" "length xs * length ys < 2 ^ 63"
  shows "bench_stats_merge exact (stats_of exact xs) (stats_of exact ys) =
    bench_stats_finalize exact (stats_of exact (xs @ ys))"
proof -
  have "length (xs @ ys) < 2 ^ 63" using assms(2) by simp
  note e = stats_exact [OF this] and m = merge_exact [OF assms]
  show ?thesis
    by (rule bench_stats_eqI)
      (use e m in \<open>simp_all add: merge_fields stats_count stats_extremes s_max_append s_min_append
        bench_stats_finalize_def\<close>)
qed

text \<open>The merge does not look at the deviation of either record.\<close>

lemma merge_finalize:
  "bench_stats_merge A (bench_stats_finalize A s) t = bench_stats_merge A s t"
  "bench_stats_merge A s (bench_stats_finalize A t) = bench_stats_merge A s t"
  by (simp_all add: bench_stats_merge_def bench_stats_finalize_def Let_def)

section \<open>Properties\<close>

text \<open>C20. Count, minimum and maximum, for any arithmetic on doubles: after a reset and one
  update per sample (fewer than \<open>2 ^ 63\<close> of them) they are the number of samples and the
  extremes of their signed values.\<close>

theorem bench_stats_extremes:
  assumes "xs \<noteq> []" "length xs < 2 ^ 63"
  shows "sint (st_count (stats_of A xs)) = int (length xs) \<and>
    sint (st_max (stats_of A xs)) = Max (sint ` set xs) \<and>
    sint (st_min (stats_of A xs)) = Min (sint ` set xs)"
  using assms by (simp add: stats_count sint_small stats_extremes s_max_Max s_min_Min)

theorem bench_stats_extremes_witness:
  "sint (st_max (stats_of exact [3, -5, 4])) = Max {3, -5, 4} \<and>
   sint (st_min (stats_of exact [3, -5, 4])) = Min {3, -5, 4}"
  using bench_stats_extremes [of "[3, -5, 4]" exact] by simp

text \<open>C18. The one-pass update computes the mean and the sum of squared deviations of the
  samples, in exact arithmetic, and \<open>bench_stats_finalize\<close> their standard deviation.\<close>

theorem bench_stats_moments:
  assumes "xs \<noteq> []" "length xs < 2 ^ 63"
  shows "st_avg (stats_of exact xs) = Some (sum_list (samples xs) / length xs) \<and>
    st_m2 (stats_of exact xs) = Some (\<Sum>x\<leftarrow>samples xs. (x - mean (samples xs))\<^sup>2) \<and>
    st_var (bench_stats_finalize exact (stats_of exact xs)) = Some (sqrt (moment2 (samples xs) / length xs))"
proof -
  have "sint (st_count (stats_of exact xs)) = int (length xs)" using assms by (simp add: stats_count sint_small)
  moreover have "real (length xs) \<noteq> 0" using assms(1) by simp
  moreover have "length (samples xs) = length xs" by (simp add: samples_def)
  ultimately show ?thesis
    using stats_exact [OF assms(2)] moment2_nonneg [of "samples xs"]
    by (simp add: mean_def moment2_def bench_stats_finalize_def)
qed

theorem bench_stats_moments_witness: "st_avg (stats_of exact [1, 2, 6]) = Some 3"
  using bench_stats_moments [of "[1, 2, 6]"] by (simp add: samples_def)

text \<open>C19. Merging the statistics of two runs gives the finalized statistics of the runs taken
  together, in every field, as long as there is a sample at all and the product of the two
  counts fits in a signed 64-bit integer.\<close>

theorem bench_stats_merge_correct:
  assumes "xs @ ys \<noteq> []" "length xs + length ys < 2 ^ 63" "length xs * length ys < 2 ^ 63"
  shows "bench_stats_merge exact (stats_of exact xs) (stats_of exact ys) =
    bench_stats_finalize exact (stats_of exact (xs @ ys))"
  using assms by (rule merge_stats_of)

theorem bench_stats_merge_correct_witness:
  "bench_stats_merge exact (stats_of exact []) (stats_of exact [7, 9]) =
    bench_stats_finalize exact (stats_of exact [7, 9])"
  using bench_stats_merge_correct [of "[]" "[7, 9]"] by simp

text \<open>Merging two empty records leaves a mean and a moment that are not numbers, and so
  does every later update.\<close>

lemma bench_stats_merge_empty:
  "st_avg (bench_stats_merge exact (stats_of exact []) (stats_of exact [])) = None \<and>
   st_m2 (bench_stats_merge exact (stats_of exact []) (stats_of exact [])) = None \<and>
   st_avg (foldl (bench_stats_update exact)
     (bench_stats_merge exact (stats_of exact []) (stats_of exact [])) xs) = None"
proof -
  let ?m = "bench_stats_merge exact (stats_of exact []) (stats_of exact [])"
  have n: "ar_add exact x None = None" "ar_add exact None x = None" for x
    by (simp_all add: exact_def lift2_def split: option.split)
  have m: "st_avg ?m = None" "st_m2 ?m = None"
    by (simp_all add: bench_stats_merge_def bench_stats_finalize_def bench_stats_reset_def Let_def square_def
      prod_over_sum_def n) (simp_all add: exact_def lift2_def)
  have "st_avg (foldl (bench_stats_update exact) st xs) = None" if "st_avg st = None" for st
    using that by (induction xs arbitrary: st) (simp_all add: bench_stats_update_def Let_def n)
  then show ?thesis using m by simp
qed

end
