(* ===== verification/Posix_Process.thy ===== *)
theory Posix_Process
  imports Posix_Quiet
begin

text \<open>
  Pipes, child processes and buffered streams, as far as the program uses them. A child is
  represented by what its parent can observe: the bytes it writes to the pipe and its wait
  status. The program that the child executes is a parameter. A child is assumed to be able
  to write all its output, that is, the output fits in the pipe.
\<close>

section \<open>Pipes and descriptors\<close>

definition sys_pipe :: "world \<Rightarrow> int \<times> int \<times> int \<times> world" where
  "sys_pipe w =
    (case next_fault w of
       (Fail e, w) \<Rightarrow> (-1, -1, -1, snd (fail_with e w))
     | (_, w) \<Rightarrow>
        (case free_fd w of
           None \<Rightarrow> (-1, -1, -1, snd (fail_with EMFILE w))
         | Some a \<Rightarrow>
            let w1 = w\<lparr>fds := (fds w)(a \<mapsto> PipeRead a)\<rparr>
            in (case free_fd w1 of
                  None \<Rightarrow> (-1, -1, -1, snd (fail_with EMFILE w))
                | Some b \<Rightarrow> (0, int a, int b, w1\<lparr>fds := (fds w1)(b \<mapsto> PipeWrite a)\<rparr>))))"

definition sys_dup2 :: "int \<Rightarrow> int \<Rightarrow> world \<Rightarrow> int \<times> world" where
  "sys_dup2 old new w =
    (case next_fault w of
       (Fail e, w) \<Rightarrow> fail_with e w
     | (_, w) \<Rightarrow>
        (case fd_lookup w old of
           None \<Rightarrow> fail_with EBADF w
         | Some f \<Rightarrow> (new, w\<lparr>fds := (fds w)(nat new \<mapsto> f)\<rparr>)))"

section \<open>Children\<close>

datatype wstatus = Exited int | Signaled int | Other_status

text \<open>\<open>exit(n)\<close> passes the low eight bits of \<open>n\<close> to the parent.\<close>

definition exit_status :: "int \<Rightarrow> wstatus" where
  "exit_status n = Exited (n mod 256)"

type_synonym child = "string \<times> wstatus"

text \<open>
  The environment of a child: what \<open>execv\<close> of a program with arguments does (an error, or
  output and status), and the schedule of failures of the child's own calls.
\<close>

record child_env =
  exec_prog :: "cstring \<Rightarrow> cstring list \<Rightarrow> errno + child"
  child_faults :: "fault list"

text \<open>
  \<open>fork\<close>: \<open>None\<close> when it fails, else what becomes of the child, which starts with a copy of the
  world of its parent.
\<close>

definition sys_fork :: "(world \<Rightarrow> child) \<Rightarrow> child_env \<Rightarrow> world \<Rightarrow> child option \<times> world" where
  "sys_fork child env w =
    (case next_fault w of
       (Fail e, w) \<Rightarrow> (None, snd (fail_with e w))
     | (_, w) \<Rightarrow> (Some (child (w\<lparr>faults := child_faults env\<rparr>)), w))"

definition sys_waitpid :: "child \<Rightarrow> world \<Rightarrow> int \<times> wstatus \<times> world" where
  "sys_waitpid ch w =
    (case next_fault w of
       (Fail e, w) \<Rightarrow> (-1, snd ch, snd (fail_with e w))
     | (_, w) \<Rightarrow> (0, snd ch, w))"

section \<open>Streams\<close>

record stream =
  f_fd :: int
  f_data :: string
  f_eof :: bool
  f_err :: bool

definition c_fdopen :: "int \<Rightarrow> string \<Rightarrow> world \<Rightarrow> stream option \<times> world" where
  "c_fdopen fd data w =
    (case next_fault w of
       (Fail e, w) \<Rightarrow> (None, snd (fail_with e w))
     | (_, w) \<Rightarrow> (Some \<lparr>f_fd = fd, f_data = data, f_eof = False, f_err = False\<rparr>, w))"

definition c_fclose :: "stream \<Rightarrow> world \<Rightarrow> world" where
  "c_fclose f w = snd (sys_close (f_fd f) w)"

text \<open>The first line, with its newline if it has one, and the rest.\<close>

definition first_line :: "string \<Rightarrow> string \<times> string" where
  "first_line s =
    (let l = takeWhile (\<lambda>c. c \<noteq> CHR 0x0A) s;
         r = drop (length l) s
     in case r of [] \<Rightarrow> (l, []) | c # r' \<Rightarrow> (l @ [c], r'))"

lemma first_line_append: "fst (first_line s) @ snd (first_line s) = s"
proof -
  let ?l = "takeWhile (\<lambda>c. c \<noteq> CHR 0x0A) s"
  have "?l @ drop (length ?l) s = s" by (metis dropWhile_eq_drop takeWhile_dropWhile_id)
  then show ?thesis by (auto simp: first_line_def Let_def split: list.split)
qed

lemma first_line_nonempty: "s \<noteq> [] \<Longrightarrow> fst (first_line s) \<noteq> []"
  by (cases s) (auto simp: first_line_def Let_def split: list.split)

lemma first_line_shorter: "s \<noteq> [] \<Longrightarrow> length (snd (first_line s)) < length s"
  using first_line_append [of s] first_line_nonempty [of s]
  by (metis length_append length_greater_0_conv less_add_same_cancel2)

text \<open>
  \<open>getline\<close>: the length and the new value of the line pointer. The buffer is allocated when
  the pointer is null, also when nothing can be read; its bytes are then indeterminate. End of
  file is a failure that leaves \<open>errno\<close> alone.
\<close>

definition line_buffer :: "ptr \<Rightarrow> world \<Rightarrow> ptr \<times> world" where
  "line_buffer p w = (if p = NULL then alloc (map (stack_byte w) [0..<120]) w else (p, w))"

definition c_getline :: "ptr \<Rightarrow> stream \<Rightarrow> world \<Rightarrow> int \<times> ptr \<times> stream \<times> world" where
  "c_getline p f w =
    (case next_fault w of
       (Fail e, w) \<Rightarrow> (let (p, w) = line_buffer p w in (-1, p, f\<lparr>f_err := True\<rparr>, snd (fail_with e w)))
     | (_, w) \<Rightarrow>
        let (p, w) = line_buffer p w
        in if f_data f = [] then (-1, p, f\<lparr>f_eof := True\<rparr>, w)
           else
             let (l, r) = first_line (f_data f)
             in (int (length l), p, f\<lparr>f_data := r, f_eof := (last l \<noteq> CHR 0x0A)\<rparr>,
                 w\<lparr>heap := (heap w)(p \<mapsto> l @ [NUL])\<rparr>))"

end
