(* ===== verification/Compiler_Properties.thy ===== *)
theory Compiler_Properties
  imports Posix_Process
begin

text \<open>
  The functions of \<^verbatim>\<open>c/compiler_properties.c\<close>: \<open>skip_whitespace\<close> strips a line in place,
  \<open>get_gcc_triplet\<close> and \<open>get_march_native\<close> run the compiler in a child process and read what it
  prints through a pipe. The compiler is the parameter \<open>exec_prog\<close> of the child environment.
  Messages on standard output are not modelled.
\<close>

section \<open>Stripping white space\<close>

definition isspace :: "char \<Rightarrow> bool" where
  "isspace c \<longleftrightarrow> c \<in> {CHR '' '', CHR 0x09, CHR 0x0A, CHR 0x0B, CHR 0x0C, CHR 0x0D}"

text \<open>
  The argument is a plain \<^verbatim>\<open>char\<close>, signed on the targets of the program: \<open>isspace\<close> is defined on
  the values of an \<^verbatim>\<open>unsigned char\<close> and on \<open>EOF\<close>, which is -1, and on no other negative value. The C
  library of the model answers no there as well, and the violation is recorded, once for a string.
\<close>

definition isspace_defined :: "char \<Rightarrow> bool" where
  "isspace_defined c \<longleftrightarrow> (of_char c :: nat) < 128 \<or> (of_char c :: nat) = 255"

definition isspace_log :: "string \<Rightarrow> ub list" where
  "isspace_log s = (if list_all isspace_defined s then [] else [Ctype_domain])"

definition isspace_checked :: "cbuffer \<Rightarrow> world \<Rightarrow> world" where
  "isspace_checked str w = w\<lparr>ub_log := ub_log w @ isspace_log (cstr str)\<rparr>"

text \<open>
  The loop with its two indices \<open>w\<close> and \<open>r\<close>: \<open>None\<close> is the branch that gives up and exits. A
  buffer without a NUL is read past its end, which is \<open>None\<close> as well.
\<close>

function skip_loop :: "cbuffer \<Rightarrow> nat \<Rightarrow> nat \<Rightarrow> nat \<Rightarrow> (cbuffer \<times> nat \<times> nat) option" where
  "skip_loop str w r len =
    (if length str \<le> r then None
     else if str ! r = NUL then Some (str, w, len)
     else if isspace (str ! r) then skip_loop str w (Suc r) len
     else if w < r then skip_loop (str[w := str ! r]) (Suc w) (Suc r) (Suc len)
     else if w = r then skip_loop str (Suc w) (Suc r) (Suc len)
     else None)"
  by pat_completeness auto
termination
  by (relation "measure (\<lambda>(str, w, r, len). length str - r)") auto

declare skip_loop.simps [simp del]

definition skip_whitespace :: "cbuffer \<Rightarrow> (cbuffer \<times> nat) option" where
  "skip_whitespace str =
    (case skip_loop str 0 0 0 of None \<Rightarrow> None | Some (str, w, len) \<Rightarrow> Some (str[w := NUL], len))"

section \<open>The triplet\<close>

text \<open>The child: \<open>exit\<close> with an error number, or the compiler with its arguments.\<close>

definition exit_errno :: "int \<Rightarrow> int \<Rightarrow> child" where
  "exit_errno e n = ([], exit_status (if e \<noteq> 0 then e else n))"

text \<open>
  From the redirection of standard input on, the two children are the same. What the compiler
  prints reaches the pipe when standard output still is one.
\<close>

definition child_exec :: "child_env \<Rightarrow> cstring \<Rightarrow> cstring list \<Rightarrow> int \<times> int \<Rightarrow> world \<Rightarrow> child" where
  "child_exec env compiler args pipefd w =
    (let (_, w) = sys_close (fst pipefd) w;
         (nullfd, w) = sys_open ''/dev/null'' [O_RDONLY] w;
         w = (if 0 \<le> nullfd then snd (sys_close nullfd (snd (sys_dup2 nullfd 0 w))) else w);
         (r, w) = sys_dup2 (snd pipefd) 1 w
     in if r < 0 then exit_errno (errno w) 125
        else
          (let (_, w) = sys_close (snd pipefd) w
           in case exec_prog env compiler args of
                Inl e \<Rightarrow> exit_errno (errno_val e) 126
              | Inr (out, status) \<Rightarrow>
                  (case fds w 1 of Some (PipeWrite _) \<Rightarrow> (out, status) | _ \<Rightarrow> ([], status))))"

definition triplet_child :: "child_env \<Rightarrow> cstring \<Rightarrow> int \<times> int \<Rightarrow> world \<Rightarrow> child" where
  "triplet_child env compiler pipefd w =
    (let (p, w) = c_strdup (compiler @ [NUL]) w
     in if p = NULL then ([], exit_status (errno_val ENOMEM))
        else child_exec env compiler [compiler, ''-dumpmachine''] pipefd w)"

text \<open>
  The code after the label: \<open>pipe0\<close> is \<open>pipefd[0]\<close>, \<open>value\<close> the out parameter and what it
  points to. The assignment of the null pointer goes to the parameter, not to what it points to.
\<close>

definition triplet_out ::
  "int \<Rightarrow> stream option \<Rightarrow> int \<Rightarrow> ptr \<Rightarrow> ptr option \<Rightarrow> world \<Rightarrow> int \<times> ptr option \<times> world" where
  "triplet_out err gccpipe pipe0 cmd value w =
    (let (w, pipe0) = (case gccpipe of Some f \<Rightarrow> (c_fclose f w, -1) | None \<Rightarrow> (w, pipe0));
         w = (if 0 \<le> pipe0 then snd (sys_close pipe0 w) else w);
         w = c_free cmd w;
         w = (case value of Some p \<Rightarrow> if err \<noteq> 0 then c_free p w else w | None \<Rightarrow> w)
     in (err, value, w))"

text \<open>The decoding of the wait status: the value of \<open>err\<close>.\<close>

definition status_err :: "wstatus \<Rightarrow> int" where
  "status_err s = (case s of Exited n \<Rightarrow> n | Signaled n \<Rightarrow> n | Other_status \<Rightarrow> - errno_val EINVAL)"

text \<open>Cutting the line at its newline.\<close>

definition cut_newline :: "ptr \<Rightarrow> world \<Rightarrow> world" where
  "cut_newline p w =
    (case heap w p of
       None \<Rightarrow> log_ub (Dangling_pointer p) w
     | Some b \<Rightarrow>
        (case strchr_at b 0 (CHR 0x0A) of
           None \<Rightarrow> w
         | Some i \<Rightarrow> w\<lparr>heap := (heap w)(p \<mapsto> b[i := NUL])\<rparr>))"

text \<open>The parent, once the child runs.\<close>

definition triplet_parent ::
  "child \<Rightarrow> int \<times> int \<Rightarrow> ptr \<Rightarrow> ptr \<Rightarrow> world \<Rightarrow> int \<times> ptr option \<times> world" where
  "triplet_parent ch pipefd cmd val w =
    (let (_, w) = sys_close (snd pipefd) w;
         (gccpipe, w) = c_fdopen (fst pipefd) (fst ch) w
     in case gccpipe of
          None \<Rightarrow> triplet_out (if errno w \<noteq> 0 then - errno w else - errno_val ENOMEM) None (fst pipefd) cmd (Some val) w
        | Some f \<Rightarrow>
            let w = (if val \<noteq> NULL then c_free val w else w);
                (len, val, f, w) = c_getline NULL f w
            in if len < 0 then triplet_out (- errno w) (Some f) (fst pipefd) cmd (Some val) w
               else
                 let (r, wstatus, w) = sys_waitpid ch w
                 in if r < 0 then triplet_out (- errno w) (Some f) (fst pipefd) cmd (Some val) w
                    else if status_err wstatus \<noteq> 0
                    then triplet_out (status_err wstatus) (Some f) (fst pipefd) cmd (Some val) w
                    else triplet_out 0 (Some f) (fst pipefd) cmd (Some val) (cut_newline val w))"

definition get_gcc_triplet ::
  "child_env \<Rightarrow> cstring \<Rightarrow> ptr option \<Rightarrow> world \<Rightarrow> int \<times> ptr option \<times> world" where
  "get_gcc_triplet env compiler value w =
    (case value of
       None \<Rightarrow> triplet_out (- errno_val EINVAL) None (-1) NULL value w
     | Some val \<Rightarrow>
        let (r, p0, p1, w) = sys_pipe w
        in if r < 0 then triplet_out (- errno w) None p0 NULL value w
           else
             let (n, cmd, w) = c_asprintf (compiler @ '' -dumpmachine'') w
             in if n < 0 then triplet_out (- errno_val ENOMEM) None p0 NULL value w
                else
                  let (pid, w) = sys_fork (triplet_child env compiler (p0, p1)) env w
                  in (case pid of
                        None \<Rightarrow> triplet_out (- errno w) None p0 cmd value w
                      | Some ch \<Rightarrow> triplet_parent ch (p0, p1) cmd val w))"

section \<open>The processor\<close>

definition march_child :: "child_env \<Rightarrow> cstring \<Rightarrow> cstring \<Rightarrow> int \<times> int \<Rightarrow> world \<Rightarrow> child" where
  "march_child env compiler opt pipefd w =
    (let (p, w) = c_strdup (compiler @ [NUL]) w
     in if p = NULL then ([], exit_status (errno_val ENOMEM))
        else
          let (n, _, w) = c_asprintf (''-'' @ opt @ ''=native'') w
          in if n < 0 then ([], exit_status (errno_val ENOMEM))
             else child_exec env compiler [compiler, ''-'' @ opt @ ''=native'', ''-Q'', ''--help=target''] pipefd w)"

definition march_out ::
  "int \<Rightarrow> stream option \<Rightarrow> int \<Rightarrow> ptr \<Rightarrow> ptr \<Rightarrow> ptr option \<Rightarrow> world \<Rightarrow> int \<times> ptr option \<times> world" where
  "march_out err gccpipe pipe0 cmd line value w =
    (let (value, w) = (case value of
           Some p \<Rightarrow> if err \<noteq> 0 then (Some NULL, c_free p w) else (value, w) | None \<Rightarrow> (value, w));
         (w, pipe0) = (case gccpipe of Some f \<Rightarrow> (c_fclose f w, -1) | None \<Rightarrow> (w, pipe0));
         w = (if 0 \<le> pipe0 then snd (sys_close pipe0 w) else w);
         w = c_free line w;
         w = c_free cmd w
     in (err, value, w))"

text \<open>The tests on a stripped line of length \<open>len\<close>.\<close>

definition march_match :: "cstring \<Rightarrow> cbuffer \<Rightarrow> nat \<Rightarrow> bool" where
  "march_match opt line len \<longleftrightarrow>
     \<not> (len < 2 \<or> line ! 0 \<noteq> CHR ''-'') \<and>
     \<not> (len < length opt + 3 \<or> line ! (length opt + 1) \<noteq> CHR ''='') \<and>
     take (length opt) (drop 1 (cstr line)) = opt"

lemma getline_shorter:
  "c_getline p f w = (len, p', f', w') \<Longrightarrow> \<not> len < 0 \<Longrightarrow> length (f_data f') < length (f_data f)"
  using first_line_shorter [of "f_data f"]
  by (fastforce simp: c_getline_def Let_def split: prod.splits fault.splits if_splits)

text \<open>
  The loop over the lines: \<open>Inl err\<close> when it jumps to the label, \<open>Inr\<close> the value found or the
  null pointer when it ends. \<open>skip_whitespace\<close> gives up on no line that \<open>getline\<close> stores.
\<close>

function march_loop ::
  "cstring \<Rightarrow> ptr \<Rightarrow> stream \<Rightarrow> world \<Rightarrow> (int + ptr) \<times> ptr \<times> stream \<times> world" where
  "march_loop opt line f w =
    (if f_eof f \<or> f_err f then (Inr NULL, line, f, w)
     else
       (case c_getline line f w of (len, line, f', w) \<Rightarrow>
         if len < 0 then (Inl (- errno w), line, f', w)
         else
           (case skip_whitespace (the (heap w line)) of
              None \<Rightarrow> (Inl 1, line, f', log_ub Unterminated_string w)
            | Some (buf, len) \<Rightarrow>
                let w = (isspace_checked (the (heap w line)) w)\<lparr>heap := (heap w)(line \<mapsto> buf)\<rparr>
                in if march_match opt buf len then
                     (case c_strdup (drop (length opt + 2) buf) w of (p, w) \<Rightarrow>
                       if p = NULL then (Inl (- errno_val ENOMEM), line, f', w)
                       else (Inr p, line, f', w))
                   else march_loop opt line f' w)))"
  by pat_completeness auto
termination
  by (relation "measure (\<lambda>(opt, line, f, w). length (f_data f))") (auto dest: getline_shorter [OF sym])

declare march_loop.simps [simp del]

text \<open>The parent, once the child runs.\<close>

definition march_parent ::
  "child \<Rightarrow> int \<times> int \<Rightarrow> ptr \<Rightarrow> cstring \<Rightarrow> world \<Rightarrow> int \<times> ptr option \<times> world" where
  "march_parent ch pipefd cmd opt w =
    (let (_, w) = sys_close (snd pipefd) w;
         (gccpipe, w) = c_fdopen (fst pipefd) (fst ch) w
     in case gccpipe of
          None \<Rightarrow> march_out (if errno w \<noteq> 0 then - errno w else - errno_val ENOMEM) None (fst pipefd) cmd NULL (Some NULL) w
        | Some f \<Rightarrow>
            (case march_loop opt NULL f w of
               (Inl err, line, f, w) \<Rightarrow> march_out err (Some f) (fst pipefd) cmd line (Some NULL) w
             | (Inr val, line, f, w) \<Rightarrow>
                let (r, wstatus, w) = sys_waitpid ch w
                in if r < 0 then march_out (- errno w) (Some f) (fst pipefd) cmd line (Some val) w
                   else if status_err wstatus \<noteq> 0
                   then march_out (status_err wstatus) (Some f) (fst pipefd) cmd line (Some val) w
                   else if val = NULL
                   then march_out (- errno_val ENOENT) (Some f) (fst pipefd) cmd line (Some val) w
                   else march_out 0 (Some f) (fst pipefd) cmd line (Some val) w))"

definition get_march_native ::
  "child_env \<Rightarrow> cstring \<Rightarrow> cstring \<Rightarrow> ptr option \<Rightarrow> world \<Rightarrow> int \<times> ptr option \<times> world" where
  "get_march_native env compiler opt value w =
    (case value of
       None \<Rightarrow> march_out (- errno_val EINVAL) None (-1) NULL NULL value w
     | Some val \<Rightarrow>
        let w = (if val \<noteq> NULL then c_free val w else w);
            value = Some NULL;
            (n, cmd, w) = c_asprintf (compiler @ '' -'' @ opt @ ''=native -Q --help=target'') w
        in if n < 0 then march_out (- errno_val ENOMEM) None (-1) NULL NULL value w
           else
             let (r, p0, p1, w) = sys_pipe w
             in if r < 0 then march_out (- errno w) None p0 cmd NULL value w
                else
                  let (pid, w) = sys_fork (march_child env compiler opt (p0, p1)) env w
                  in (case pid of
                        None \<Rightarrow> march_out (- errno w) None p0 cmd NULL value w
                      | Some ch \<Rightarrow> march_parent ch (p0, p1) cmd opt w))"

section \<open>Stripping in place\<close>

lemma skip_loop_spec:
  assumes "NUL \<notin> set s"
  shows "\<exists>junk'. skip_loop (out @ junk @ s @ NUL # post) (length out) (length out + length junk) len =
      Some (out @ filter (\<lambda>c. \<not> isspace c) s @ junk' @ NUL # post,
        length out + length (filter (\<lambda>c. \<not> isspace c) s), len + length (filter (\<lambda>c. \<not> isspace c) s)) \<and>
    length junk' + length (filter (\<lambda>c. \<not> isspace c) s) = length junk + length s"
  using assms
proof (induction s arbitrary: out junk len)
  case Nil
  show ?case by (subst skip_loop.simps) (auto simp: nth_append)
next
  case (Cons c s)
  let ?buf = "out @ junk @ (c # s) @ NUL # post" and ?r = "length out + length junk"
  have r: "?buf ! ?r = c" "c \<noteq> NUL" "\<not> length ?buf \<le> ?r" using Cons.prems by (auto simp: nth_append)
  show ?case
  proof (cases "isspace c")
    case True
    then have "skip_loop ?buf (length out) ?r len = skip_loop ?buf (length out) (Suc ?r) len"
      using r by (subst skip_loop.simps) simp
    then show ?thesis using Cons.IH [of out "junk @ [c]" len] Cons.prems True by simp
  next
    case False
    have step: "skip_loop ?buf (length out) ?r len =
        skip_loop (?buf[length out := c]) (Suc (length out)) (Suc ?r) (Suc len)"
    proof (cases "junk = []")
      case True
      then show ?thesis using r False by (subst skip_loop.simps) (simp add: list_update_append)
    next
      case False
      then show ?thesis using r \<open>\<not> isspace c\<close> by (subst skip_loop.simps) simp
    qed
    have "?buf[length out := c] = (out @ [c]) @ (tl (junk @ [c])) @ s @ NUL # post"
      by (cases junk) (simp_all add: list_update_append)
    then show ?thesis
      using step Cons.IH [of "out @ [c]" "tl (junk @ [c])" "Suc len"] Cons.prems False by simp
  qed
qed

lemma skip_whitespace_spec:
  assumes "NUL \<notin> set s"
  shows "\<exists>junk. skip_whitespace (s @ NUL # post) =
      Some (filter (\<lambda>c. \<not> isspace c) s @ NUL # junk, length (filter (\<lambda>c. \<not> isspace c) s)) \<and>
    length junk = length s - length (filter (\<lambda>c. \<not> isspace c) s) + length post"
proof -
  let ?f = "filter (\<lambda>c. \<not> isspace c) s"
  from skip_loop_spec [OF assms, of "[]" "[]" post 0] obtain junk where
    sk: "skip_loop (s @ NUL # post) 0 0 0 = Some (?f @ junk @ NUL # post, length ?f, length ?f)"
    and l: "length junk + length ?f = length s" by auto
  have "(?f @ junk @ NUL # post)[length ?f := NUL] = ?f @ NUL # tl (junk @ NUL # post)"
    by (cases junk) (simp_all add: list_update_append)
  then show ?thesis using l by (auto simp: skip_whitespace_def sk)
qed


section \<open>Running the compiler on a system without faults\<close>

lemma quiet_pipe:
  assumes "faults w = []" "room 2 w"
  shows "\<exists>a b. sys_pipe w = (0, int a, int b, w\<lparr>fds := (fds w)(a \<mapsto> PipeRead a, b \<mapsto> PipeWrite a)\<rparr>) \<and>
    a \<noteq> b \<and> fds w a = None \<and> fds w b = None"
proof -
  have "room (Suc (Suc 0)) w" using assms(2) by (simp add: numeral_2_eq_2)
  from room_free [OF this] obtain a where a: "free_fd w = Some a" "fds w a = None" "a < fd_max w" by blast
  let ?w1 = "w\<lparr>fds := (fds w)(a \<mapsto> PipeRead a)\<rparr>"
  have "room (Suc 0) ?w1" using room_install [OF \<open>room (Suc (Suc 0)) w\<close> a(2,3), of ?w1] by simp
  from room_free [OF this] obtain b where b: "free_fd ?w1 = Some b" "fds ?w1 b = None" by blast
  then show ?thesis using a assms(1)
    by (auto simp: sys_pipe_def quiet_fault Let_def split: if_splits intro!: exI [of _ a] exI [of _ b])
qed

lemma quiet_openat_faults:
  assumes "faults w = []" "sys_openat d p fl w = (r, w')"
  shows "faults w' = []"
proof -
  have ni: "new_inode d' n c w = (j, w2) \<Longrightarrow> faults w2 = []" for d' n c j w2
    using fd_max_new_inode(2) [of d' n c w] assms(1) by simp
  show ?thesis using assms
    by (auto simp: sys_openat_def quiet_fault open_existing_def install_fd_def fail_with_def
      split: option.splits sum.splits content.splits if_splits prod.splits dest: ni)
qed

lemma quiet_dup2:
  "faults w = [] \<Longrightarrow> fds w o' = Some f \<Longrightarrow> sys_dup2 (int o') (int n) w = (int n, w\<lparr>fds := (fds w)(n \<mapsto> f)\<rparr>)"
  by (simp add: sys_dup2_def quiet_fault fd_lookup_def)

lemma quiet_child_exec:
  assumes q: "faults w = []" and p0: "fds w p0 \<noteq> None" and p1: "fds w p1 = Some (PipeWrite k)"
    and ne: "p1 \<noteq> 0" "p1 \<noteq> 1" "p0 \<noteq> p1" and ex: "exec_prog env compiler args = Inr ch"
  shows "child_exec env compiler args (int p0, int p1) w = ch"
proof -
  let ?w1 = "w\<lparr>fds := (fds w)(p0 := None), flocks := (flocks w)(p0 := None)\<rparr>"
  obtain r w2 where op: "sys_open ''/dev/null'' [O_RDONLY] ?w1 = (r, w2)" by fastforce
  have q2: "faults w2 = []" using quiet_openat_faults [OF _ op [unfolded sys_open_def]] q by simp
  let ?w3 = "if 0 \<le> r then snd (sys_close r (snd (sys_dup2 r 0 w2))) else w2"
  have 3: "faults ?w3 = [] \<and> fds ?w3 p1 = Some (PipeWrite k)"
    using sys_open_opened [OF op] unfolding opened_def
  proof (elim disjE exE conjE)
    assume "r = -1" "res w2 = res ?w1"
    then show ?thesis using q2 p1 ne res_eqD(1) [of w2 "res ?w1"] by simp
  next
    fix n f assume n: "r = int n" "fds ?w1 n = None" and "res w2 = res ?w1\<lparr>rs_fds := (fds ?w1)(n \<mapsto> f)\<rparr>"
    then have f2: "fds w2 = (fds w)(p0 := None, n \<mapsto> f)" by (auto dest: res_eqD(1))
    have "n \<noteq> p1" using n(2) p1 ne by auto
    then show ?thesis
      using n f2 q2 p1 ne quiet_dup2 [of w2 n f 0] by (simp add: quiet_close)
  qed
  have cl: "sys_close (int p0) w = (0, ?w1)" using quiet_close [OF q p0] .
  have d: "sys_dup2 (int p1) 1 ?w3 = (1, ?w3\<lparr>fds := (fds ?w3)(1 \<mapsto> PipeWrite k)\<rparr>)"
    using quiet_dup2 [of ?w3 p1 "PipeWrite k" 1] 3 by simp
  let ?w4 = "?w3\<lparr>fds := (fds ?w3)(1 \<mapsto> PipeWrite k)\<rparr>"
  have "sys_close (int p1) ?w4 = (0, ?w4\<lparr>fds := (fds ?w4)(p1 := None), flocks := (flocks ?w4)(p1 := None)\<rparr>)"
    using 3 by (intro quiet_close) auto
  then show ?thesis using cl op d ex ne by (cases ch) (simp add: child_exec_def Let_def del: if_split)
qed

text \<open>The state in which the parent starts to listen.\<close>

lemma triplet_start:
  assumes q: "faults w = []" "proc_ok w" "room 2 w" and std: "fds w 0 \<noteq> None" "fds w 1 \<noteq> None"
    and env: "child_faults env = []" "exec_prog env compiler [compiler, ''-dumpmachine''] = Inr ch" "NUL \<notin> set compiler"
  shows "\<exists>a b s. get_gcc_triplet env compiler (Some val) w = triplet_parent ch (int a, int b) (next_ptr w) val
      (w\<lparr>fds := (fds w)(a \<mapsto> PipeRead a, b \<mapsto> PipeWrite a), heap := (heap w)(next_ptr w \<mapsto> s),
         next_ptr := Suc (next_ptr w)\<rparr>) \<and>
    a \<noteq> b \<and> fds w a = None \<and> fds w b = None"
proof -
  from quiet_pipe [OF q(1,3)] obtain a b where
    pp: "sys_pipe w = (0, int a, int b, w\<lparr>fds := (fds w)(a \<mapsto> PipeRead a, b \<mapsto> PipeWrite a)\<rparr>)"
    and ab: "a \<noteq> b" "fds w a = None" "fds w b = None" by blast
  let ?w1 = "w\<lparr>fds := (fds w)(a \<mapsto> PipeRead a, b \<mapsto> PipeWrite a)\<rparr>"
  let ?s = "(compiler @ '' -dumpmachine'') @ [NUL]"
  let ?w2 = "?w1\<lparr>heap := (heap w)(next_ptr w \<mapsto> ?s), next_ptr := Suc (next_ptr w)\<rparr>"
  have as: "c_asprintf (compiler @ '' -dumpmachine'') ?w1 =
      (int (length (compiler @ '' -dumpmachine'')), next_ptr w, ?w2)"
    using quiet_asprintf [of ?w1] q(1) by simp
  have "triplet_child env compiler (int a, int b) (?w2\<lparr>faults := []\<rparr>) = ch"
  proof -
    let ?c = "?w2\<lparr>faults := []\<rparr>"
    have sd: "c_strdup (compiler @ [NUL]) ?c = (next_ptr ?c, ?c\<lparr>heap := (heap ?c)(next_ptr ?c \<mapsto> cstr (compiler @ [NUL]) @ [NUL]),
        next_ptr := Suc (next_ptr ?c)\<rparr>)"
      by (rule quiet_strdup) (simp_all add: terminated_def)
    have "b \<noteq> 0" "b \<noteq> 1" using ab std by metis+
    then show ?thesis using ab env(2)
      unfolding triplet_child_def sd Let_def prod.case
      by (simp add: quiet_child_exec [of _ a b a])
  qed
  then have "sys_fork (triplet_child env compiler (int a, int b)) env ?w2 = (Some ch, ?w2)"
    using q(1) env(1) by (simp add: sys_fork_def quiet_fault)
  then show ?thesis using ab
    by (intro exI [of _ a] exI [of _ b] exI [of _ ?s]) (simp add: get_gcc_triplet_def pp as Let_def)
qed


text \<open>The blocks of the heap once the old value, if any, has been freed.\<close>

definition freed :: "ptr \<Rightarrow> (ptr \<rightharpoonup> cbuffer) \<Rightarrow> (ptr \<rightharpoonup> cbuffer)" where
  "freed p h = (if p = NULL then h else h(p := None))"

lemma c_free_live: "heap w p \<noteq> None \<or> p = NULL \<Longrightarrow> (if p \<noteq> NULL then c_free p w else w) = w\<lparr>heap := freed p (heap w)\<rparr>"
  by (auto simp: c_free_def freed_def)

text \<open>Closing the write end and opening the stream.\<close>

lemma parent_opens:
  fixes s :: cbuffer
  assumes q: "faults w = []" "proc_ok w" and ab: "a \<noteq> b" "fds w a = None" "fds w b = None"
    and v: "val = NULL \<or> heap w val \<noteq> None"
  defines "w1 \<equiv> w\<lparr>fds := (fds w)(a \<mapsto> PipeRead a, b \<mapsto> PipeWrite a), heap := (heap w)(next_ptr w \<mapsto> s),
      next_ptr := Suc (next_ptr w)\<rparr>"
    and "w2 \<equiv> w\<lparr>fds := (fds w)(a \<mapsto> PipeRead a), heap := (heap w)(next_ptr w \<mapsto> s),
      next_ptr := Suc (next_ptr w)\<rparr>"
  shows "sys_close (int b) w1 = (0, w2)"
    and "c_fdopen (int a) data w2 = (Some \<lparr>f_fd = int a, f_data = data, f_eof = False, f_err = False\<rparr>, w2)"
    and "(if val \<noteq> NULL then c_free val w2 else w2) =
      w\<lparr>fds := (fds w)(a \<mapsto> PipeRead a), heap := (freed val (heap w))(next_ptr w \<mapsto> s),
        next_ptr := Suc (next_ptr w)\<rparr>"
proof -
  have fl: "(flocks w)(b := None) = flocks w" using q(2) ab(3) by (auto simp: proc_ok_def fun_eq_iff)
  have fd: "(fds w)(a \<mapsto> PipeRead a, b := None) = (fds w)(a \<mapsto> PipeRead a)" using ab by (auto simp: fun_eq_iff)
  have "sys_close (int b) w1 = (0, w1\<lparr>fds := (fds w1)(b := None), flocks := (flocks w1)(b := None)\<rparr>)"
    using q(1) by (intro quiet_close) (simp_all add: w1_def)
  then show "sys_close (int b) w1 = (0, w2)" using fl fd by (simp add: w1_def w2_def)
  show "c_fdopen (int a) data w2 = (Some \<lparr>f_fd = int a, f_data = data, f_eof = False, f_err = False\<rparr>, w2)"
    using q(1) by (simp add: c_fdopen_def w2_def quiet_fault)
  have "heap w (next_ptr w) = None" using q(2) by (auto simp: proc_ok_def dest: heap_okD)
  then have "val \<noteq> next_ptr w" using v q(2) by (auto simp: proc_ok_def heap_ok_def)
  moreover from this have "freed val ((heap w)(next_ptr w \<mapsto> s)) = (freed val (heap w))(next_ptr w \<mapsto> s)"
    by (auto simp: freed_def)
  moreover have "heap w2 val \<noteq> None \<or> val = NULL" using v by (auto simp: w2_def)
  ultimately show "(if val \<noteq> NULL then c_free val w2 else w2) =
      w\<lparr>fds := (fds w)(a \<mapsto> PipeRead a), heap := (freed val (heap w))(next_ptr w \<mapsto> s),
        next_ptr := Suc (next_ptr w)\<rparr>"
    using c_free_live [of w2 val] by (simp add: w2_def)
qed

text \<open>The clean-up with the stream open.\<close>

lemma close_read_end:
  assumes "faults w3 = []" "proc_ok w" "fds w a = None" "fds w3 = (fds w)(a \<mapsto> PipeRead a)" "flocks w3 = flocks w"
  shows "sys_close (int a) w3 = (0, w3\<lparr>fds := fds w, flocks := flocks w\<rparr>)"
proof -
  have "(fds w)(a := None) = fds w" "(flocks w)(a := None) = flocks w"
    using assms(2,3) by (auto simp: proc_ok_def fun_eq_iff)
  moreover have "sys_close (int a) w3 = (0, w3\<lparr>fds := (fds w3)(a := None), flocks := (flocks w3)(a := None)\<rparr>)"
    using assms by (intro quiet_close) simp_all
  ultimately show ?thesis using assms(4,5) by simp
qed

lemma strchr_newline:
  assumes "NUL \<notin> set line" "CHR 0x0A \<notin> set line"
  shows "strchr_at (line @ CHR 0x0A # r @ [NUL]) 0 (CHR 0x0A) = Some (length line)"
proof -
  have "takeWhile (\<lambda>x. x \<noteq> CHR 0x0A) (line @ CHR 0x0A # x) = line" for x
    using assms(2) by (induction line) auto
  moreover have "cstr (line @ CHR 0x0A # y) = line @ CHR 0x0A # cstr y" for y
    using assms(1) by (induction line) (auto simp: cstr_def)
  ultimately show ?thesis by (simp add: strchr_at_def Let_def)
qed

lemma quiet_triplet_parent:
  fixes s :: cbuffer
  assumes q: "faults w = []" "proc_ok w" and ab: "a \<noteq> b" "fds w a = None" "fds w b = None"
    and v: "val = NULL \<or> heap w val \<noteq> None"
    and line: "NUL \<notin> set line" "CHR 0x0A \<notin> set line"
  defines "w1 \<equiv> w\<lparr>fds := (fds w)(a \<mapsto> PipeRead a, b \<mapsto> PipeWrite a), heap := (heap w)(next_ptr w \<mapsto> s),
      next_ptr := Suc (next_ptr w)\<rparr>" and "p \<equiv> Suc (next_ptr w)"
  shows "\<exists>w'. triplet_parent (line @ CHR 0x0A # rest, st) (int a, int b) (next_ptr w) val w1 =
      (status_err st, Some p, w') \<and> fds w' = fds w \<and> flocks w' = flocks w \<and> ub_log w' = ub_log w \<and>
      faults w' = [] \<and> next_ptr w' = Suc p \<and> fd_max w' = fd_max w \<and>
      heap w' = (if status_err st = 0 then (freed val (heap w))(p \<mapsto> line @ [NUL, NUL]) else freed val (heap w))"
proof -
  note po = parent_opens [OF q ab v, where s = s, folded w1_def p_def]
  let ?w2 = "w\<lparr>fds := (fds w)(a \<mapsto> PipeRead a), heap := (freed val (heap w))(next_ptr w \<mapsto> s), next_ptr := p\<rparr>"
  let ?f = "\<lparr>f_fd = int a, f_data = line @ CHR 0x0A # rest, f_eof = False, f_err = False\<rparr>"
  have fl: "first_line (line @ CHR 0x0A # rest) = (line @ [CHR 0x0A], rest)"
  proof -
    have "takeWhile (\<lambda>c. c \<noteq> CHR 0x0A) (line @ CHR 0x0A # rest) = line"
      using line(2) by (induction line) auto
    then show ?thesis by (simp add: first_line_def)
  qed
  let ?w3 = "w\<lparr>fds := (fds w)(a \<mapsto> PipeRead a), heap := (freed val (heap w))(next_ptr w \<mapsto> s, p \<mapsto> line @ [CHR 0x0A, NUL]), next_ptr := Suc p\<rparr>"
  have gl: "c_getline NULL ?f ?w2 = (int (length line + 1), p, ?f\<lparr>f_data := rest\<rparr>, ?w3)"
    using q(1) by (simp add: c_getline_def quiet_fault line_buffer_def alloc_def fl p_def)
  have wp: "sys_waitpid (line @ CHR 0x0A # rest, st) ?w3 = (0, st, ?w3)"
    using q(1) by (simp add: sys_waitpid_def quiet_fault)
  have hp: "heap w (next_ptr w) = None" "heap w p = None" "next_ptr w \<noteq> NULL"
    using q(2) by (simp_all add: proc_ok_def heap_ok_def p_def)
  have fr: "freed val (heap w) (next_ptr w) = None" "freed val (heap w) p = None"
    using hp by (simp_all add: freed_def)
  have pn: "p \<noteq> next_ptr w" and p_pos: "0 < p" by (simp_all add: p_def)
  have cut: "cut_newline p ?w3 = w\<lparr>fds := (fds w)(a \<mapsto> PipeRead a),
      heap := (freed val (heap w))(next_ptr w \<mapsto> s, p \<mapsto> line @ [NUL, NUL]), next_ptr := Suc p\<rparr>"
    using strchr_newline [OF line, of "[]"] by (simp add: cut_newline_def list_update_append)
  have cl: "sys_close (int a) w4 = (0, w4\<lparr>fds := fds w, flocks := flocks w\<rparr>)"
    if "faults w4 = []" "fds w4 = (fds w)(a \<mapsto> PipeRead a)" "flocks w4 = flocks w" for w4
    using close_read_end [OF that(1) q(2) ab(2) that(2,3)] .
  have h1: "((freed val (heap w))(next_ptr w \<mapsto> s, p \<mapsto> x))(next_ptr w := None) = (freed val (heap w))(p \<mapsto> x)" for x
    using fr pn by (auto simp: fun_eq_iff)
  have h2: "(freed val (heap w))(p := None) = freed val (heap w)"
    using fr by (auto simp: fun_eq_iff)
  have "triplet_parent (line @ CHR 0x0A # rest, st) (int a, int b) (next_ptr w) val w1 =
    triplet_out (status_err st) (Some (?f\<lparr>f_data := rest\<rparr>)) (int a) (next_ptr w) (Some p)
      (if status_err st = 0 then cut_newline p ?w3 else ?w3)"
    unfolding triplet_parent_def Let_def prod.case fst_conv snd_conv po option.case gl wp
    by (simp add: p_def)
  moreover have "\<exists>w'. triplet_out (status_err st) (Some (?f\<lparr>f_data := rest\<rparr>)) (int a) (next_ptr w) (Some p)
      (if status_err st = 0 then cut_newline p ?w3 else ?w3) = (status_err st, Some p, w') \<and>
      fds w' = fds w \<and> flocks w' = flocks w \<and> ub_log w' = ub_log w \<and>
      faults w' = [] \<and> next_ptr w' = Suc p \<and> fd_max w' = fd_max w \<and>
      heap w' = (if status_err st = 0 then (freed val (heap w))(p \<mapsto> line @ [NUL, NUL]) else freed val (heap w))"
  proof (cases "status_err st = 0")
    case True
    then show ?thesis using q(1) hp pn cl
      by (simp add: triplet_out_def cut c_fclose_def c_free_def h1)
  next
    case False
    then show ?thesis using q(1) hp pn p_pos cl
      by (simp add: triplet_out_def c_fclose_def c_free_def h1 h2 Let_def)
  qed
  ultimately show ?thesis by simp
qed


text \<open>A compiler that prints nothing: end of file at once, and \<open>errno\<close> as it was.\<close>

lemma quiet_triplet_silent:
  fixes s :: cbuffer
  assumes q: "faults w = []" "proc_ok w" and ab: "a \<noteq> b" "fds w a = None" "fds w b = None"
    and v: "val = NULL \<or> heap w val \<noteq> None" and e: "errno w = 0"
  defines "w1 \<equiv> w\<lparr>fds := (fds w)(a \<mapsto> PipeRead a, b \<mapsto> PipeWrite a), heap := (heap w)(next_ptr w \<mapsto> s),
      next_ptr := Suc (next_ptr w)\<rparr>" and "p \<equiv> Suc (next_ptr w)"
  shows "\<exists>w'. triplet_parent ([], st) (int a, int b) (next_ptr w) val w1 = (0, Some p, w') \<and>
      fds w' = fds w \<and> heap w' = (freed val (heap w))(p \<mapsto> map (stack_byte w) [0..<120])"
proof -
  note po = parent_opens [OF q ab v, where s = s, folded w1_def p_def]
  let ?w2 = "w\<lparr>fds := (fds w)(a \<mapsto> PipeRead a), heap := (freed val (heap w))(next_ptr w \<mapsto> s), next_ptr := p\<rparr>"
  let ?f = "\<lparr>f_fd = int a, f_data = [], f_eof = False, f_err = False\<rparr>"
  let ?w3 = "w\<lparr>fds := (fds w)(a \<mapsto> PipeRead a), heap := (freed val (heap w))(next_ptr w \<mapsto> s,
      p \<mapsto> map (stack_byte w) [0..<120]), next_ptr := Suc p\<rparr>"
  have gl: "c_getline NULL ?f ?w2 = (-1, p, ?f\<lparr>f_eof := True\<rparr>, ?w3)"
    using q(1) by (simp add: c_getline_def quiet_fault line_buffer_def alloc_def p_def)
  have hp: "heap w (next_ptr w) = None" "next_ptr w \<noteq> NULL"
    using q(2) by (simp_all add: proc_ok_def heap_ok_def)
  have fr: "freed val (heap w) (next_ptr w) = None" using hp by (simp add: freed_def)
  have pn: "p \<noteq> next_ptr w" by (simp add: p_def)
  have h1: "((freed val (heap w))(next_ptr w \<mapsto> s, p \<mapsto> x))(next_ptr w := None) = (freed val (heap w))(p \<mapsto> x)" for x
    using fr pn by (auto simp: fun_eq_iff)
  have cl: "sys_close (int a) ?w3 = (0, ?w3\<lparr>fds := fds w, flocks := flocks w\<rparr>)"
    by (rule close_read_end [OF _ q(2) ab(2)]) (use q(1) in simp_all)
  have "triplet_parent ([], st) (int a, int b) (next_ptr w) val w1 =
    triplet_out 0 (Some (?f\<lparr>f_eof := True\<rparr>)) (int a) (next_ptr w) (Some p) ?w3"
    unfolding triplet_parent_def Let_def prod.case fst_conv snd_conv po option.case gl
    using e by simp
  then show ?thesis using cl hp pn
    by (simp add: triplet_out_def c_fclose_def c_free_def h1)
qed


section \<open>The first matching line\<close>

abbreviation strip :: "string \<Rightarrow> string" where
  "strip \<equiv> filter (\<lambda>c. \<not> isspace c)"

text \<open>What the option sets: the rest of the first line that, stripped, is \<open>-opt=value\<close>.\<close>

definition option_line :: "cstring \<Rightarrow> string \<Rightarrow> bool" where
  "option_line opt t \<longleftrightarrow> take (length opt + 2) t = ''-'' @ opt @ ''='' \<and> length opt + 2 < length t"

function first_match :: "cstring \<Rightarrow> string \<Rightarrow> cstring option" where
  "first_match opt s =
    (if s = [] then None
     else let t = strip (fst (first_line s))
          in if option_line opt t then Some (drop (length opt + 2) t)
             else first_match opt (snd (first_line s)))"
  by pat_completeness auto
termination
  by (relation "measure (\<lambda>(opt, s). length s)") (auto simp: first_line_shorter)

declare first_match.simps [simp del]

text \<open>The lines up to and with the first match are the ones that \<open>isspace\<close> sees.\<close>

function lines_log :: "cstring \<Rightarrow> string \<Rightarrow> ub list" where
  "lines_log opt s =
    (if s = [] then []
     else isspace_log (fst (first_line s)) @
       (if option_line opt (strip (fst (first_line s))) then [] else lines_log opt (snd (first_line s))))"
  by pat_completeness auto
termination
  by (relation "measure (\<lambda>(opt, s). length s)") (auto simp: first_line_shorter)

declare lines_log.simps [simp del]

lemma set_first_line: "set s = set (fst (first_line s)) \<union> set (snd (first_line s))"
  by (metis first_line_append set_append)

lemma isspace_log_clean: "\<forall>c\<in>set s. isspace_defined c \<Longrightarrow> isspace_log s = []"
  by (simp add: isspace_log_def list_all_iff)

lemma isspace_log_only: "set (isspace_log s) \<subseteq> {Ctype_domain}"
  by (simp add: isspace_log_def)

lemma lines_log_only: "set (lines_log opt s) \<subseteq> {Ctype_domain}"
proof (induction opt s rule: lines_log.induct)
  case (1 opt s)
  then show ?case using isspace_log_only [of "fst (first_line s)"] by (subst lines_log.simps) auto
qed

lemma lines_log_clean: "\<forall>c\<in>set s. isspace_defined c \<Longrightarrow> lines_log opt s = []"
proof (induction opt s rule: lines_log.induct)
  case (1 opt s)
  then show ?case using set_first_line [of s]
    by (subst lines_log.simps) (auto simp: isspace_log_clean)
qed

lemma march_match_option_line:
  assumes "NUL \<notin> set t"
  shows "march_match opt (t @ NUL # junk) (length t) = option_line opt t"
proof (cases "length opt + 2 < length t")
  case False
  then show ?thesis by (auto simp: march_match_def option_line_def)
next
  case True
  then obtain c u where t: "t = c # u" "length opt + 1 < length u" by (cases t) auto
  have u: "u = take (length opt) u @ u ! length opt # drop (length opt + 1) u"
    using t(2) id_take_nth_drop [of "length opt" u] by simp
  have "take (length opt + 2) t = c # take (length opt) u @ [u ! length opt]"
    using t(2) by (simp add: t(1) take_Suc_conv_app_nth)
  moreover have "length (take (length opt) u) = length opt" using t(2) by simp
  ultimately have "option_line opt t \<longleftrightarrow> c = CHR ''-'' \<and> take (length opt) u = opt \<and> u ! length opt = CHR ''=''"
    using True by (auto simp: option_line_def)
  moreover have "(t @ NUL # junk) ! 0 = c" "(t @ NUL # junk) ! (length opt + 1) = u ! length opt"
    "cstr (t @ NUL # junk) = c # u"
    using t assms cstr_append_NUL [of "c # u" junk] by (simp_all add: nth_append)
  ultimately show ?thesis using t(2) by (auto simp: march_match_def t(1))
qed

lemma first_line_last:
  assumes "last (fst (first_line s)) \<noteq> CHR 0x0A"
  shows "snd (first_line s) = []"
proof (cases "dropWhile (\<lambda>c. c \<noteq> CHR 0x0A) s")
  case Nil
  show ?thesis unfolding first_line_def Let_def dropWhile_eq_drop [symmetric] Nil by simp
next
  case (Cons c r)
  then have "c = CHR 0x0A" using hd_dropWhile [of "\<lambda>c. c \<noteq> CHR 0x0A" s] by simp
  then show ?thesis using assms Cons by (simp add: first_line_def Let_def dropWhile_eq_drop [symmetric])
qed

lemma last_first_line:
  assumes "s \<noteq> []"
  shows "last s = (if snd (first_line s) = [] then last (fst (first_line s)) else last (snd (first_line s)))"
  by (metis append_Nil2 first_line_append last_appendR)

lemma quiet_getline:
  assumes "faults w = []" "heap_ok w" "line = NULL \<or> heap w line \<noteq> None"
  shows "\<exists>p h n. (f_data f = [] \<longrightarrow> c_getline line f w = (-1, p, f\<lparr>f_eof := True\<rparr>, w\<lparr>heap := h, next_ptr := n\<rparr>)) \<and>
    (f_data f \<noteq> [] \<longrightarrow> c_getline line f w =
      (int (length (fst (first_line (f_data f)))), p,
       f\<lparr>f_data := snd (first_line (f_data f)), f_eof := (last (fst (first_line (f_data f))) \<noteq> CHR 0x0A)\<rparr>,
       w\<lparr>heap := h(p \<mapsto> fst (first_line (f_data f)) @ [NUL]), next_ptr := n\<rparr>)) \<and>
    p \<noteq> NULL \<and> (if line = NULL then heap w p = None else p = line) \<and> h p \<noteq> None \<and> (\<forall>x. x \<noteq> p \<longrightarrow> h x = heap w x) \<and>
    heap_ok (w\<lparr>heap := h, next_ptr := n\<rparr>)"
proof (cases "line = NULL")
  case True
  then show ?thesis using assms(1,2)
    by (intro exI [of _ "next_ptr w"] exI [of _ "(heap w)(next_ptr w \<mapsto> map (stack_byte w) [0..<120])"]
      exI [of _ "Suc (next_ptr w)"])
      (auto simp: c_getline_def quiet_fault line_buffer_def alloc_def heap_ok_def split: prod.split)
next
  case False
  then show ?thesis using assms
    by (intro exI [of _ line] exI [of _ "heap w"] exI [of _ "next_ptr w"])
      (auto simp: c_getline_def quiet_fault line_buffer_def split: prod.split)
qed

definition march_result :: "cstring \<Rightarrow> string \<Rightarrow> world \<Rightarrow> (int + ptr) \<Rightarrow> ptr \<Rightarrow> (ptr \<rightharpoonup> cbuffer) \<Rightarrow> bool" where
  "march_result opt data w R line h \<longleftrightarrow>
    (case first_match opt data of
       Some v \<Rightarrow> (\<exists>q. R = Inr q \<and> q \<noteq> NULL \<and> q \<noteq> line \<and> heap w q = None \<and> h q = Some (v @ [NUL]) \<and>
         (\<forall>x. x \<noteq> line \<and> x \<noteq> q \<longrightarrow> h x = heap w x))
     | None \<Rightarrow> R = (if data \<noteq> [] \<and> last data \<noteq> CHR 0x0A then Inr NULL else Inl (- errno w)) \<and>
         (\<forall>x. x \<noteq> line \<longrightarrow> h x = heap w x))"

definition march_post :: "cstring \<Rightarrow> ptr \<Rightarrow> stream \<Rightarrow> world \<Rightarrow> (int + ptr) \<times> ptr \<times> stream \<times> world \<Rightarrow> bool" where
  "march_post opt line f w X \<longleftrightarrow> (case X of (R, line', f', w') \<Rightarrow>
     f_fd f' = f_fd f \<and> line' \<noteq> NULL \<and> (if line = NULL then heap w line' = None else line' = line) \<and>
     heap w' line' \<noteq> None \<and>
     w' = w\<lparr>heap := heap w', next_ptr := next_ptr w', ub_log := ub_log w @ lines_log opt (f_data f)\<rparr> \<and>
     march_result opt (f_data f) w R line' (heap w'))"

lemma quiet_march_loop:
  assumes "faults w = []" "heap_ok w" "line = NULL \<or> heap w line \<noteq> None"
    and "\<not> f_eof f" "\<not> f_err f" "NUL \<notin> set (f_data f)"
  shows "march_post opt line f w (march_loop opt line f w)"
  using assms
proof (induction "length (f_data f)" arbitrary: line f w rule: less_induct)
  case less
  from quiet_getline [OF less.prems(1-3), of f] obtain p h n where
    g0: "f_data f = [] \<Longrightarrow> c_getline line f w = (-1, p, f\<lparr>f_eof := True\<rparr>, w\<lparr>heap := h, next_ptr := n\<rparr>)"
    and g1: "f_data f \<noteq> [] \<Longrightarrow> c_getline line f w =
      (int (length (fst (first_line (f_data f)))), p,
       f\<lparr>f_data := snd (first_line (f_data f)), f_eof := (last (fst (first_line (f_data f))) \<noteq> CHR 0x0A)\<rparr>,
       w\<lparr>heap := h(p \<mapsto> fst (first_line (f_data f)) @ [NUL]), next_ptr := n\<rparr>)"
    and p: "p \<noteq> NULL" "if line = NULL then heap w p = None else p = line" "h p \<noteq> None"
      "\<And>x. x \<noteq> p \<Longrightarrow> h x = heap w x" "heap_ok (w\<lparr>heap := h, next_ptr := n\<rparr>)" by blast
  show ?case
  proof (cases "f_data f = []")
    case True
    have "march_loop opt line f w = (Inl (- errno w), p, f\<lparr>f_eof := True\<rparr>, w\<lparr>heap := h, next_ptr := n\<rparr>)"
      using less.prems(4,5) by (subst march_loop.simps) (simp add: g0 [OF True])
    then show ?thesis using p True
      by (simp add: march_post_def march_result_def first_match.simps [of opt "[]"] lines_log.simps [of opt "[]"])
  next
    case False
    define l r where "l = fst (first_line (f_data f))" and "r = snd (first_line (f_data f))"
    note g = g1 [OF False, folded l_def r_def]
    have data: "f_data f = l @ r" "l \<noteq> []"
      using first_line_append [of "f_data f"] first_line_nonempty [OF False] by (simp_all add: l_def r_def)
    have nul: "NUL \<notin> set l" "NUL \<notin> set r" "NUL \<notin> set (strip l)" using less.prems(6) data by auto
    from skip_whitespace_spec [OF nul(1), of "[]"] obtain junk where
      sk: "skip_whitespace (l @ [NUL]) = Some (strip l @ NUL # junk, length (strip l))" by auto
    let ?f = "f\<lparr>f_data := r, f_eof := (last l \<noteq> CHR 0x0A)\<rparr>"
    let ?w = "w\<lparr>heap := h(p \<mapsto> strip l @ NUL # junk), next_ptr := n, ub_log := ub_log w @ isspace_log l\<rparr>"
    have loop: "march_loop opt line f w =
      (if option_line opt (strip l) then
         (case c_strdup (drop (length opt + 2) (strip l @ NUL # junk)) ?w of (q, w) \<Rightarrow>
            if q = NULL then (Inl (- errno_val ENOMEM), p, ?f, w) else (Inr q, p, ?f, w))
       else march_loop opt p ?f ?w)"
    proof -
      have sw: "w\<lparr>next_ptr := n, ub_log := u, heap := x\<rparr> = w\<lparr>heap := x, next_ptr := n, ub_log := u\<rparr>" for x u
        by simp
      show ?thesis using less.prems(4,5) march_match_option_line [OF nul(3), of opt junk] nul(1)
        by (subst march_loop.simps) (simp add: g sk Let_def sw isspace_checked_def)
    qed
    have ll: "lines_log opt (f_data f) = isspace_log l @ (if option_line opt (strip l) then [] else lines_log opt r)"
      using False by (subst lines_log.simps) (simp add: l_def r_def)
    have fm: "first_match opt (f_data f) = (if option_line opt (strip l) then Some (drop (length opt + 2) (strip l))
        else first_match opt r)"
      using False by (subst first_match.simps) (simp add: l_def r_def Let_def)
    show ?thesis
    proof (cases "option_line opt (strip l)")
      case True
      let ?v = "drop (length opt + 2) (strip l)"
      have "length opt + 2 < length (strip l)" using True by (simp add: option_line_def)
      then have d: "drop (length opt + 2) (strip l @ NUL # junk) = ?v @ NUL # junk" by simp
      have nd: "NUL \<notin> set ?v" using nul(3) by (meson in_set_dropD)
      have "c_strdup (?v @ NUL # junk) ?w = (n, ?w\<lparr>heap := (heap ?w)(n \<mapsto> cstr (?v @ NUL # junk) @ [NUL]), next_ptr := Suc n\<rparr>)"
        using quiet_strdup [of ?w "?v @ NUL # junk"] less.prems(1) by (simp add: terminated_def)
      moreover have n: "n \<noteq> NULL" "h n = None" using p(5) by (simp_all add: heap_ok_def)
      ultimately have lp: "march_loop opt line f w =
          (Inr n, p, ?f, w\<lparr>heap := h(p \<mapsto> strip l @ NUL # junk, n \<mapsto> ?v @ [NUL]), next_ptr := Suc n,
            ub_log := ub_log w @ isspace_log l\<rparr>)"
        using True nd unfolding loop d by simp
      have np: "n \<noteq> p" using n(2) p(3) by auto
      then have "heap w n = None" using p(4) [of n] n(2) by simp
      then show ?thesis using lp p(1,2,4) n np True fm ll by (simp add: march_post_def march_result_def)
    next
      case no: False
      then have lp: "march_loop opt line f w = march_loop opt p ?f ?w" and fr: "first_match opt (f_data f) = first_match opt r"
        by (simp_all add: loop fm)
      have last: "last (f_data f) = (if r = [] then last l else last r)"
        using last_first_line [OF False] by (simp add: l_def r_def)
      show ?thesis
      proof (cases "last l = CHR 0x0A")
        case False
        then have r0: "r = []" using first_line_last [of "f_data f"] by (simp add: l_def r_def)
        have "march_loop opt p ?f ?w = (Inr NULL, p, ?f, ?w)"
          using False by (subst march_loop.simps) simp
        then show ?thesis using lp p(1,2,4) fr r0 False last \<open>f_data f \<noteq> []\<close> ll no
          by (simp add: march_post_def march_result_def first_match.simps [of opt "[]"] lines_log.simps [of opt "[]"])
      next
        case True
        have short: "length (f_data ?f) < length (f_data f)" using data by simp
        have ok: "heap_ok ?w" using p(3,5) by (auto simp: heap_ok_def)
        have IHp: "faults ?w = []" "p = NULL \<or> heap ?w p \<noteq> None" "\<not> f_eof ?f" "\<not> f_err ?f" "NUL \<notin> set (f_data ?f)"
          using less.prems True nul by simp_all
        note IH = less.hyps [OF short IHp(1) ok IHp(2-5)]
        obtain R line' f' w' where ml: "march_loop opt p ?f ?w = (R, line', f', w')" by (metis prod_cases4)
        from IH p(1) have i: "f_fd f' = f_fd f" "line' = p" "heap w' p \<noteq> None"
          "w' = w\<lparr>heap := heap w', next_ptr := next_ptr w', ub_log := ub_log w @ lines_log opt (f_data f)\<rparr>" "march_result opt r ?w R p (heap w')"
          by (auto simp: march_post_def ml ll no)
        have "march_result opt (f_data f) w R p (heap w')"
          using i(5) fr last True p(4) \<open>f_data f \<noteq> []\<close>
          by (auto simp: march_result_def split: option.splits if_splits)
        then show ?thesis using lp ml i p(1,2) by (simp add: march_post_def)
      qed
    qed
  qed
qed

text \<open>The state in which the parent starts to read; \<open>w\<close> has the old value freed already.\<close>

lemma march_start:
  assumes q: "faults w = []" "proc_ok w" "room 2 w" and std: "fds w 0 \<noteq> None" "fds w 1 \<noteq> None"
    and v: "val = NULL \<or> heap w val \<noteq> None"
    and env: "child_faults env = []" "NUL \<notin> set compiler"
      "exec_prog env compiler [compiler, ''-'' @ opt @ ''=native'', ''-Q'', ''--help=target''] = Inr ch"
  defines "w0 \<equiv> w\<lparr>heap := freed val (heap w)\<rparr>"
  shows "\<exists>a b s. get_march_native env compiler opt (Some val) w = march_parent ch (int a, int b) (next_ptr w0) opt
      (w0\<lparr>fds := (fds w0)(a \<mapsto> PipeRead a, b \<mapsto> PipeWrite a), heap := (heap w0)(next_ptr w0 \<mapsto> s),
         next_ptr := Suc (next_ptr w0)\<rparr>) \<and>
    a \<noteq> b \<and> fds w a = None \<and> fds w b = None"
proof -
  let ?cmd = "compiler @ '' -'' @ opt @ ''=native -Q --help=target''"
  let ?w1 = "w0\<lparr>heap := (heap w0)(next_ptr w0 \<mapsto> ?cmd @ [NUL]), next_ptr := Suc (next_ptr w0)\<rparr>"
  have q0: "faults w0 = []" "faults ?w1 = []" using q(1) by (simp_all add: w0_def)
  have "room 2 ?w1" using q(3) by (simp add: room_def w0_def)
  from quiet_pipe [OF q0(2) this] obtain a b where
    pp: "sys_pipe ?w1 = (0, int a, int b, ?w1\<lparr>fds := (fds ?w1)(a \<mapsto> PipeRead a, b \<mapsto> PipeWrite a)\<rparr>)"
    and ab: "a \<noteq> b" "fds w a = None" "fds w b = None" by (auto simp: w0_def)
  let ?w2 = "?w1\<lparr>fds := (fds ?w1)(a \<mapsto> PipeRead a, b \<mapsto> PipeWrite a)\<rparr>"
  have fr: "(if val \<noteq> NULL then c_free val w else w) = w0"
    using c_free_live [of w val] v by (auto simp: w0_def)
  have as: "c_asprintf ?cmd w0 = (int (length ?cmd), next_ptr w0, ?w1)"
    using quiet_asprintf [OF q0(1), of ?cmd] by simp
  have "march_child env compiler opt (int a, int b) (?w2\<lparr>faults := []\<rparr>) = ch"
  proof -
    let ?c = "?w2\<lparr>faults := []\<rparr>"
    have sd: "c_strdup (compiler @ [NUL]) ?c = (next_ptr ?c, ?c\<lparr>heap := (heap ?c)(next_ptr ?c \<mapsto> cstr (compiler @ [NUL]) @ [NUL]),
        next_ptr := Suc (next_ptr ?c)\<rparr>)"
      by (rule quiet_strdup) (simp_all add: terminated_def)
    have "b \<noteq> 0" "b \<noteq> 1" using ab std by metis+
    then show ?thesis using ab env(3)
      unfolding march_child_def sd Let_def prod.case
      by (simp add: quiet_asprintf quiet_child_exec [of _ a b a] w0_def)
  qed
  then have "sys_fork (march_child env compiler opt (int a, int b)) env ?w2 = (Some ch, ?w2)"
    using q0(1) env(1) by (simp add: sys_fork_def quiet_fault)
  then have "get_march_native env compiler opt (Some val) w = march_parent ch (int a, int b) (next_ptr w0) opt ?w2"
    unfolding get_march_native_def option.case Let_def fr as pp prod.case by simp
  also have "?w2 = w0\<lparr>fds := (fds w0)(a \<mapsto> PipeRead a, b \<mapsto> PipeWrite a),
      heap := (heap w0)(next_ptr w0 \<mapsto> ?cmd @ [NUL]), next_ptr := Suc (next_ptr w0)\<rparr>" by simp
  finally show ?thesis using ab by blast
qed

definition march_outcome :: "string \<Rightarrow> cstring \<Rightarrow> wstatus \<Rightarrow> world \<Rightarrow> int \<times> ptr option \<times> world \<Rightarrow> bool" where
  "march_outcome data opt st w X \<longleftrightarrow> (case X of (err, v, w') \<Rightarrow>
     fds w' = fds w \<and> flocks w' = flocks w \<and> ub_log w' = ub_log w @ lines_log opt data \<and>
     (case first_match opt data of
        Some s \<Rightarrow> err = status_err st \<and>
          (if err = 0 then \<exists>p. v = Some p \<and> p \<noteq> NULL \<and> heap w p = None \<and> heap w' = (heap w)(p \<mapsto> s @ [NUL])
           else v = Some NULL \<and> heap w' = heap w)
      | None \<Rightarrow> v = Some NULL \<and> heap w' = heap w \<and>
          err = (if data \<noteq> [] \<and> last data \<noteq> CHR 0x0A
                 then if status_err st \<noteq> 0 then status_err st else - errno_val ENOENT
                 else - errno w)))"

lemma quiet_march_parent:
  fixes s :: cbuffer
  assumes q: "faults w = []" "proc_ok w" and ab: "a \<noteq> b" "fds w a = None" "fds w b = None"
    and data: "NUL \<notin> set data"
  defines "w1 \<equiv> w\<lparr>fds := (fds w)(a \<mapsto> PipeRead a, b \<mapsto> PipeWrite a), heap := (heap w)(next_ptr w \<mapsto> s),
      next_ptr := Suc (next_ptr w)\<rparr>"
  shows "march_outcome data opt st w (march_parent (data, st) (int a, int b) (next_ptr w) opt w1)"
proof -
  let ?c = "next_ptr w"
  note po = parent_opens(1,2) [OF q ab, of NULL, where s = s, folded w1_def, OF disjI1 [OF refl]]
  let ?w2 = "w\<lparr>fds := (fds w)(a \<mapsto> PipeRead a), heap := (heap w)(?c \<mapsto> s), next_ptr := Suc ?c\<rparr>"
  let ?f = "\<lparr>f_fd = int a, f_data = data, f_eof = False, f_err = False\<rparr>"
  have hp: "heap w ?c = None" "?c \<noteq> NULL" "heap_ok ?w2"
    using q(2) by (auto simp: proc_ok_def heap_ok_def)
  obtain R line f' w3 where ml: "march_loop opt NULL ?f ?w2 = (R, line, f', w3)" by (metis prod_cases4)
  have "march_post opt NULL ?f ?w2 (R, line, f', w3)"
    using quiet_march_loop [of ?w2 NULL ?f opt] q(1) hp(3) data by (simp add: ml)
  then have f': "f_fd f' = int a" and line: "line \<noteq> NULL" "heap ?w2 line = None" "heap w3 line \<noteq> None"
    and w3: "w3 = ?w2\<lparr>heap := heap w3, next_ptr := next_ptr w3, ub_log := ub_log w @ lines_log opt data\<rparr>"
    and res: "march_result opt data ?w2 R line (heap w3)" by (auto simp: march_post_def)
  have lc: "line \<noteq> ?c" "heap w line = None" using line(2) by (auto split: if_splits)
  have same: "fds w3 = (fds w)(a \<mapsto> PipeRead a)" "flocks w3 = flocks w" "faults w3 = []"
    "ub_log w3 = ub_log w @ lines_log opt data" "errno w3 = errno w"
    using q(1) by (subst w3, simp)+
  have cl: "sys_close (int a) w4 = (0, w4\<lparr>fds := fds w, flocks := flocks w\<rparr>)"
    if "faults w4 = []" "fds w4 = (fds w)(a \<mapsto> PipeRead a)" "flocks w4 = flocks w" for w4
    using close_read_end [OF that(1) q(2) ab(2) that(2,3)] .
  have parent: "march_parent (data, st) (int a, int b) ?c opt w1 =
      (case R of Inl e \<Rightarrow> march_out e (Some f') (int a) ?c line (Some NULL) w3
       | Inr v \<Rightarrow> march_out (if status_err st \<noteq> 0 then status_err st else if v = NULL then - errno_val ENOENT else 0)
           (Some f') (int a) ?c line (Some v) w3)"
    unfolding march_parent_def Let_def prod.case fst_conv snd_conv po option.case ml
    using same(3) by (simp add: sys_waitpid_def quiet_fault split: sum.split)
  have out: "march_out e (Some f') (int a) ?c line (Some v) w3 =
      (e, Some (if e \<noteq> 0 then NULL else v), w3\<lparr>fds := fds w, flocks := flocks w,
         heap := (if e \<noteq> 0 \<and> v \<noteq> NULL then (heap w3)(v := None) else heap w3)(line := None, ?c := None)\<rparr>)"
    if "v = NULL \<or> v \<noteq> line \<and> v \<noteq> ?c \<and> heap w3 v \<noteq> None" "heap w3 ?c \<noteq> None" for e v
    using that lc(1) line(1,3) hp(2) same(1-3) f'
    by (cases "v = NULL"; cases "e = 0") (simp_all add: march_out_def c_fclose_def cl c_free_def Let_def del: not_None_eq)
  show ?thesis
  proof (cases "first_match opt data")
    case None
    then have h: "\<And>x. x \<noteq> line \<Longrightarrow> heap w3 x = ((heap w)(?c \<mapsto> s)) x"
      and R: "R = (if data \<noteq> [] \<and> last data \<noteq> CHR 0x0A then Inr NULL else Inl (- errno w))"
      using res by (auto simp: march_result_def)
    have h': "(heap w3)(line := None, ?c := None) = heap w" "heap w3 ?c \<noteq> None"
      using h lc hp(1) by (auto simp: fun_eq_iff)
    then show ?thesis using None same(4) R by (simp add: march_outcome_def parent out)
  next
    case (Some v)
    then obtain x where R: "R = Inr x" and x: "x \<noteq> NULL" "x \<noteq> line" "((heap w)(?c \<mapsto> s)) x = None"
      "heap w3 x = Some (v @ [NUL])" and h: "\<And>y. y \<noteq> line \<Longrightarrow> y \<noteq> x \<Longrightarrow> heap w3 y = ((heap w)(?c \<mapsto> s)) y"
      using res by (auto simp: march_result_def)
    have xc: "x \<noteq> ?c" "heap w x = None" using x(3) by (auto split: if_splits)
    have h': "(heap w3)(line := None, ?c := None) = (heap w)(x \<mapsto> v @ [NUL])" "heap w3 ?c \<noteq> None"
      "(heap w3)(x := None, line := None, ?c := None) = heap w"
      using h lc xc x hp(1) by (auto simp: fun_eq_iff)
    then show ?thesis using Some same(4) R x xc by (simp add: march_outcome_def parent out)
  qed
qed

section \<open>Running the compiler, whatever fails\<close>

lemma set_cstr: "set (cstr (l @ [NUL])) \<subseteq> set l"
  by (induction l) (auto simp: cstr_def)

lemma sys_pipe_cases:
  assumes "sys_pipe w = (r, p0, p1, w')"
  shows "r = -1 \<and> p0 = -1 \<and> res w' = res w \<and> 0 < errno w' \<or>
    (\<exists>a b. r = 0 \<and> p0 = int a \<and> p1 = int b \<and> a \<noteq> b \<and> fds w a = None \<and> fds w b = None \<and>
      res w' = res w\<lparr>rs_fds := (fds w)(a \<mapsto> PipeRead a, b \<mapsto> PipeWrite a)\<rparr>)"
proof -
  obtain f w1 where nf: "next_fault w = (f, w1)" by (cases "next_fault w")
  then have r1: "res w1 = res w" by (rule next_fault_res)
  then have fd: "fds w1 = fds w" using res_eqD(1) [of w1 "res w"] by simp
  show ?thesis
  proof (cases "(\<exists>e. f = Fail e) \<or> free_fd w1 = None")
    case True
    then show ?thesis using assms nf r1 by (auto simp: sys_pipe_def fail_with_def split: fault.splits)
  next
    case False
    then obtain a where a: "free_fd w1 = Some a" by auto
    let ?w2 = "w1\<lparr>fds := (fds w1)(a \<mapsto> PipeRead a)\<rparr>"
    have an: "fds w a = None" using free_fd_None [OF a] fd by simp
    have step: "sys_pipe w = (case free_fd ?w2 of
        None \<Rightarrow> (-1, -1, -1, snd (fail_with EMFILE w1))
      | Some b \<Rightarrow> (0, int a, int b, ?w2\<lparr>fds := (fds ?w2)(b \<mapsto> PipeWrite a)\<rparr>))"
      using False by (cases f) (auto simp: sys_pipe_def nf a Let_def)
    show ?thesis
    proof (cases "free_fd ?w2")
      case None
      then show ?thesis using assms r1 by (auto simp: step fail_with_def)
    next
      case (Some b)
      then have "a \<noteq> b \<and> fds w b = None" using free_fd_None [OF Some] fd by (auto split: if_splits)
      then show ?thesis using assms r1 fd an Some by (auto simp: step)
    qed
  qed
qed

lemma sys_fork_cases: "sys_fork child env w = (ch, w') \<Longrightarrow> res w' = res w \<and> (ch = None \<longrightarrow> 0 < errno w')"
  by (auto simp: sys_fork_def fail_with_def split: fault.splits prod.splits dest: next_fault_res)

lemma sys_waitpid_cases: "sys_waitpid ch w = (r, st, w') \<Longrightarrow> res w' = res w \<and> (r < 0 \<longrightarrow> 0 < errno w')"
  by (auto simp: sys_waitpid_def fail_with_def split: fault.splits prod.splits dest: next_fault_res)

lemma c_fdopen_cases:
  "c_fdopen fd data w = (f, w') \<Longrightarrow> res w' = res w \<and>
    (case f of None \<Rightarrow> 0 < errno w' | Some f \<Rightarrow> f_fd f = fd \<and> f_data f = data)"
  by (auto simp: c_fdopen_def fail_with_def split: fault.splits prod.splits dest: next_fault_res)

lemma c_getline_cases:
  assumes "c_getline p f w = (len, p', f', w')" "p = NULL \<or> heap w p \<noteq> None"
  shows "f_fd f' = f_fd f \<and> p' = (if p = NULL then next_ptr w else p) \<and>
    (\<exists>b. res w' = res w\<lparr>rs_heap := (heap w)(p' \<mapsto> b), rs_next := (if p = NULL then Suc (next_ptr w) else next_ptr w)\<rparr> \<and>
      (0 \<le> len \<longrightarrow> terminated b \<and> set (cstr b) \<subseteq> set (f_data f) \<and> set (f_data f') \<subseteq> set (f_data f)))"
proof -
  obtain ft w1 where nf: "next_fault w = (ft, w1)" by (cases "next_fault w")
  then have "res w1 = res w" by (rule next_fault_res)
  with res_eqD [of w1 "res w"] have r1: "res w1 = res w" "heap w1 = heap w" "next_ptr w1 = next_ptr w" by simp_all
  define q where "q = (if p = NULL then next_ptr w else p)"
  define n where "n = (if p = NULL then Suc (next_ptr w) else next_ptr w)"
  have "\<exists>b. line_buffer p w1 = (q, w1\<lparr>heap := (heap w)(q \<mapsto> b), next_ptr := n\<rparr>)"
  proof (cases "p = NULL")
    case True
    then show ?thesis using r1 by (auto simp: line_buffer_def alloc_def q_def n_def)
  next
    case False
    then obtain b where "heap w1 p = Some b" using assms(2) r1 by auto
    moreover from this have "(heap w1)(p \<mapsto> b) = heap w1" by (simp add: fun_upd_idem)
    ultimately have "w1 = w1\<lparr>heap := (heap w)(p \<mapsto> b), next_ptr := next_ptr w\<rparr>" using r1 by simp
    then show ?thesis using False by (auto simp: line_buffer_def q_def n_def)
  qed
  then obtain b where lb: "line_buffer p w1 = (q, w1\<lparr>heap := (heap w)(q \<mapsto> b), next_ptr := n\<rparr>)" by blast
  obtain l r where fl: "first_line (f_data f) = (l, r)" by (cases "first_line (f_data f)")
  then have ls: "set (cstr (l @ [NUL])) \<subseteq> set (f_data f)" "set r \<subseteq> set (f_data f)"
    using set_first_line [of "f_data f"] set_cstr [of l] by auto
  have rs: "res (w1\<lparr>heap := (heap w)(q \<mapsto> b'), next_ptr := n\<rparr>) = res w\<lparr>rs_heap := (heap w)(q \<mapsto> b'), rs_next := n\<rparr>" for b'
    using r1(1) by simp
  have sw: "x\<lparr>rs_next := n, rs_heap := h\<rparr> = x\<lparr>rs_heap := h, rs_next := n\<rparr>" for x h by simp
  have ex: "\<exists>b. res w\<lparr>rs_heap := (heap w)(p' \<mapsto> l @ [NUL]), rs_next := n\<rparr> = res w\<lparr>rs_heap := (heap w)(p' \<mapsto> b), rs_next := n\<rparr> \<and>
      NUL \<in> set b \<and> set (cstr b) \<subseteq> set (f_data f)"
    using ls(1) by (intro exI [of _ "l @ [NUL]"]) simp
  show ?thesis unfolding q_def [symmetric] n_def [symmetric]
  proof (cases ft)
    case (Fail e)
    then show "f_fd f' = f_fd f \<and> p' = q \<and> (\<exists>b. res w' = res w\<lparr>rs_heap := (heap w)(p' \<mapsto> b), rs_next := n\<rparr> \<and>
        (0 \<le> len \<longrightarrow> terminated b \<and> set (cstr b) \<subseteq> set (f_data f) \<and> set (f_data f') \<subseteq> set (f_data f)))"
      using assms(1) rs by (auto simp: c_getline_def nf lb fail_with_def)
  next
    case Pass
    then show "f_fd f' = f_fd f \<and> p' = q \<and> (\<exists>b. res w' = res w\<lparr>rs_heap := (heap w)(p' \<mapsto> b), rs_next := n\<rparr> \<and>
        (0 \<le> len \<longrightarrow> terminated b \<and> set (cstr b) \<subseteq> set (f_data f) \<and> set (f_data f') \<subseteq> set (f_data f)))"
      using ls ex assms(1) r1(1)
      by (auto simp: c_getline_def nf lb fl terminated_def sw split: if_splits)
  next
    case (Short k)
    then show "f_fd f' = f_fd f \<and> p' = q \<and> (\<exists>b. res w' = res w\<lparr>rs_heap := (heap w)(p' \<mapsto> b), rs_next := n\<rparr> \<and>
        (0 \<le> len \<longrightarrow> terminated b \<and> set (cstr b) \<subseteq> set (f_data f) \<and> set (f_data f') \<subseteq> set (f_data f)))"
      using ls ex assms(1) r1(1)
      by (auto simp: c_getline_def nf lb fl terminated_def sw split: if_splits)
  qed
qed

end
