(* ===== verification/Compiler_Runs.thy ===== *)
theory Compiler_Runs
  imports Compiler_Properties
begin

text \<open>
  The contracts of \<open>get_gcc_triplet\<close> and \<open>get_march_native\<close>: what they return when the
  system does what it is asked, and which resources they hold on to when any of its calls fails.
\<close>

section \<open>Resources, whatever fails\<close>

text \<open>The block a pointer designates, if any.\<close>

definition blk :: "ptr \<Rightarrow> ptr set" where
  "blk p = (if p = NULL then {} else {p})"

lemma blk_simps [simp]: "blk NULL = {}" "p \<noteq> NULL \<Longrightarrow> blk p = {p}"
  by (simp_all add: blk_def)

lemma owns_NULL: "owns w0 D H us w \<Longrightarrow> NULL \<notin> H"
  by (auto simp: owns_def)

lemma owns_live: "owns w0 D H us w \<Longrightarrow> p \<in> H \<Longrightarrow> p \<noteq> NULL \<and> heap w p \<noteq> None"
  by (simp add: owns_def)

lemma owns_free_blk:
  assumes "owns w0 D H us w" "p = NULL \<or> p \<in> H"
  shows "owns w0 D (H - blk p) us (c_free p w)"
  using assms owns_free by (cases "p = NULL") auto

lemma owns_store:
  assumes "owns w0 D H us w" "p \<in> H"
  shows "owns w0 D H us (w\<lparr>heap := (heap w)(p \<mapsto> b)\<rparr>)"
  using assms by (auto simp: owns_def heap_ok_def)

text \<open>The caller's block counts as acquired when the state after its release is the base.\<close>

definition without :: "ptr \<Rightarrow> world \<Rightarrow> world" where
  "without val w = w\<lparr>heap := freed val (heap w)\<rparr>"

lemma without_sel [frame_simps]:
  "heap (without val w) = freed val (heap w)" "fds (without val w) = fds w" "flocks (without val w) = flocks w"
  "ub_log (without val w) = ub_log w" "errno (without val w) = errno w"
  by (simp_all add: without_def)

lemma owns_without:
  assumes "proc_ok w" "val = NULL \<or> heap w val \<noteq> None"
  shows "owns (without val w) {} (blk val) [] w"
  using assms by (auto simp: owns_def without_def freed_def proc_ok_def blk_def)

lemma owns_pipe:
  assumes "owns w0 D H us w" "sys_pipe w = (r, p0, p1, w')"
  shows "r = -1 \<and> p0 = -1 \<and> owns w0 D H us w' \<and> 0 < errno w' \<or>
    (\<exists>a b. r = 0 \<and> p0 = int a \<and> p1 = int b \<and> a \<noteq> b \<and> a \<notin> D \<and> b \<notin> D \<and>
      owns w0 (insert a (insert b D)) H us w')"
  using sys_pipe_cases [OF assms(2)]
proof (elim disjE exE conjE)
  assume "r = -1" "p0 = -1" "res w' = res w" "0 < errno w'"
  then show ?thesis using owns_res [OF assms(1)] by blast
next
  fix a b assume ab: "r = 0" "p0 = int a" "p1 = int b" "a \<noteq> b" "fds w a = None" "fds w b = None"
    and r: "res w' = res w\<lparr>rs_fds := (fds w)(a \<mapsto> PipeRead a, b \<mapsto> PipeWrite a)\<rparr>"
  then have n: "a \<notin> D" "b \<notin> D" using assms(1) by (auto simp: owns_def)
  then have "fds w0 a = None" "fds w0 b = None" using assms(1) ab by (auto simp: owns_def)
  then have "owns w0 (insert a (insert b D)) H us w'"
    using assms(1) n res_eqD [OF r] by (auto simp: owns_def heap_ok_def)
  then show ?thesis using ab n by blast
qed

text \<open>The pipe as the code after the label finds it: \<open>A\<close> is what it closes.\<close>

definition read_end :: "stream option \<Rightarrow> int \<Rightarrow> nat set \<Rightarrow> bool" where
  "read_end gccpipe pipe0 A \<longleftrightarrow> gccpipe = None \<and> pipe0 = -1 \<and> A = {} \<or>
    (\<exists>a. A = {a} \<and> pipe0 = int a \<and> (case gccpipe of None \<Rightarrow> True | Some f \<Rightarrow> f_fd f = int a))"

lemma read_end_closed:
  assumes "owns w0 D H us w" "read_end gccpipe pipe0 A" "A \<subseteq> D"
    "(w1, pipe1) = (case gccpipe of Some f \<Rightarrow> (c_fclose f w, -1) | None \<Rightarrow> (w, pipe0))"
  shows "owns w0 (D - A) H us (if 0 \<le> pipe1 then snd (sys_close pipe1 w1) else w1)"
  using assms owns_close [OF assms(1)]
  by (auto simp: read_end_def c_fclose_def split: option.splits)

lemma triplet_out_owns:
  assumes "owns w0 D H us w" "read_end gccpipe pipe0 A" "A \<subseteq> D"
    and "cmd = NULL \<or> cmd \<in> H" "p = NULL \<or> p \<in> H - blk cmd"
  shows "\<exists>w'. triplet_out err gccpipe pipe0 cmd (Some p) w = (err, Some p, w') \<and>
    owns w0 (D - A) (H - blk cmd - (if err = 0 then {} else blk p)) us w'"
proof -
  obtain w1 pipe1 where c: "(case gccpipe of Some f \<Rightarrow> (c_fclose f w, -1) | None \<Rightarrow> (w, pipe0)) = (w1, pipe1)"
    by fastforce
  note o2 = owns_free_blk [OF read_end_closed [OF assms(1-3) c [symmetric]] assms(4)]
  from owns_free_blk [OF o2 assms(5)] o2 show ?thesis
    by (auto simp: triplet_out_def c Let_def)
qed

lemma march_out_owns:
  assumes "owns w0 D H us w" "read_end gccpipe pipe0 A" "A \<subseteq> D"
    and "p = NULL \<or> p \<in> H" "line = NULL \<or> line \<in> H - (if err = 0 then {} else blk p)"
      "cmd = NULL \<or> cmd \<in> H - (if err = 0 then {} else blk p) - blk line"
  shows "\<exists>w'. march_out err gccpipe pipe0 cmd line (Some p) w = (err, Some (if err = 0 then p else NULL), w') \<and>
    owns w0 (D - A) (H - (if err = 0 then {} else blk p) - blk line - blk cmd) us w'"
proof -
  define wf where "wf = (if err \<noteq> 0 then c_free p w else w)"
  have o1: "owns w0 D (H - (if err = 0 then {} else blk p)) us wf"
    using owns_free_blk [OF assms(1,4)] assms(1) by (simp add: wf_def)
  obtain w1 pipe1 where c: "(case gccpipe of Some f \<Rightarrow> (c_fclose f wf, -1) | None \<Rightarrow> (wf, pipe0)) = (w1, pipe1)"
    by fastforce
  note o2 = owns_free_blk [OF owns_free_blk [OF read_end_closed [OF o1 assms(2,3) c [symmetric]] assms(5)] assms(6)]
  show ?thesis
  proof (cases "err = 0")
    case True
    then have w: "wf = w" by (simp add: wf_def)
    show ?thesis using o2 True by (simp add: march_out_def c [unfolded w])
  next
    case False
    then have w: "wf = c_free p w" by (simp add: wf_def)
    show ?thesis using o2 False by (simp add: march_out_def c [unfolded w])
  qed
qed

lemma owns_getline:
  assumes o: "owns w0 D (G \<union> blk p) us w" "p \<notin> G" and g: "c_getline p f w = (len, p', f', w')"
  shows "f_fd f' = f_fd f \<and> p' \<noteq> NULL \<and> p' \<notin> G \<and> owns w0 D (insert p' G) us w' \<and>
    (\<exists>b. heap w' p' = Some b \<and>
      (0 \<le> len \<longrightarrow> terminated b \<and> set (cstr b) \<subseteq> set (f_data f) \<and> set (f_data f') \<subseteq> set (f_data f)))"
proof -
  have live: "p = NULL \<or> heap w p \<noteq> None" using owns_live [OF o(1), of p] by (cases "p = NULL") simp_all
  note gc = c_getline_cases [OF g live]
  note f = gc [THEN conjunct1] gc [THEN conjunct2, THEN conjunct1]
  from gc [THEN conjunct2, THEN conjunct2] obtain b where
    r: "res w' = res w\<lparr>rs_heap := (heap w)(p' \<mapsto> b), rs_next := (if p = NULL then Suc (next_ptr w) else next_ptr w)\<rparr>"
    and tb: "0 \<le> len \<longrightarrow> terminated b \<and> set (cstr b) \<subseteq> set (f_data f) \<and> set (f_data f') \<subseteq> set (f_data f)"
    by (elim exE conjE) (rule that)
  note b = f r tb
  show ?thesis
  proof (cases "p = NULL")
    case True
    then have "res w' = res w\<lparr>rs_heap := (heap w)(next_ptr w \<mapsto> b), rs_next := Suc (next_ptr w)\<rparr>"
      using b by simp
    from owns_fresh [OF _ this, of w0 D G us] o b True show ?thesis by simp
  next
    case False
    then have "res w' = res (w\<lparr>heap := (heap w)(p \<mapsto> b)\<rparr>)" using b(2,3) by (simp add: res_def)
    moreover have "owns w0 D (insert p G) us (w\<lparr>heap := (heap w)(p \<mapsto> b)\<rparr>)"
      using owns_store [of w0 D "insert p G" us w p b] o False by simp
    ultimately have "owns w0 D (insert p G) us w'" using owns_res by blast
    moreover have "heap w' p = Some b" using res_eqD(3) [OF b(3)] b(2) False by simp
    ultimately show ?thesis using b False o(2) by auto
  qed
qed

lemma cut_newline_owns:
  assumes "owns w0 D H us w" "p \<in> H"
  shows "owns w0 D H us (cut_newline p w)"
proof -
  obtain b where "heap w p = Some b" using owns_live [OF assms] by blast
  then show ?thesis using assms owns_store by (auto simp: cut_newline_def split: option.split)
qed

lemma triplet_parent_owns:
  assumes o: "owns w0 {a, b} (insert cmd (blk val)) [] w" and ne: "a \<noteq> b" "cmd \<noteq> NULL" "cmd \<noteq> val"
    and eq: "triplet_parent ch (int a, int b) cmd val w = (err, v, w')"
  shows "\<exists>p. v = Some p \<and> owns w0 {} (if err = 0 then {p} else {}) [] w'"
proof -
  define w1 where "w1 = snd (sys_close (int b) w)"
  have o1: "owns w0 {a} (insert cmd (blk val)) [] w1"
    using owns_close [OF o, of b] ne(1) by (simp add: w1_def insert_Diff_if)
  obtain gp w2 where fo: "c_fdopen (int a) (fst ch) w1 = (gp, w2)" by fastforce
  note fc = c_fdopen_cases [OF fo]
  have o2: "owns w0 {a} (insert cmd (blk val)) [] w2" using owns_res [OF o1] fc by blast
  obtain r1 where c1: "sys_close (int b) w = (r1, w1)" by (metis prod.collapse w1_def)
  note start = eq [unfolded triplet_parent_def fst_conv snd_conv c1 Let_def prod.case fo]
  show ?thesis
  proof (cases gp)
    case None
    define e where "e = (if errno w2 \<noteq> 0 then - errno w2 else - errno_val ENOMEM)"
    have "e \<noteq> 0" by (simp add: e_def)
    have "triplet_out e None (int a) cmd (Some val) w2 = (err, v, w')"
      using start unfolding None option.case e_def .
    moreover have "\<exists>w'. triplet_out e None (int a) cmd (Some val) w2 = (e, Some val, w') \<and>
        owns w0 ({a} - {a}) (insert cmd (blk val) - blk cmd - (if e = 0 then {} else blk val)) [] w'"
      using ne by (intro triplet_out_owns [OF o2]) (auto simp: read_end_def blk_def)
    ultimately show ?thesis using \<open>e \<noteq> 0\<close> ne by (auto simp: blk_def split: if_splits)
  next
    case (Some f)
    have ff: "f_fd f = int a" using fc Some by simp
    define w3 where "w3 = (if val \<noteq> NULL then c_free val w2 else w2)"
    have o3: "owns w0 {a} ({cmd} \<union> blk NULL) [] w3"
      using owns_free_blk [OF o2, of val] o2 ne(3) by (auto simp: w3_def blk_def insert_Diff_if split: if_splits)
    obtain len p f' w4 where gl: "c_getline NULL f w3 = (len, p, f', w4)" by (metis prod_cases4)
    have og: "f_fd f' = int a" "p \<noteq> NULL" "p \<noteq> cmd" "owns w0 {a} {p, cmd} [] w4"
      using owns_getline [OF o3 _ gl] ne(2) ff by auto
    have out: "\<exists>w'. triplet_out e (Some f') (int a) cmd (Some p) w5 = (e, Some p, w') \<and>
        owns w0 ({a} - {a}) ({p, cmd} - blk cmd - (if e = 0 then {} else blk p)) [] w'"
      if "owns w0 {a} {p, cmd} [] w5" for e w5
      using og(1-3) ne by (intro triplet_out_owns [OF that]) (auto simp: read_end_def blk_def)
    have fin: ?thesis if "triplet_out e (Some f') (int a) cmd (Some p) w5 = (err, v, w')" "owns w0 {a} {p, cmd} [] w5" for e w5
      using out [OF that(2), of e] that(1) og(2,3) ne(2) by (auto simp: insert_Diff_if split: if_splits)
    note s2 = start [unfolded Some option.case, folded w3_def, unfolded gl prod.case]
    obtain r st w5 where wp: "sys_waitpid ch w4 = (r, st, w5)" by (metis prod_cases3)
    have o5: "owns w0 {a} {p, cmd} [] w5" using owns_res [OF og(4)] sys_waitpid_cases [OF wp] by blast
    have "owns w0 {a} {p, cmd} [] (cut_newline p w5)" using cut_newline_owns [OF o5] by simp
    with o5 og(4) s2 fin show ?thesis unfolding wp prod.case by (meson)
  qed
qed

lemma get_gcc_triplet_owns:
  assumes ok: "proc_ok w" "val = NULL \<or> heap w val \<noteq> None"
    and eq: "get_gcc_triplet env compiler (Some val) w = (err, v, w')"
  shows "\<exists>p. v = Some p \<and>
    (owns (without val w) {} (if err = 0 then {p} else {}) [] w' \<or>
     err < 0 \<and> (\<exists>b. owns (without val w) {b} {} [] w'))"
proof -
  note o = owns_without [OF ok]
  obtain r p0 p1 w1 where pp: "sys_pipe w = (r, p0, p1, w1)" by (metis prod_cases4)
  note start = eq [unfolded get_gcc_triplet_def option.case pp Let_def prod.case]
  from owns_pipe [OF o pp] show ?thesis
  proof (elim disjE exE conjE)
    assume f: "r = -1" "p0 = -1" "owns (without val w) {} (blk val) [] w1" "0 < errno w1"
    have "\<exists>w'. triplet_out (- errno w1) None p0 NULL (Some val) w1 = (- errno w1, Some val, w') \<and>
        owns (without val w) ({} - {}) (blk val - blk NULL - (if - errno w1 = 0 then {} else blk val)) [] w'"
      using f by (intro triplet_out_owns) (auto simp: read_end_def blk_def)
    then show ?thesis using start f(1,4) by auto
  next
    fix a b assume f: "r = 0" "p0 = int a" "p1 = int b" "a \<noteq> b" and o1: "owns (without val w) {a, b} (blk val) [] w1"
    obtain n cmd w2 where as: "c_asprintf (compiler @ '' -dumpmachine'') w1 = (n, cmd, w2)" by (metis prod_cases3)
    have leak: ?thesis
      if "triplet_out e None p0 cmd' (Some val) w3 = (err, v, w')" "e < 0"
        "owns (without val w) {a, b} (blk cmd' \<union> blk val) [] w3" "cmd' \<noteq> val \<or> cmd' = NULL" for e cmd' w3
    proof -
      have "\<exists>w'. triplet_out e None p0 cmd' (Some val) w3 = (e, Some val, w') \<and>
          owns (without val w) ({a, b} - {a}) (blk cmd' \<union> blk val - blk cmd' - (if e = 0 then {} else blk val)) [] w'"
        using that(2,4) f(2) by (intro triplet_out_owns [OF that(3)]) (auto simp: read_end_def blk_def)
      moreover have "{a, b} - {a} = {b}" "blk cmd' \<union> blk val - blk cmd' - blk val = {}" using f(4) by auto
      ultimately show ?thesis using that(1,2) by auto
    qed
    from owns_asprintf [OF o1 as] show ?thesis
    proof (elim disjE conjE)
      assume "n = -1" "cmd = NULL" "owns (without val w) {a, b} (blk val) [] w2"
      then show ?thesis using start f(1) as by (intro leak [of "- errno_val ENOMEM" NULL w2]) simp_all
    next
      assume n: "0 \<le> n" "cmd \<noteq> NULL" "cmd \<notin> blk val"
        and o2: "owns (without val w) {a, b} (insert cmd (blk val)) [] w2"
      have nv: "cmd \<noteq> val" using n by (auto simp: blk_def split: if_splits)
      obtain pid w3 where fk: "sys_fork (triplet_child env compiler (p0, p1)) env w2 = (pid, w3)" by fastforce
      have o3: "owns (without val w) {a, b} (insert cmd (blk val)) [] w3"
        and fe: "pid = None \<longrightarrow> 0 < errno w3" using owns_res [OF o2] sys_fork_cases [OF fk] by blast+
      have s3: "(case pid of None \<Rightarrow> triplet_out (- errno w3) None p0 cmd (Some val) w3
          | Some ch \<Rightarrow> triplet_parent ch (p0, p1) cmd val w3) = (err, v, w')"
        using start f(1) n(1) by (simp add: as fk)
      show ?thesis
      proof (cases pid)
        case None
        then show ?thesis using s3 fe leak [of "- errno w3" cmd w3] o3 n(2) nv by simp
      next
        case (Some ch)
        then have "triplet_parent ch (int a, int b) cmd val w3 = (err, v, w')" using s3 f(2,3) by simp
        from triplet_parent_owns [OF o3 f(4) n(2) nv this] show ?thesis by blast
      qed
    qed
  qed
qed

section \<open>The loop over the lines, whatever fails\<close>

lemma skip_whitespace_total:
  assumes "terminated b"
  shows "\<exists>buf. skip_whitespace b = Some (buf, length (cstr buf)) \<and> terminated buf"
proof -
  from split_list_first [of NUL b] assms obtain s post where "b = s @ NUL # post" "NUL \<notin> set s"
    by (auto simp: terminated_def)
  moreover from skip_whitespace_spec [OF this(2), of post] this(2) obtain junk where
    "skip_whitespace (s @ NUL # post) = Some (strip s @ NUL # junk, length (strip s))" by blast
  ultimately show ?thesis by (auto simp: terminated_def)
qed

lemma march_match_drop:
  assumes "march_match opt buf (length (cstr buf))" "terminated buf"
  shows "terminated (drop (length opt + 2) buf)"
proof -
  from split_list_first [of NUL buf] assms(2) obtain s post where b: "buf = s @ NUL # post" "NUL \<notin> set s"
    by (auto simp: terminated_def)
  then have "length opt + 2 < length s" using assms(1) by (auto simp: march_match_def)
  then show ?thesis by (simp add: b(1) terminated_def)
qed

text \<open>The value the loop leaves in the out parameter.\<close>

definition found :: "int + ptr \<Rightarrow> ptr" where
  "found R = (case R of Inl _ \<Rightarrow> NULL | Inr p \<Rightarrow> p)"

text \<open>The undefined behaviour of the loop: characters outside the domain of \<open>isspace\<close>.\<close>

definition ctype_only :: "string \<Rightarrow> ub list \<Rightarrow> bool" where
  "ctype_only data us \<longleftrightarrow> set us \<subseteq> {Ctype_domain} \<and> ((\<forall>c\<in>set data. isspace_defined c) \<longrightarrow> us = [])"

lemma ctype_only_Nil [simp]: "ctype_only data []"
  by (simp add: ctype_only_def)

lemma ctype_only_append:
  assumes "set s \<subseteq> set data" "set d \<subseteq> set data" "ctype_only d us"
  shows "ctype_only data (isspace_log s @ us)"
proof -
  have "isspace_log s = [] \<and> us = []" if "\<forall>c\<in>set data. isspace_defined c"
    using that assms by (auto simp: ctype_only_def intro!: isspace_log_clean)
  then show ?thesis using assms(3) isspace_log_only [of s] by (auto simp: ctype_only_def)
qed

lemma isspace_checked_sel [frame_simps]:
  "heap (isspace_checked b w) = heap w" "fds (isspace_checked b w) = fds w" "flocks (isspace_checked b w) = flocks w"
  "next_ptr (isspace_checked b w) = next_ptr w" "stack_byte (isspace_checked b w) = stack_byte w"
  "ub_log (isspace_checked b w) = ub_log w @ isspace_log (cstr b)"
  by (simp_all add: isspace_checked_def)

lemma owns_isspace_checked:
  "owns w0 D H us w \<Longrightarrow> owns w0 D H (us @ isspace_log (cstr b)) (isspace_checked b w)"
  by (auto simp: owns_def heap_ok_def frame_simps)

lemma march_loop_owns:
  assumes "owns w0 D (G \<union> blk line) us w" "line \<notin> G" "march_loop opt line f w = (R, line', f', w')"
  shows "f_fd f' = f_fd f \<and> line' \<notin> G \<and> (found R = NULL \<or> found R \<notin> insert line' G) \<and>
    (\<exists>vs. ctype_only (f_data f) vs \<and> owns w0 D (G \<union> blk line' \<union> blk (found R)) (us @ vs) w')"
  using assms
proof (induction opt line f w arbitrary: us R line' f' w' rule: march_loop.induct)
  case (1 opt line f w)
  show ?case
  proof (cases "f_eof f \<or> f_err f")
    case True
    then have "march_loop opt line f w = (Inr NULL, line, f, w)" by (subst march_loop.simps) simp
    then show ?thesis using "1.prems" by (auto simp: found_def intro!: exI [of _ "[]"])
  next
    case False
    obtain len p f1 w1 where gl: "c_getline line f w = (len, p, f1, w1)" by (metis prod_cases4)
    from owns_getline [OF "1.prems"(1,2) gl] obtain b where g: "f_fd f1 = f_fd f" "p \<noteq> NULL" "p \<notin> G"
      "owns w0 D (insert p G) us w1" "heap w1 p = Some b"
      "0 \<le> len \<longrightarrow> terminated b \<and> set (cstr b) \<subseteq> set (f_data f) \<and> set (f_data f1) \<subseteq> set (f_data f)" by blast
    show ?thesis
    proof (cases "len < 0")
      case True
      then have "march_loop opt line f w = (Inl (- errno w1), p, f1, w1)"
        using False by (subst march_loop.simps) (simp add: gl)
      then show ?thesis using "1.prems"(3) g by (auto simp: found_def intro!: exI [of _ "[]"])
    next
      case len: False
      then obtain buf where sk: "skip_whitespace b = Some (buf, length (cstr buf))" "terminated buf"
        using skip_whitespace_total [of b] g(6) by force
      let ?v = "isspace_log (cstr b)" and ?w2 = "(isspace_checked b w1)\<lparr>heap := (heap w1)(p \<mapsto> buf)\<rparr>"
      have sub: "set (cstr b) \<subseteq> set (f_data f)" "set (f_data f1) \<subseteq> set (f_data f)" using g(6) len by auto
      have o2: "owns w0 D (insert p G) (us @ ?v) ?w2"
        using owns_store [OF owns_isspace_checked [OF g(4)], of p b buf] by (simp add: frame_simps)
      obtain q w3 where sd: "c_strdup (drop (length opt + 2) buf) ?w2 = (q, w3)" by fastforce
      have loop: "march_loop opt line f w = (if march_match opt buf (length (cstr buf))
          then if q = NULL then (Inl (- errno_val ENOMEM), p, f1, w3) else (Inr q, p, f1, w3)
          else march_loop opt p f1 ?w2)"
        using False len g(5) sk(1) sd by (subst march_loop.simps) (simp add: gl)
      show ?thesis
      proof (cases "march_match opt buf (length (cstr buf))")
        case True
        from owns_strdup [OF o2 sd] march_match_drop [OF True sk(2)]
        have "q = NULL \<and> owns w0 D (insert p G) (us @ ?v) w3 \<or>
            q \<noteq> NULL \<and> q \<notin> insert p G \<and> owns w0 D (insert q (insert p G)) (us @ ?v) w3"
          by auto
        moreover have "ctype_only (f_data f) ?v"
          using ctype_only_append [OF sub(1), of "[]" "[]"] by simp
        ultimately show ?thesis using "1.prems"(3) loop True g(1-3)
          by (auto simp: found_def insert_commute split: if_splits intro!: exI [of _ ?v])
      next
        case no: False
        have "march_loop opt p f1 ?w2 = (R, line', f', w')" using "1.prems"(3) loop no by simp
        moreover have "skip_whitespace (the (heap w1 p)) = Some (buf, length (cstr buf))" using sk(1) g(5) by simp
        moreover have "owns w0 D (G \<union> blk p) (us @ ?v) ?w2" using o2 g(2) by simp
        moreover have "?w2 = (isspace_checked (the (heap w1 p)) w1)\<lparr>heap := (heap w1)(p \<mapsto> buf)\<rparr>" using g(5) by simp
        ultimately have "f_fd f' = f_fd f1 \<and> line' \<notin> G \<and> (found R = NULL \<or> found R \<notin> insert line' G) \<and>
            (\<exists>vs. ctype_only (f_data f1) vs \<and> owns w0 D (G \<union> blk line' \<union> blk (found R)) ((us @ ?v) @ vs) w')"
          using "1.IH" [OF False gl [symmetric] refl refl len _ refl refl no _ g(3)] by (simp del: append_assoc)
        then show ?thesis using ctype_only_append [OF sub] g(1) by (metis append.assoc)
      qed
    qed
  qed
qed

lemma march_leave:
  assumes "owns w0 (insert a D) ({cmd} \<union> blk line \<union> blk p) us w" "cmd \<noteq> NULL" "line \<noteq> cmd"
    and "p = NULL \<or> p \<noteq> cmd \<and> p \<noteq> line" "read_end g (int a) {a}" "a \<notin> D"
    and "march_out e g (int a) cmd line (Some p) w = (err, v, w')"
  shows "err = e \<and> (\<exists>p. v = Some p \<and> (err \<noteq> 0 \<longrightarrow> p = NULL) \<and> owns w0 D (blk p) us w')"
proof -
  have "\<exists>w'. march_out e g (int a) cmd line (Some p) w = (e, Some (if e = 0 then p else NULL), w') \<and>
      owns w0 (insert a D - {a}) ({cmd} \<union> blk line \<union> blk p - (if e = 0 then {} else blk p) - blk line - blk cmd) us w'"
    using assms(2-4) by (intro march_out_owns [OF assms(1,5)]) (auto simp: blk_def)
  moreover have "{cmd} \<union> blk line \<union> blk p - (if e = 0 then {} else blk p) - blk line - blk cmd =
      blk (if e = 0 then p else NULL)" "insert a D - {a} = D"
    using assms(2-4,6) by (auto simp: blk_def)
  ultimately show ?thesis using assms(7) by (auto split: if_splits)
qed

lemma march_parent_owns:
  assumes o: "owns w0 {a, b} {cmd} [] w" and ne: "a \<noteq> b" "cmd \<noteq> NULL"
    and eq: "march_parent ch (int a, int b) cmd opt w = (err, v, w')"
  shows "\<exists>p us. v = Some p \<and> (err \<noteq> 0 \<longrightarrow> p = NULL) \<and> ctype_only (fst ch) us \<and> owns w0 {} (blk p) us w'"
proof -
  define w1 where "w1 = snd (sys_close (int b) w)"
  have o1: "owns w0 {a} {cmd} [] w1"
    using owns_close [OF o, of b] ne(1) by (simp add: w1_def insert_Diff_if)
  obtain gp w2 where fo: "c_fdopen (int a) (fst ch) w1 = (gp, w2)" by fastforce
  note fc = c_fdopen_cases [OF fo]
  have o2: "owns w0 {a} {cmd} [] w2" using owns_res [OF o1] fc by blast
  obtain r1 where c1: "sys_close (int b) w = (r1, w1)" by (metis prod.collapse w1_def)
  note out = march_leave [OF _ ne(2)]
  note start = eq [unfolded march_parent_def fst_conv snd_conv c1 Let_def prod.case fo]
  show ?thesis
  proof (cases gp)
    case None
    have "owns w0 {a} ({cmd} \<union> blk NULL \<union> blk NULL) [] w2" "NULL \<noteq> cmd" "read_end None (int a) {a}"
      using o2 ne(2) by (simp_all add: read_end_def)
    from out [OF this(1,2) disjI1 [OF refl] this(3) _ start [unfolded None option.case]]
    show ?thesis by (blast intro: ctype_only_Nil)
  next
    case (Some f)
    have ff: "f_fd f = int a" using fc Some by simp
    obtain R line f' w3 where ml: "march_loop opt NULL f w2 = (R, line, f', w3)" by (metis prod_cases4)
    have fd: "f_data f = fst ch" using fc Some by simp
    obtain us where ol: "f_fd f' = int a" "line \<noteq> cmd" "found R = NULL \<or> found R \<noteq> cmd \<and> found R \<noteq> line"
      "owns w0 {a} ({cmd} \<union> blk line \<union> blk (found R)) us w3" and us: "ctype_only (fst ch) us"
      using march_loop_owns [OF _ _ ml, of w0 "{a}" "{cmd}" "[]"] o2 ne(2) ff fd by auto
    have re: "read_end (Some f') (int a) {a}" using ol(1) by (simp add: read_end_def)
    let ?goal = "\<exists>p. v = Some p \<and> (err \<noteq> 0 \<longrightarrow> p = NULL) \<and> owns w0 {} (blk p) us w'"
    have out': ?goal if "owns w0 {a} ({cmd} \<union> blk line \<union> blk p) us w4" "p = NULL \<or> p \<noteq> cmd \<and> p \<noteq> line"
      "march_out e (Some f') (int a) cmd line (Some p) w4 = (err, v, w')" for e p w4
      using out [OF that(1) ol(2) that(2) re _ that(3)] by blast
    note s2 = start [unfolded Some option.case ml prod.case]
    have ?goal
    proof (cases R)
      case (Inl e)
      with s2 ol have "march_out e (Some f') (int a) cmd line (Some NULL) w3 = (err, v, w')"
        "owns w0 {a} ({cmd} \<union> blk line \<union> blk NULL) us w3" by (simp_all add: found_def)
      from out' [OF this(2) _ this(1)] show ?goal by simp
    next
      case (Inr q)
      obtain r st w4 where wp: "sys_waitpid ch w3 = (r, st, w4)" by (metis prod_cases3)
      have "owns w0 {a} ({cmd} \<union> blk line \<union> blk q) us w4"
        using owns_res [OF ol(4)] sys_waitpid_cases [OF wp] Inr by (simp add: found_def)
      note o' = out' [OF this]
      show ?goal using s2 ol(3) unfolding Inr sum.case wp prod.case
        by (auto simp: found_def split: if_splits intro: o')
    qed
    then show ?thesis using us by blast
  qed
qed

text \<open>What reaches the pipe is what the compiler printed, or nothing.\<close>

abbreviation march_args :: "cstring \<Rightarrow> cstring \<Rightarrow> cstring list" where
  "march_args compiler opt \<equiv> [compiler, ''-'' @ opt @ ''=native'', ''-Q'', ''--help=target'']"

lemma child_exec_output:
  assumes "\<forall>out st. exec_prog env compiler args = Inr (out, st) \<longrightarrow> (\<forall>c\<in>set out. P c)"
  shows "\<forall>c\<in>set (fst (child_exec env compiler args pf w)). P c"
proof -
  obtain r w1 where c1: "sys_close (fst pf) w = (r, w1)" by fastforce
  obtain fd w2 where c2: "sys_open ''/dev/null'' [O_RDONLY] w1 = (fd, w2)" by fastforce
  define w3 where "w3 = (if 0 \<le> fd then snd (sys_close fd (snd (sys_dup2 fd 0 w2))) else w2)"
  obtain r' w4 where c3: "sys_dup2 (snd pf) 1 w3 = (r', w4)" by fastforce
  obtain r'' w5 where c4: "sys_close (snd pf) w4 = (r'', w5)" by fastforce
  show ?thesis unfolding child_exec_def c1 Let_def prod.case c2 w3_def [symmetric] c3 c4
    using assms by (auto simp: exit_errno_def split: sum.split option.split fd_obj.split)
qed

lemma march_child_output:
  assumes "\<forall>out st. exec_prog env compiler (march_args compiler opt) = Inr (out, st) \<longrightarrow> (\<forall>c\<in>set out. P c)"
  shows "\<forall>c\<in>set (fst (march_child env compiler opt pf w)). P c"
proof -
  obtain p w1 where c1: "c_strdup (compiler @ [NUL]) w = (p, w1)" by fastforce
  obtain n q w2 where c2: "c_asprintf (''-'' @ opt @ ''=native'') w1 = (n, q, w2)" by (metis prod_cases3)
  show ?thesis unfolding march_child_def c1 Let_def prod.case c2
    using child_exec_output [OF assms, of pf w2] by simp
qed

lemma sys_fork_child: "sys_fork child env w = (Some ch, w') \<Longrightarrow> \<exists>w1. ch = child w1"
  by (auto simp: sys_fork_def split: prod.splits fault.splits)

definition march_log :: "child_env \<Rightarrow> cstring \<Rightarrow> cstring \<Rightarrow> ub list \<Rightarrow> bool" where
  "march_log env compiler opt us \<longleftrightarrow> set us \<subseteq> {Ctype_domain} \<and>
     ((\<forall>out st. exec_prog env compiler (march_args compiler opt) = Inr (out, st) \<longrightarrow>
        (\<forall>c\<in>set out. isspace_defined c)) \<longrightarrow> us = [])"

lemma march_log_Nil: "march_log env compiler opt []"
  by (simp add: march_log_def)

lemma ctype_only_march_log:
  assumes "ctype_only (fst ch) us" "sys_fork (march_child env compiler opt pf) env w = (Some ch, w')"
  shows "march_log env compiler opt us"
proof -
  from sys_fork_child [OF assms(2)] obtain w1 where "ch = march_child env compiler opt pf w1" ..
  then have "(\<forall>out st. exec_prog env compiler (march_args compiler opt) = Inr (out, st) \<longrightarrow>
      (\<forall>c\<in>set out. isspace_defined c)) \<longrightarrow> (\<forall>c\<in>set (fst ch). isspace_defined c)"
    using march_child_output [of env compiler opt isspace_defined pf w1] by blast
  then show ?thesis using assms(1) unfolding march_log_def ctype_only_def by blast
qed

lemma get_march_native_owns:
  assumes ok: "proc_ok w" "val = NULL \<or> heap w val \<noteq> None"
    and eq: "get_march_native env compiler opt (Some val) w = (err, v, w')"
  shows "\<exists>p us. v = Some p \<and> (err \<noteq> 0 \<longrightarrow> p = NULL) \<and> march_log env compiler opt us \<and>
    (owns (without val w) {} (blk p) us w' \<or> err < 0 \<and> (\<exists>b. owns (without val w) {b} (blk p) us w'))"
proof -
  let ?w0 = "without val w"
  define w1 where "w1 = (if val \<noteq> NULL then c_free val w else w)"
  have o1: "owns ?w0 {} {} [] w1"
    using owns_free_blk [OF owns_without [OF ok], of val] owns_without [OF ok] by (auto simp: w1_def blk_def)
  obtain n cmd w2 where as: "c_asprintf (compiler @ '' -'' @ opt @ ''=native -Q --help=target'') w1 = (n, cmd, w2)"
    by (metis prod_cases3)
  note start = eq [unfolded get_march_native_def option.case Let_def, folded w1_def, unfolded as prod.case]
  from owns_asprintf [OF o1 as] show ?thesis
  proof (elim disjE conjE)
    assume "n = -1" "cmd = NULL" "owns ?w0 {} {} [] w2"
    then show ?thesis using start march_out_owns [of ?w0 "{}" "{}" "[]" w2 None "-1" "{}" NULL NULL "- errno_val ENOMEM" NULL]
      by (auto simp: read_end_def intro: march_log_Nil)
  next
    assume n: "0 \<le> n" "cmd \<noteq> NULL" and o2: "owns ?w0 {} {cmd} [] w2"
    obtain r p0 p1 w3 where pp: "sys_pipe w2 = (r, p0, p1, w3)" by (metis prod_cases4)
    obtain pid w4 where fk: "sys_fork (march_child env compiler opt (p0, p1)) env w3 = (pid, w4)" by fastforce
    have s2: "(if r < 0 then march_out (- errno w3) None p0 cmd NULL (Some NULL) w3
        else case pid of None \<Rightarrow> march_out (- errno w4) None p0 cmd NULL (Some NULL) w4
          | Some ch \<Rightarrow> march_parent ch (p0, p1) cmd opt w4) = (err, v, w')"
      using start n(1) by (cases "r < 0") (simp_all add: pp fk)
    from owns_pipe [OF o2 pp] show ?thesis
    proof (elim disjE exE conjE)
      assume "r = -1" "p0 = -1" "owns ?w0 {} {cmd} [] w3" "0 < errno w3"
      then show ?thesis using s2 n(2) march_out_owns [of ?w0 "{}" "{cmd}" "[]" w3 None "-1" "{}" NULL NULL "- errno w3" cmd]
        by (auto simp: read_end_def intro: march_log_Nil)
    next
      fix a b assume f: "r = 0" "p0 = int a" "p1 = int b" "a \<noteq> b" and o3: "owns ?w0 {a, b} {cmd} [] w3"
      have o4: "owns ?w0 {a, b} {cmd} [] w4" and fe: "pid = None \<longrightarrow> 0 < errno w4"
        using owns_res [OF o3] sys_fork_cases [OF fk] by blast+
      show ?thesis
      proof (cases pid)
        case None
        then have mo: "march_out (- errno w4) None (int a) cmd NULL (Some NULL) w4 = (err, v, w')" using s2 f by simp
        have re: "owns ?w0 {a, b} ({cmd} \<union> blk NULL \<union> blk NULL) [] w4" "NULL \<noteq> cmd" "read_end None (int a) {a}" "a \<notin> {b}"
          using o4 n(2) f(4) by (simp_all add: read_end_def)
        from march_leave [OF re(1) n(2) re(2) disjI1 [OF refl] re(3,4) mo] fe None show ?thesis
          by (auto intro: march_log_Nil)
      next
        case (Some ch)
        then have "march_parent ch (int a, int b) cmd opt w4 = (err, v, w')" using s2 f by simp
        from march_parent_owns [OF o4 f(4) n(2) this] ctype_only_march_log [OF _ fk [unfolded Some]]
        show ?thesis by blast
      qed
    qed
  qed
qed

lemma owns_no_block: "owns (without val w) D {} us w' \<Longrightarrow> heap w' = freed val (heap w) \<and> ub_log w' = ub_log w @ us"
  by (auto simp: owns_def without_def)

lemma owns_one_block:
  assumes "owns (without val w) D {p} us w'"
  shows "freed val (heap w) p = None \<and> (\<exists>b. heap w' = (freed val (heap w))(p \<mapsto> b)) \<and> ub_log w' = ub_log w @ us"
proof -
  obtain b where "heap w' p = Some b" using owns_live [OF assms, of p] by auto
  then have "heap w' = (freed val (heap w))(p \<mapsto> b)" using assms by (auto simp: owns_def without_def)
  then show ?thesis using assms by (auto simp: owns_def without_def)
qed

lemma owns_no_fd: "owns (without val w) {} H us w' \<Longrightarrow> fds w' = fds w"
  by (auto simp: owns_def without_def)

lemma owns_one_fd:
  assumes "owns (without val w) {k} H us w'"
  shows "\<exists>k f. fds w k = None \<and> fds w' = (fds w)(k \<mapsto> f)"
proof -
  have k: "fds w k = None" "fds w' k \<noteq> None" "\<And>n. n \<noteq> k \<Longrightarrow> fds w' n = fds w n"
    using assms by (auto simp: owns_def without_def)
  then obtain f where "fds w' k = Some f" by blast
  then have "fds w' = (fds w)(k \<mapsto> f)" using k(3) by (auto simp: fun_eq_iff)
  then show ?thesis using k(1) by blast
qed

section \<open>The result when nothing fails\<close>

lemma quiet_get_march_native:
  assumes "faults w = []" "proc_ok w" "room 2 w" "fds w 0 \<noteq> None" "fds w 1 \<noteq> None"
    and "val = NULL \<or> heap w val \<noteq> None"
    and "child_faults env = []" "NUL \<notin> set compiler" "NUL \<notin> set data"
      "exec_prog env compiler [compiler, ''-'' @ opt @ ''=native'', ''-Q'', ''--help=target''] = Inr (data, st)"
  shows "march_outcome data opt st (without val w) (get_march_native env compiler opt (Some val) w)"
proof -
  let ?w0 = "w\<lparr>heap := freed val (heap w)\<rparr>"
  have "proc_ok ?w0" using assms(2) by (simp add: proc_ok_def heap_ok_def freed_def)
  moreover from march_start [OF assms(1-6,7,8,10)] obtain a b s where
    "get_march_native env compiler opt (Some val) w = march_parent (data, st) (int a, int b) (next_ptr ?w0) opt
      (?w0\<lparr>fds := (fds ?w0)(a \<mapsto> PipeRead a, b \<mapsto> PipeWrite a), heap := (heap ?w0)(next_ptr ?w0 \<mapsto> s),
         next_ptr := Suc (next_ptr ?w0)\<rparr>)" "a \<noteq> b" "fds ?w0 a = None" "fds ?w0 b = None" by auto
  ultimately show ?thesis using quiet_march_parent [of ?w0 a b data opt st s] assms(1,9)
    by (simp add: without_def)
qed

lemma quiet_get_gcc_triplet:
  assumes "faults w = []" "proc_ok w" "room 2 w" "fds w 0 \<noteq> None" "fds w 1 \<noteq> None"
    and "val = NULL \<or> heap w val \<noteq> None"
    and "child_faults env = []" "NUL \<notin> set compiler" "NUL \<notin> set line" "CHR 0x0A \<notin> set line"
    and "exec_prog env compiler [compiler, ''-dumpmachine''] = Inr (line @ CHR 0x0A # rest, st)"
  shows "\<exists>p w'. get_gcc_triplet env compiler (Some val) w = (status_err st, Some p, w') \<and>
    p \<noteq> NULL \<and> freed val (heap w) p = None \<and> fds w' = fds w \<and> flocks w' = flocks w \<and> ub_log w' = ub_log w \<and>
    faults w' = [] \<and> next_ptr w' = Suc (Suc (next_ptr w)) \<and> fd_max w' = fd_max w \<and>
    heap w' = (if status_err st = 0 then (freed val (heap w))(p \<mapsto> line @ [NUL, NUL]) else freed val (heap w))"
proof -
  from triplet_start [OF assms(1-5,7,11,8), of val] obtain a b s where
    st: "get_gcc_triplet env compiler (Some val) w = triplet_parent (line @ CHR 0x0A # rest, st) (int a, int b) (next_ptr w) val
      (w\<lparr>fds := (fds w)(a \<mapsto> PipeRead a, b \<mapsto> PipeWrite a), heap := (heap w)(next_ptr w \<mapsto> s),
         next_ptr := Suc (next_ptr w)\<rparr>)" and ab: "a \<noteq> b" "fds w a = None" "fds w b = None" by blast
  have "freed val (heap w) (Suc (next_ptr w)) = None"
    using assms(2) by (simp add: freed_def proc_ok_def heap_ok_def)
  with quiet_triplet_parent [OF assms(1,2) ab assms(6,9,10), of rest st s] show ?thesis
    unfolding st by (metis nat.distinct(1))
qed

section \<open>A process and its compiler\<close>

text \<open>A process with its three standard descriptors open, and a compiler that is always the same.\<close>

definition comp_world :: "fault list \<Rightarrow> world" where
  "comp_world fs = \<lparr>inodes = [0 \<mapsto> \<lparr>i_dev = 1, i_mtime_sec = 0, i_mtime_nsec = 0, i_content = Dir Map.empty 0\<rparr>],
     root_ino = 0, cwd_ino = 0, next_ino = 1, clock_sec = 0, clock_nsec = 0,
     fds = [0 \<mapsto> OPath 0, 1 \<mapsto> OPath 0, 2 \<mapsto> OPath 0], fd_max = 5, flocks = Map.empty,
     heap = [1 \<mapsto> ''old'' @ [NUL]], next_ptr = 2, errno = 0, faults = fs, stack_byte = (\<lambda>_. CHR ''?''), ub_log = []\<rparr>"

definition comp_env :: "string \<Rightarrow> wstatus \<Rightarrow> child_env" where
  "comp_env out st = \<lparr>exec_prog = (\<lambda>p args. if p = ''/bin/cc'' then Inr (out, st) else Inl ENOENT), child_faults = []\<rparr>"

lemma comp_world_ok:
  "proc_ok (comp_world fs)" "room 2 (comp_world fs)" "fds (comp_world fs) 0 \<noteq> None" "fds (comp_world fs) 1 \<noteq> None"
  "faults (comp_world fs) = fs" "errno (comp_world fs) = 0" "heap (comp_world fs) 1 \<noteq> None"
proof -
  have "{n. n < fd_max (comp_world fs) \<and> fds (comp_world fs) n = None} = {3, 4}" by (auto simp: comp_world_def)
  then show "room 2 (comp_world fs)" by (simp add: room_def)
qed (simp_all add: comp_world_def proc_ok_def heap_ok_def)

lemma comp_env_ok:
  "child_faults (comp_env out st) = []" "exec_prog (comp_env out st) ''/bin/cc'' args = Inr (out, st)"
  by (simp_all add: comp_env_def)

text \<open>What \<open>gcc -march=native -Q --help=target\<close> prints, in short.\<close>

definition target_help :: string where
  "target_help = ''The target options:'' @ [CHR 0x0A] @ ''  -march=    znver3'' @ [CHR 0x0A] @ ''  -mtune=    x'' @ [CHR 0x0A]"

lemma target_help_match:
  "first_match ''march'' target_help = Some ''znver3''" "first_match ''mcpu'' target_help = None"
  "NUL \<notin> set target_help" "target_help \<noteq> []" "last target_help = CHR 0x0A"
  by (simp_all add: target_help_def first_match.simps first_line_def option_line_def isspace_def Let_def)

lemma target_help_clean: "\<forall>c\<in>set target_help. isspace_defined c"
  by (simp add: target_help_def isspace_defined_def)

lemma comp_world_log: "ub_log (comp_world fs) = []"
  by (simp add: comp_world_def)

section \<open>Properties\<close>

text \<open>C25. \<open>skip_whitespace\<close> removes exactly the white space of the string, in place: it neither
  gives up nor touches what follows the string, and returns the new length.\<close>

theorem skip_whitespace_filter:
  assumes "NUL \<notin> set s"
  shows "\<exists>buf. skip_whitespace (s @ NUL # post) = Some (buf, length (cstr buf)) \<and>
    cstr buf = filter (\<lambda>c. \<not> isspace c) s \<and> length buf = length (s @ NUL # post) \<and>
    drop (length s + 1) buf = post"
proof -
  let ?f = "filter (\<lambda>c. \<not> isspace c) s"
  from skip_loop_spec [OF assms, of "[]" "[]" post 0] obtain junk where
    sk: "skip_loop (s @ NUL # post) 0 0 0 = Some (?f @ junk @ NUL # post, length ?f, length ?f)"
    and l: "length junk + length ?f = length s" by auto
  let ?buf = "?f @ NUL # tl (junk @ [NUL]) @ post"
  have "(?f @ junk @ NUL # post)[length ?f := NUL] = ?buf"
    by (cases junk) (simp_all add: list_update_append)
  then have "skip_whitespace (s @ NUL # post) = Some (?buf, length ?f)" by (simp add: skip_whitespace_def sk)
  moreover have "cstr ?buf = ?f" using assms by simp
  moreover have "length ?buf = length (s @ NUL # post)" using l by simp
  moreover have "length (?f @ NUL # tl (junk @ [NUL])) = length s + 1" using l by simp
  then have "drop (length s + 1) ((?f @ NUL # tl (junk @ [NUL])) @ post) = post" by (metis append_eq_conv_conj)
  then have "drop (length s + 1) ?buf = post" by simp
  ultimately show ?thesis by metis
qed

theorem skip_whitespace_filter_witness:
  "\<exists>buf. skip_whitespace (''  -march= x'' @ NUL # ''yz'') = Some (buf, length (cstr buf)) \<and>
    cstr buf = ''-march=x'' \<and> drop 12 buf = ''yz''"
  using skip_whitespace_filter [of "''  -march= x''" "''yz''"] by (auto simp: isspace_def eval_nat_numeral)

text \<open>C21. On a system without faults, when the compiler prints a line and exits with status 0,
  \<open>get_gcc_triplet\<close> returns 0 and the line without its newline; the old value and all temporary
  resources have been given back.\<close>

theorem gcc_triplet_reads:
  assumes "faults w = []" "proc_ok w" "room 2 w" "fds w 0 \<noteq> None" "fds w 1 \<noteq> None"
    and "val = NULL \<or> heap w val \<noteq> None"
    and "child_faults env = []" "NUL \<notin> set compiler" "NUL \<notin> set line" "CHR 0x0A \<notin> set line"
    and "exec_prog env compiler [compiler, ''-dumpmachine''] = Inr (line @ CHR 0x0A # rest, Exited 0)"
  shows "\<exists>p w'. get_gcc_triplet env compiler (Some val) w = (0, Some p, w') \<and> heap_str w' p = Some line \<and>
    (\<forall>q. q \<noteq> p \<longrightarrow> heap w' q = freed val (heap w) q) \<and>
    fds w' = fds w \<and> flocks w' = flocks w \<and> ub_log w' = ub_log w"
  using quiet_get_gcc_triplet [OF assms] assms(9) by (auto simp: status_err_def heap_str_def)

theorem gcc_triplet_reads_witness:
  "\<exists>p w'. get_gcc_triplet (comp_env (''x86_64-linux-gnu'' @ [CHR 0x0A]) (Exited 0)) ''/bin/cc'' (Some 1) (comp_world []) =
     (0, Some p, w') \<and> heap_str w' p = Some ''x86_64-linux-gnu'' \<and> fds w' = fds (comp_world [])"
  using gcc_triplet_reads [OF comp_world_ok(5) comp_world_ok(1-4), of 1
      "comp_env (''x86_64-linux-gnu'' @ [CHR 0x0A]) (Exited 0)" "''/bin/cc''" "''x86_64-linux-gnu''" "[]"]
    comp_world_ok(7) [of "[]"]
  by (auto simp: comp_env_ok)

text \<open>C26. When the compiler prints a line and then exits with a status other than 0 or is killed,
  \<open>get_gcc_triplet\<close> returns the status and frees the line, but the caller is left with a pointer to
  the freed block: the header promises a null pointer.\<close>

theorem gcc_triplet_dangling:
  assumes "faults w = []" "proc_ok w" "room 2 w" "fds w 0 \<noteq> None" "fds w 1 \<noteq> None"
    and "val = NULL \<or> heap w val \<noteq> None"
    and "child_faults env = []" "NUL \<notin> set compiler" "NUL \<notin> set line" "CHR 0x0A \<notin> set line"
    and "exec_prog env compiler [compiler, ''-dumpmachine''] = Inr (line @ CHR 0x0A # rest, st)" "status_err st \<noteq> 0"
  shows "\<exists>p w'. get_gcc_triplet env compiler (Some val) w = (status_err st, Some p, w') \<and>
    p \<noteq> NULL \<and> heap w' p = None \<and> heap w' = freed val (heap w) \<and> fds w' = fds w"
  using quiet_get_gcc_triplet [OF assms(1-11)] assms(12) by auto

theorem gcc_triplet_dangling_witness:
  "\<exists>p w'. get_gcc_triplet (comp_env (''what?'' @ [CHR 0x0A]) (Exited 1)) ''/bin/cc'' (Some 1) (comp_world []) =
     (1, Some p, w') \<and> p \<noteq> NULL \<and> heap w' p = None"
  using gcc_triplet_dangling [OF comp_world_ok(5) comp_world_ok(1-4), of 1
      "comp_env (''what?'' @ [CHR 0x0A]) (Exited 1)" "''/bin/cc''" "''what?''" "[]" "Exited 1"]
    comp_world_ok(7) [of "[]"]
  by (auto simp: comp_env_ok status_err_def)

text \<open>A compiler that prints nothing is not noticed: \<open>getline\<close> meets the end of the file,
  \<open>errno\<close> is still 0, and \<open>get_gcc_triplet\<close> returns 0 with a block of indeterminate bytes,
  whatever the exit status.\<close>

lemma gcc_triplet_silent:
  assumes "faults w = []" "proc_ok w" "room 2 w" "fds w 0 \<noteq> None" "fds w 1 \<noteq> None"
    and "val = NULL \<or> heap w val \<noteq> None" "errno w = 0"
    and "child_faults env = []" "NUL \<notin> set compiler"
    and "exec_prog env compiler [compiler, ''-dumpmachine''] = Inr ([], st)"
  shows "\<exists>p w'. get_gcc_triplet env compiler (Some val) w = (0, Some p, w') \<and>
    heap w' p = Some (map (stack_byte w) [0..<120])"
proof -
  from triplet_start [OF assms(1-5,8,10,9), of val] obtain a b s where
    st: "get_gcc_triplet env compiler (Some val) w = triplet_parent ([], st) (int a, int b) (next_ptr w) val
      (w\<lparr>fds := (fds w)(a \<mapsto> PipeRead a, b \<mapsto> PipeWrite a), heap := (heap w)(next_ptr w \<mapsto> s),
         next_ptr := Suc (next_ptr w)\<rparr>)" and ab: "a \<noteq> b" "fds w a = None" "fds w b = None" by blast
  from quiet_triplet_silent [OF assms(1,2) ab assms(6,7), of st s] show ?thesis unfolding st by auto
qed

lemma gcc_triplet_silent_witness:
  "\<exists>p w'. get_gcc_triplet (comp_env [] (Exited 1)) ''/bin/cc'' (Some NULL) (comp_world []) = (0, Some p, w') \<and>
     heap w' p = Some (replicate 120 (CHR ''?''))"
proof -
  have "map (stack_byte (comp_world [])) [0..<120] = replicate 120 (CHR ''?'')"
    by (simp add: comp_world_def map_replicate_const)
  then show ?thesis
    using gcc_triplet_silent [OF comp_world_ok(5) comp_world_ok(1-4), of NULL
        "comp_env [] (Exited 1)" "''/bin/cc''" "Exited 1"]
    by (simp add: comp_env_ok comp_world_ok)
qed

text \<open>C22. Whatever system calls fail and whatever the compiler does, \<open>get_gcc_triplet\<close> frees the
  old value and nothing twice; on success it leaves one new block, on an error none; and it gives
  all descriptors back, except that an error may leave one of them open.\<close>

theorem gcc_triplet_clean:
  assumes "proc_ok w" "val = NULL \<or> heap w val \<noteq> None"
    and "get_gcc_triplet env compiler (Some val) w = (err, v, w')"
  shows "ub_log w' = ub_log w \<and>
    (if err = 0 then \<exists>p b. v = Some p \<and> heap w' = (freed val (heap w))(p \<mapsto> b) \<and> freed val (heap w) p = None
     else heap w' = freed val (heap w)) \<and>
    (fds w' = fds w \<or> err < 0 \<and> (\<exists>k f. fds w k = None \<and> fds w' = (fds w)(k \<mapsto> f)))"
proof -
  from get_gcc_triplet_owns [OF assms] obtain p where p: "v = Some p"
    and o: "owns (without val w) {} (if err = 0 then {p} else {}) [] w' \<or>
      err < 0 \<and> (\<exists>b. owns (without val w) {b} {} [] w')" by blast
  from o show ?thesis
    by (elim disjE conjE exE) (use p owns_one_block owns_one_fd owns_no_block owns_no_fd in \<open>auto split: if_splits\<close>)
qed

text \<open>The descriptor that stays open is the write end of the pipe, when \<open>fork\<close> fails.\<close>

theorem gcc_triplet_clean_witness:
  "fds (snd (snd (get_gcc_triplet (comp_env [] (Exited 0)) ''/bin/cc'' (Some 1) (comp_world [Pass, Pass, Fail EAGAIN])))) =
     (fds (comp_world []))(4 \<mapsto> PipeWrite 3) \<and>
   heap (snd (snd (get_gcc_triplet (comp_env [] (Exited 0)) ''/bin/cc'' (Some 1) (comp_world [Pass, Pass, Fail EAGAIN])))) = Map.empty"
proof -
  let ?X = "get_gcc_triplet (comp_env [] (Exited 0)) ''/bin/cc'' (Some 1) (comp_world [Pass, Pass, Fail EAGAIN])"
  have x: "fst ?X = -11" "fds (snd (snd ?X)) = (fds (comp_world []))(4 \<mapsto> PipeWrite 3)"
    by (simp_all add: get_gcc_triplet_def comp_world_def sys_pipe_def next_fault_def free_fd_def upt_conv_Cons
        c_asprintf_def alloc_def sys_fork_def fail_with_def triplet_out_def sys_close_def fd_lookup_def
        c_free_def eval_nat_numeral fun_eq_iff)
  obtain err v w' where X: "?X = (err, v, w')" by (metis prod_cases3)
  have "err = -11" using x(1) unfolding X by simp
  with gcc_triplet_clean [OF comp_world_ok(1) disjI2 [OF comp_world_ok(7)] X]
  have "heap w' = freed 1 (heap (comp_world [Pass, Pass, Fail EAGAIN]))" by auto
  then show ?thesis using x(2) unfolding X by (simp add: freed_def comp_world_def fun_eq_iff)
qed

text \<open>C23. On a system without faults \<open>get_march_native\<close> looks for the first line that, stripped of
  white space, reads \<open>-opt=value\<close> with a value of at least one character. When the compiler
  succeeds the result is that value; otherwise it is the status, and the value is freed and
  reset to a null pointer. In both cases all temporary resources are given back. Nothing undefined
  happens but, once for each line read that has one, a character outside the domain of
  \<open>isspace\<close>; when the compiler prints none, nothing undefined happens at all.\<close>

theorem march_native_first_match:
  assumes "faults w = []" "proc_ok w" "room 2 w" "fds w 0 \<noteq> None" "fds w 1 \<noteq> None"
    and "val = NULL \<or> heap w val \<noteq> None"
    and "child_faults env = []" "NUL \<notin> set compiler" "NUL \<notin> set data"
    and "exec_prog env compiler [compiler, ''-'' @ opt @ ''=native'', ''-Q'', ''--help=target''] = Inr (data, st)"
    and "first_match opt data = Some v"
  shows "\<exists>p w'. get_march_native env compiler opt (Some val) w = (status_err st, Some p, w') \<and>
    (if status_err st = 0 then heap_str w' p = Some (cstr (v @ [NUL])) \<and> (\<forall>q. q \<noteq> p \<longrightarrow> heap w' q = freed val (heap w) q)
     else p = NULL \<and> heap w' = freed val (heap w)) \<and>
    fds w' = fds w \<and> flocks w' = flocks w \<and> ub_log w' = ub_log w @ lines_log opt data \<and>
    set (lines_log opt data) \<subseteq> {Ctype_domain} \<and>
    ((\<forall>c\<in>set data. isspace_defined c) \<longrightarrow> ub_log w' = ub_log w)"
proof -
  obtain err u w' where X: "get_march_native env compiler opt (Some val) w = (err, u, w')" by (metis prod_cases3)
  note m = quiet_get_march_native [OF assms(1-10), unfolded march_outcome_def X prod.case assms(11) option.case frame_simps]
  have same: "err = status_err st" "fds w' = fds w" "flocks w' = flocks w" "ub_log w' = ub_log w @ lines_log opt data"
    and out: "if err = 0 then \<exists>p. u = Some p \<and> p \<noteq> NULL \<and> freed val (heap w) p = None \<and>
        heap w' = (freed val (heap w))(p \<mapsto> v @ [NUL])
      else u = Some NULL \<and> heap w' = freed val (heap w)"
    by (insert m) (elim conjE, assumption)+
  note log = lines_log_only [of opt data] lines_log_clean [of data opt]
  show ?thesis
  proof (cases "err = 0")
    case True
    with out obtain p where p: "u = Some p" "p \<noteq> NULL" "heap w' = (freed val (heap w))(p \<mapsto> v @ [NUL])" by auto
    then have "heap_str w' p = Some (cstr (v @ [NUL]))" by (simp add: heap_str_def)
    then show ?thesis using X p same log True by (intro exI [of _ p] exI [of _ w']) simp
  next
    case False
    then show ?thesis using X out same log by (intro exI [of _ NULL] exI [of _ w']) simp
  qed
qed

text \<open>When no line matches and the output ends with a newline, the loop is left through the
  end of the file: the result is \<open>-errno\<close> of some earlier call and not \<open>-ENOENT\<close>, so with \<open>errno\<close>
  at 0 the call reports success with a null pointer. Without the final newline it is
  \<open>-ENOENT\<close>.\<close>

lemma march_native_no_match:
  assumes "faults w = []" "proc_ok w" "room 2 w" "fds w 0 \<noteq> None" "fds w 1 \<noteq> None"
    and "val = NULL \<or> heap w val \<noteq> None"
    and "child_faults env = []" "NUL \<notin> set compiler" "NUL \<notin> set data"
    and "exec_prog env compiler [compiler, ''-'' @ opt @ ''=native'', ''-Q'', ''--help=target''] = Inr (data, Exited 0)"
    and "first_match opt data = None" "data \<noteq> []"
  shows "\<exists>w'. get_march_native env compiler opt (Some val) w =
      (if last data = CHR 0x0A then - errno w else - errno_val ENOENT, Some NULL, w') \<and>
    heap w' = freed val (heap w) \<and> fds w' = fds w"
  using quiet_get_march_native [OF assms(1-10)] assms(11,12)
  by (auto simp: march_outcome_def status_err_def without_def)

text \<open>C24. Whatever system calls fail and whatever the compiler prints, \<open>get_march_native\<close> frees the
  old value and nothing twice, leaves at most the value found and then only when it returns 0,
  resets the value to a null pointer on every error, and gives all descriptors back, except that
  an error may leave one of them open. The one undefined behaviour it can have is \<open>isspace\<close> of a
  negative \<^verbatim>\<open>char\<close>, and it has none when the compiler prints only characters that \<open>isspace\<close> is defined
  for.\<close>

theorem march_native_clean:
  assumes "proc_ok w" "val = NULL \<or> heap w val \<noteq> None"
    and "get_march_native env compiler opt (Some val) w = (err, v, w')"
  shows "(\<exists>us. ub_log w' = ub_log w @ us \<and> set us \<subseteq> {Ctype_domain} \<and>
      ((\<forall>out st. exec_prog env compiler [compiler, ''-'' @ opt @ ''=native'', ''-Q'', ''--help=target''] = Inr (out, st) \<longrightarrow>
        (\<forall>c\<in>set out. isspace_defined c)) \<longrightarrow> us = [])) \<and>
    (err \<noteq> 0 \<longrightarrow> v = Some NULL) \<and>
    (\<exists>p. v = Some p \<and> (if p = NULL then heap w' = freed val (heap w)
       else freed val (heap w) p = None \<and> (\<exists>b. heap w' = (freed val (heap w))(p \<mapsto> b)))) \<and>
    (fds w' = fds w \<or> err < 0 \<and> (\<exists>k f. fds w k = None \<and> fds w' = (fds w)(k \<mapsto> f)))"
proof -
  from get_march_native_owns [OF assms] obtain p us where p: "v = Some p" "err \<noteq> 0 \<longrightarrow> p = NULL"
    and us: "march_log env compiler opt us"
    and o: "owns (without val w) {} (blk p) us w' \<or> err < 0 \<and> (\<exists>b. owns (without val w) {b} (blk p) us w')" by blast
  from o have "ub_log w' = ub_log w @ us" by (auto simp: owns_def without_def)
  with us have "\<exists>us. ub_log w' = ub_log w @ us \<and> set us \<subseteq> {Ctype_domain} \<and>
      ((\<forall>out st. exec_prog env compiler (march_args compiler opt) = Inr (out, st) \<longrightarrow>
        (\<forall>c\<in>set out. isspace_defined c)) \<longrightarrow> us = [])" by (auto simp: march_log_def)
  moreover from o have "fds w' = fds w \<or> err < 0 \<and> (\<exists>k f. fds w k = None \<and> fds w' = (fds w)(k \<mapsto> f))"
    using owns_no_fd owns_one_fd by blast
  moreover from o have "if p = NULL then heap w' = freed val (heap w)
      else freed val (heap w) p = None \<and> (\<exists>b. heap w' = (freed val (heap w))(p \<mapsto> b))"
    by (elim disjE conjE exE; cases "p = NULL") (use owns_no_block owns_one_block in auto)
  ultimately show ?thesis using p by auto
qed

theorem march_native_first_match_witness:
  "\<exists>p w'. get_march_native (comp_env target_help (Exited 0)) ''/bin/cc'' ''march'' (Some 1) (comp_world []) = (0, Some p, w') \<and>
     heap_str w' p = Some ''znver3'' \<and> fds w' = fds (comp_world []) \<and> ub_log w' = []"
  using march_native_first_match [OF comp_world_ok(5) comp_world_ok(1-4), of 1
      "comp_env target_help (Exited 0)" "''/bin/cc''" target_help "''march''" "Exited 0" "''znver3''"]
    comp_world_ok(7) [of "[]"]
    lines_log_clean [OF target_help_clean, of "''march''"]
  by (auto simp: comp_env_ok target_help_match status_err_def cstr_def comp_world_log)

lemma march_native_no_match_witness:
  "\<exists>w'. get_march_native (comp_env target_help (Exited 0)) ''/bin/cc'' ''mcpu'' (Some NULL) (comp_world []) = (0, Some NULL, w')"
  using march_native_no_match [OF comp_world_ok(5) comp_world_ok(1-4), of NULL
      "comp_env target_help (Exited 0)" "''/bin/cc''" target_help "''mcpu''"]
  by (auto simp: comp_env_ok target_help_match comp_world_ok)

theorem march_native_clean_witness:
  "\<exists>w'. get_march_native (comp_env target_help (Exited 0)) ''/bin/cc'' ''march'' (Some 1) (comp_world [Fail ENOMEM]) =
     (-12, Some NULL, w') \<and> heap w' = Map.empty"
proof -
  let ?X = "get_march_native (comp_env target_help (Exited 0)) ''/bin/cc'' ''march'' (Some 1) (comp_world [Fail ENOMEM])"
  have x: "fst ?X = -12"
    by (simp add: get_march_native_def comp_world_def c_free_def c_asprintf_def next_fault_def march_out_def)
  obtain err v w' where X: "?X = (err, v, w')" by (metis prod_cases3)
  have e: "err = -12" using x unfolding X by simp
  with march_native_clean [OF comp_world_ok(1) disjI2 [OF comp_world_ok(7)] X]
  have "v = Some NULL" "heap w' = freed 1 (heap (comp_world [Fail ENOMEM]))" by auto
  then show ?thesis using e unfolding X by (simp add: freed_def comp_world_def fun_eq_iff)
qed

end
