(* ===== verification/Bench_Inode_Cache.thy ===== *)
theory Bench_Inode_Cache
  imports Inode_Cache Compiler_Properties Mkdir_P Barrier Bench_Stats
begin

text \<open>
  The benchmark of \<^verbatim>\<open>c/bench_inodecache.c\<close>: elapsed times, the record in shared memory, the
  two measured phases of a child process, the parent and \<open>main\<close>. The arithmetic of \<open>double\<close>
  and the readings of the monotonic clock are parameters. What is printed is not modelled.
\<close>

section \<open>Elapsed time\<close>

record timespec =
  tv_sec :: i64
  tv_nsec :: i64

definition timespec_delta_usec :: "timespec \<Rightarrow> timespec \<Rightarrow> i64" where
  "timespec_delta_usec start end' =
    (let delta = (tv_sec end' - tv_sec start) * 1000000
     in delta + of_int (sint (tv_nsec end' - tv_nsec start) sdiv 1000))"

text \<open>The clock gives its \<open>k\<close>-th reading, unless the call fails.\<close>

definition clock_gettime :: "(nat \<Rightarrow> timespec) \<Rightarrow> nat \<Rightarrow> world \<Rightarrow> (int + timespec) \<times> nat \<times> world" where
  "clock_gettime clk k w =
    (case next_fault w of
       (Fail e, w) \<Rightarrow> (let (_, w) = fail_with e w in (Inl (- errno w), k, w))
     | (_, w) \<Rightarrow> (Inr (clk k), Suc k, w))"

section \<open>The record in shared memory\<close>

record 'd bench_result =
  br_lock :: sem_t
  br_stats :: "'d bench_stats"
  br_nocache_stats :: "'d bench_stats"
  br_barrier :: barrier
  br_lock_initialized :: bool

text \<open>
  A pointer to it is null, \<open>MAP_FAILED\<close> or the address of the one mapping the program makes;
  the mapping itself is \<open>None\<close> when there is none.
\<close>

datatype result_ptr = Null | Map_Failed | Mapped

type_synonym 'd mapping = "'d bench_result option"

text \<open>\<open>funmap\<close> is the failure of \<open>munmap\<close>, if it fails.\<close>

definition bench_result_unmap ::
  "errno option \<Rightarrow> result_ptr option \<Rightarrow> 'd mapping \<Rightarrow> result_ptr option \<times> 'd mapping" where
  "bench_result_unmap funmap ptrptr mem =
    (case ptrptr of
       None \<Rightarrow> (ptrptr, mem)
     | Some Null \<Rightarrow> (ptrptr, mem)
     | Some Map_Failed \<Rightarrow> (Some Null, mem)
     | Some Mapped \<Rightarrow>
        let mem = map_option (\<lambda>obj.
              let obj = (if br_lock_initialized obj
                         then obj\<lparr>br_lock := None, br_lock_initialized := False\<rparr> else obj)
              in obj\<lparr>br_barrier := barrier_close (br_barrier obj)\<rparr>) mem;
            mem = (if funmap = None then None else mem)
        in (Some Null, mem))"

text \<open>The failures of \<open>mmap\<close>, of the semaphores of the barrier, of the lock and of \<open>munmap\<close>.\<close>

record map_faults =
  f_mmap :: "errno option"
  f_mutex :: "errno option"
  f_barrier :: "errno option"
  f_lock :: "errno option"
  f_munmap :: "errno option"

definition no_map_faults :: map_faults where
  "no_map_faults = \<lparr>f_mmap = None, f_mutex = None, f_barrier = None, f_lock = None, f_munmap = None\<rparr>"

definition bench_result_map ::
  "'d arith \<Rightarrow> map_faults \<Rightarrow> result_ptr option \<Rightarrow> int \<Rightarrow> 'd mapping \<Rightarrow> int \<times> result_ptr option \<times> 'd mapping" where
  "bench_result_map A fl resultptr nproc mem =
    (if resultptr \<noteq> Some Null
     then (- errno_val EINVAL, resultptr, snd (bench_result_unmap (f_munmap fl) (Some Map_Failed) mem))
     else
       case f_mmap fl of
         Some e \<Rightarrow> (- errno_val e, resultptr, snd (bench_result_unmap (f_munmap fl) (Some Map_Failed) mem))
       | None \<Rightarrow>
          let (err, b) = barrier_init (f_mutex fl) (f_barrier fl) nproc 1;
              obj = \<lparr>br_lock = None, br_stats = bench_stats_reset A, br_nocache_stats = bench_stats_reset A,
                     br_barrier = b, br_lock_initialized = False\<rparr>
          in if err \<noteq> 0 then (err, resultptr, snd (bench_result_unmap (f_munmap fl) (Some Mapped) (Some obj)))
             else
               let (r, errno, s) = sem_init (f_lock fl) True 1 (br_lock obj)
               in if r \<noteq> 0
                  then (- errno, resultptr, snd (bench_result_unmap (f_munmap fl) (Some Mapped) (Some obj)))
                  else (0, Some Mapped, Some (obj\<lparr>br_lock := s, br_lock_initialized := True\<rparr>)))"

section \<open>The two phases of a child\<close>

definition GCC_TRIPLET :: u16 where "GCC_TRIPLET = 1"

text \<open>\<open>strcmp\<close> of a heap string with a string: \<open>None\<close> when the pointer is null or dangling.\<close>

definition strcmp_eq :: "world \<Rightarrow> ptr \<Rightarrow> cstring \<Rightarrow> bool option" where
  "strcmp_eq w p s = map_option (\<lambda>t. t = s) (heap_str w p)"

text \<open>The check of a measured value, and its release.\<close>

definition check_value :: "ptr \<Rightarrow> cstring \<Rightarrow> world \<Rightarrow> (int + unit) \<times> ptr \<times> world" where
  "check_value value triplet w =
    (case strcmp_eq w value triplet of
       None \<Rightarrow> (Inl (- errno_val EINVAL), value, log_ub (Dangling_pointer value) w)
     | Some eq \<Rightarrow> if \<not> eq then (Inl (- errno_val EINVAL), value, w) else (Inr (), NULL, c_free value w))"

text \<open>
  The first loop: \<open>n\<close> timed reads of the cache. The result is \<open>Inl err\<close> for a jump to the
  label; the pointer is the variable \<open>value\<close>, which is null whenever an iteration starts.
\<close>

fun cache_reads ::
  "(nat \<Rightarrow> timespec) \<Rightarrow> 'd arith \<Rightarrow> inode_cache \<Rightarrow> cstring \<Rightarrow> cstring \<Rightarrow> nat \<Rightarrow> 'd bench_stats \<Rightarrow> nat \<Rightarrow> world
    \<Rightarrow> (int + 'd bench_stats) \<times> ptr \<times> nat \<times> world" where
  "cache_reads clk A ic compiler triplet 0 bstat k w = (Inr bstat, NULL, k, w)"
| "cache_reads clk A ic compiler triplet (Suc n) bstat k w =
    (case clock_gettime clk k w of
       (Inl err, k, w) \<Rightarrow> (Inl err, NULL, k, w)
     | (Inr start, k, w) \<Rightarrow>
    (case inode_cache_get ic compiler GCC_TRIPLET (Some NULL) w of (err, v, w) \<Rightarrow>
       if err \<noteq> 0 then (Inl err, the v, k, w)
       else
    (case clock_gettime clk k w of
       (Inl err, k, w) \<Rightarrow> (Inl err, the v, k, w)
     | (Inr end', k, w) \<Rightarrow>
        let bstat = bench_stats_update A bstat (timespec_delta_usec start end')
        in (case check_value (the v) triplet w of
              (Inl err, value, w) \<Rightarrow> (Inl err, value, k, w)
            | (Inr _, _, w) \<Rightarrow> cache_reads clk A ic compiler triplet n bstat k w))))"

text \<open>The second loop: \<open>n\<close> timed runs of the compiler.\<close>

fun compiler_runs ::
  "(nat \<Rightarrow> timespec) \<Rightarrow> 'd arith \<Rightarrow> child_env \<Rightarrow> cstring \<Rightarrow> cstring \<Rightarrow> nat \<Rightarrow> 'd bench_stats \<Rightarrow> nat \<Rightarrow> world
    \<Rightarrow> (int + 'd bench_stats) \<times> ptr \<times> nat \<times> world" where
  "compiler_runs clk A env compiler triplet 0 nstat k w = (Inr nstat, NULL, k, w)"
| "compiler_runs clk A env compiler triplet (Suc n) nstat k w =
    (case clock_gettime clk k w of
       (Inl err, k, w) \<Rightarrow> (Inl err, NULL, k, w)
     | (Inr start, k, w) \<Rightarrow>
    (case get_gcc_triplet env compiler (Some NULL) w of (err, v, w) \<Rightarrow>
       if err \<noteq> 0 then (Inl err, the v, k, w)
       else
    (case clock_gettime clk k w of
       (Inl err, k, w) \<Rightarrow> (Inl err, the v, k, w)
     | (Inr end', k, w) \<Rightarrow>
        let nstat = bench_stats_update A nstat (timespec_delta_usec start end')
        in (case check_value (the v) triplet w of
              (Inl err, value, w) \<Rightarrow> (Inl err, value, k, w)
            | (Inr _, _, w) \<Rightarrow> compiler_runs clk A env compiler triplet n nstat k w))))"

section \<open>A child\<close>

text \<open>
  \<open>bench_inode_cache\<close> runs in every child. Its control points: the measured loops, each one
  action; the points of \<open>barrier_wait\<close>; the call on the lock, the load and the store of the
  totals, the release of the lock; the label, with the value of \<open>err\<close>; and the exit status.
  \<open>c_bar\<close> is where the child is in \<open>barrier_wait\<close>, before, in or after the call.
\<close>

datatype 'd cpc = Begin | Read_Cache | Barrier | Run_Compiler | Lock | Merge
  | Store_Totals "'d bench_stats" "'d bench_stats" | Unlock | Finish int | Ended int

record 'd child_state =
  c_pc :: "'d cpc"
  c_bar :: pc
  c_ic :: inode_cache
  c_value :: ptr
  c_bstat :: "'d bench_stats"
  c_nstat :: "'d bench_stats"
  c_tick :: nat
  c_world :: world

record 'd bench_conf =
  cf_arith :: "'d arith"
  cf_clock :: "nat \<Rightarrow> timespec"
  cf_env :: child_env
  cf_compiler :: cstring
  cf_triplet :: cstring
  cf_repetitions :: nat

text \<open>
  One action of a child; \<open>None\<close> when it is blocked or has ended. The first argument is the
  failure scheduled for a semaphore call.
\<close>

fun child_step ::
  "'d bench_conf \<Rightarrow> errno option \<Rightarrow> 'd bench_result \<Rightarrow> 'd child_state \<Rightarrow> ('d bench_result \<times> 'd child_state) option" where
  "child_step cf f r c =
    (case c_pc c of
       Begin \<Rightarrow>
         (case inode_cache_open (c_ic c) (c_world c) of (err, ic, w) \<Rightarrow>
            Some (r, c\<lparr>c_pc := (if err \<noteq> 0 then Finish err else Read_Cache), c_ic := ic, c_world := w\<rparr>))
     | Read_Cache \<Rightarrow>
         (case cache_reads (cf_clock cf) (cf_arith cf) (c_ic c) (cf_compiler cf) (cf_triplet cf) (cf_repetitions cf)
                 (bench_stats_reset (cf_arith cf)) (c_tick c) (c_world c) of
            (Inl err, value, k, w) \<Rightarrow>
              Some (r, c\<lparr>c_pc := Finish err, c_value := value, c_tick := k, c_world := w\<rparr>)
          | (Inr st, value, k, w) \<Rightarrow>
              Some (r, c\<lparr>c_pc := Barrier, c_value := value, c_bstat := bench_stats_finalize (cf_arith cf) st,
                         c_tick := k, c_world := w\<rparr>))
     | Barrier \<Rightarrow>
         (case wait_step f (br_barrier r) (c_bar c) of
            None \<Rightarrow> None
          | Some (b, p) \<Rightarrow>
              Some (r\<lparr>br_barrier := b\<rparr>, c\<lparr>c_bar := p, c_pc :=
                (case p of Done err \<Rightarrow> if err \<noteq> 0 then Finish err else Run_Compiler
                         | Refused err \<Rightarrow> if err \<noteq> 0 then Finish err else Run_Compiler
                         | _ \<Rightarrow> Barrier)\<rparr>))
     | Run_Compiler \<Rightarrow>
         (case compiler_runs (cf_clock cf) (cf_arith cf) (cf_env cf) (cf_compiler cf) (cf_triplet cf) (cf_repetitions cf)
                 (bench_stats_reset (cf_arith cf)) (c_tick c) (c_world c) of
            (Inl err, value, k, w) \<Rightarrow>
              Some (r, c\<lparr>c_pc := Finish err, c_value := value, c_tick := k, c_world := w\<rparr>)
          | (Inr st, value, k, w) \<Rightarrow>
              Some (r, c\<lparr>c_pc := Lock, c_value := value, c_nstat := bench_stats_finalize (cf_arith cf) st,
                         c_tick := k, c_world := w\<rparr>))
     | Lock \<Rightarrow>
         (case sem_wait f (br_lock r) of
            Blocked \<Rightarrow> None
          | Failed e \<Rightarrow> Some (r, c\<lparr>c_pc := Finish (errno_val e)\<rparr>)
          | Proceed s \<Rightarrow> Some (r\<lparr>br_lock := s\<rparr>, c\<lparr>c_pc := Merge\<rparr>))
     | Merge \<Rightarrow>
         Some (r, c\<lparr>c_pc := Store_Totals (bench_stats_merge (cf_arith cf) (br_stats r) (c_bstat c))
                                        (bench_stats_merge (cf_arith cf) (br_nocache_stats r) (c_nstat c))\<rparr>)
     | Store_Totals s1 s2 \<Rightarrow> Some (r\<lparr>br_stats := s1, br_nocache_stats := s2\<rparr>, c\<lparr>c_pc := Unlock\<rparr>)
     | Unlock \<Rightarrow>
         (case sem_post f (br_lock r) of
            Blocked \<Rightarrow> None
          | Failed e \<Rightarrow> Some (r, c\<lparr>c_pc := Finish (errno_val e)\<rparr>)
          | Proceed s \<Rightarrow> Some (r\<lparr>br_lock := s\<rparr>, c\<lparr>c_pc := Finish 0\<rparr>))
     | Finish err \<Rightarrow>
         (case inode_cache_close (c_ic c) (c_free (c_value c) (c_world c)) of (ic, w) \<Rightarrow>
            Some (r, c\<lparr>c_pc := Ended err, c_ic := ic, c_world := w\<rparr>))
     | Ended _ \<Rightarrow> None)"

declare child_step.simps [simp del]

section \<open>The children together\<close>

text \<open>
  The children \<open>K\<close>, those whose \<open>fork\<close> succeeded, interleave their actions on the shared
  record; \<open>faulty\<close> says whether semaphore calls may fail.
\<close>

type_synonym 'd csys = "'d bench_result \<times> (nat \<Rightarrow> 'd child_state)"

inductive cstep :: "'d bench_conf \<Rightarrow> nat set \<Rightarrow> bool \<Rightarrow> 'd csys \<Rightarrow> 'd csys \<Rightarrow> bool"
  for cf :: "'d bench_conf" and K :: "nat set" and faulty :: bool where
  act: "i \<in> K \<Longrightarrow> f = None \<or> faulty \<Longrightarrow> child_step cf f r (ch i) = Some (r', c) \<Longrightarrow>
    cstep cf K faulty (r, ch) (r', ch(i := c))"

inductive_cases cstepE: "cstep cf K faulty (r, ch) s'"

text \<open>A child as it is after \<open>fork\<close>, with its own copy of the world.\<close>

definition child_start :: "'d bench_conf \<Rightarrow> int \<Rightarrow> nat \<Rightarrow> world \<Rightarrow> 'd child_state" where
  "child_start cf cachedirfd k w =
    \<lparr>c_pc = Begin, c_bar = Enter, c_ic = \<lparr>ic_dir = Some ''none'', ic_dirfd = cachedirfd\<rparr>, c_value = NULL,
     c_bstat = bench_stats_reset (cf_arith cf), c_nstat = bench_stats_reset (cf_arith cf), c_tick = k, c_world = w\<rparr>"

definition child_exit :: "int \<Rightarrow> wstatus" where
  "child_exit err = exit_status (if err < 0 then - err else err)"

section \<open>The parent\<close>

definition c_calloc :: "nat \<Rightarrow> world \<Rightarrow> ptr \<times> world" where
  "c_calloc n w =
    (case next_fault w of
       (Fail e, w) \<Rightarrow> (NULL, w\<lparr>errno := errno_val ENOMEM\<rparr>)
     | (_, w) \<Rightarrow> alloc (replicate n NUL) w)"

text \<open>The loop that starts the children: for each, whether \<open>fork\<close> succeeded.\<close>

fun fork_children :: "nat \<Rightarrow> world \<Rightarrow> bool list \<times> world" where
  "fork_children 0 w = ([], w)"
| "fork_children (Suc n) w =
    (case next_fault w of
       (Fail e, w) \<Rightarrow> (case fork_children n (snd (fail_with e w)) of (ks, w) \<Rightarrow> (False # ks, w))
     | (_, w) \<Rightarrow> (case fork_children n w of (ks, w) \<Rightarrow> (True # ks, w)))"

text \<open>The loop that waits for them, over the results of \<open>fork\<close> and the statuses; it counts in \<open>ret\<close>.\<close>

fun wait_children :: "int \<Rightarrow> bool list \<Rightarrow> wstatus list \<Rightarrow> world \<Rightarrow> int \<times> world" where
  "wait_children ret (False # ks) (st # sts) w = wait_children (ret + 1) ks sts w"
| "wait_children ret (True # ks) (st # sts) w =
    (case sys_waitpid ([], st) w of (r, wstatus, w) \<Rightarrow>
       if r < 0 then wait_children (ret + 1) ks sts w
       else case wstatus of
              Exited err \<Rightarrow> wait_children (if err \<noteq> 0 then ret + 1 else ret) ks sts w
            | _ \<Rightarrow> wait_children (ret + 1) ks sts w)"
| "wait_children ret _ _ w = (ret, w)"

definition run_bench_out ::
  "errno option \<Rightarrow> int \<Rightarrow> ptr \<Rightarrow> inode_cache \<Rightarrow> result_ptr \<Rightarrow> 'd mapping \<Rightarrow> world \<Rightarrow> int \<times> 'd mapping \<times> world" where
  "run_bench_out funmap ret children ic result mem w =
    (let (_, mem) = bench_result_unmap funmap (Some result) mem;
         w = c_free children w;
         (_, w) = inode_cache_close ic w
     in (ret, mem, w))"

text \<open>
  \<open>kids\<close> is what the children do: from the record and the children that were started, the
  record when all have ended and their statuses. Besides the result there is the record whose
  totals are printed, \<open>None\<close> when the parent gives up before.
\<close>

type_synonym 'd kids = "'d bench_result \<Rightarrow> bool list \<Rightarrow> 'd bench_result \<times> wstatus list"

definition run_bench ::
  "'d bench_conf \<Rightarrow> map_faults \<Rightarrow> 'd kids \<Rightarrow> int \<Rightarrow> nat \<Rightarrow> world \<Rightarrow> int \<times> 'd bench_result option \<times> 'd mapping \<times> world" where
  "run_bench cf fl kids cachedirfd nproc w =
    (let ic = \<lparr>ic_dir = None, ic_dirfd = cachedirfd\<rparr>;
         (children, w) = c_calloc (4 * nproc) w
     in if children = NULL
        then (case run_bench_out (f_munmap fl) (errno_val ENOMEM) children ic Null None w of (ret, mem, w) \<Rightarrow> (ret, None, mem, w))
        else
          let (err, result, mem) = bench_result_map (cf_arith cf) fl (Some Null) (int nproc) None
          in if err \<noteq> 0
             then (case run_bench_out (f_munmap fl) 0 children ic (the result) mem w of (ret, mem, w) \<Rightarrow> (ret, None, mem, w))
             else
               let (err, ic, w) = inode_cache_open ic w
               in if err \<noteq> 0
                  then (case run_bench_out (f_munmap fl) 0 children ic (the result) mem w of (ret, mem, w) \<Rightarrow> (ret, None, mem, w))
                  else
                    let (err, w) = inode_cache_put (Some ic) (Some (cf_compiler cf)) GCC_TRIPLET (Some (cf_triplet cf)) w
                    in if err \<noteq> 0
                       then (case run_bench_out (f_munmap fl) 0 children ic (the result) mem w of (ret, mem, w) \<Rightarrow> (ret, None, mem, w))
                       else
                         let (ks, w) = fork_children nproc w;
                             (obj, sts) = kids (the mem) ks;
                             (ret, w) = wait_children 0 ks sts w
                         in (case run_bench_out (f_munmap fl) ret children ic (the result) (Some obj) w of
                               (ret, mem, w) \<Rightarrow> (ret, Some obj, mem, w)))"

section \<open>main\<close>

definition EXIT_SUCCESS :: int where "EXIT_SUCCESS = 0"
definition DEFAULT_NPROC :: int where "DEFAULT_NPROC = 10"
definition DEFAULT_REPETITIONS :: int where "DEFAULT_REPETITIONS = 500"

text \<open>\<open>atoi\<close> on strings whose value fits in an \<open>int\<close>.\<close>

definition digit :: "char \<Rightarrow> bool" where
  "digit c \<longleftrightarrow> 48 \<le> (of_char c :: nat) \<and> (of_char c :: nat) \<le> 57"

definition atoi :: "cstring \<Rightarrow> int" where
  "atoi s =
    (let s = dropWhile isspace s;
         neg = (s \<noteq> [] \<and> hd s = CHR ''-'');
         s = (if s \<noteq> [] \<and> (hd s = CHR ''-'' \<or> hd s = CHR ''+'') then tl s else s);
         n = foldl (\<lambda>n c. 10 * n + (of_char c - 48)) 0 (takeWhile digit s)
     in if neg then - n else n)"

text \<open>
  \<open>getopt\<close> with the options \<open>hj:n:c:\<close>: the options with their arguments, in order, and the
  other arguments. An unknown option, or one without its argument, is a question mark.
\<close>

fun getopt_cluster :: "cstring \<Rightarrow> cstring list \<Rightarrow> (char \<times> cstring) list \<times> cstring list" where
  "getopt_cluster [] args = ([], args)"
| "getopt_cluster (c # cs) args =
    (if c = CHR ''h'' then (case getopt_cluster cs args of (os, args) \<Rightarrow> ((c, []) # os, args))
     else if c \<in> set ''jnc'' then
       (if cs \<noteq> [] then ([(c, cs)], args)
        else case args of a # args \<Rightarrow> ([(c, a)], args) | [] \<Rightarrow> ([(CHR ''?'', [])], []))
     else (case getopt_cluster cs args of (os, args) \<Rightarrow> ((CHR ''?'', []) # os, args)))"

lemma getopt_cluster_length: "length (snd (getopt_cluster cs args)) \<le> length args"
  by (induction cs) (auto split: prod.split list.split)

function getopt :: "cstring list \<Rightarrow> (char \<times> cstring) list \<times> cstring list" where
  "getopt [] = ([], [])"
| "getopt (a # args) =
    (if a = ''--'' then ([], args)
     else if 2 \<le> length a \<and> hd a = CHR ''-'' then
       (case getopt_cluster (tl a) args of (os, args') \<Rightarrow>
          (case getopt args' of (os', rest) \<Rightarrow> (os @ os', rest)))
     else (case getopt args of (os, rest) \<Rightarrow> (os, a # rest)))"
  by pat_completeness auto
termination
  by (relation "measure length") (simp_all add: less_Suc_eq_le, metis getopt_cluster_length snd_conv)

record bench_args =
  ba_repetitions :: int
  ba_nproc :: int
  ba_cachedir :: ptr

text \<open>The loop over the options: \<open>Inl status\<close> when it exits.\<close>

fun bench_options :: "(char \<times> cstring) list \<Rightarrow> bench_args \<Rightarrow> world \<Rightarrow> (int + bench_args) \<times> world" where
  "bench_options [] ba w = (Inr ba, w)"
| "bench_options ((c, optarg) # opts) ba w =
    (if c = CHR ''n'' then bench_options opts (ba\<lparr>ba_repetitions := atoi optarg\<rparr>) w
     else if c = CHR ''j'' then bench_options opts (ba\<lparr>ba_nproc := atoi optarg\<rparr>) w
     else if c = CHR ''c'' then
       (case c_strdup (optarg @ [NUL]) w of (p, w) \<Rightarrow>
          if p = NULL then (Inl EXIT_FAILURE, w) else bench_options opts (ba\<lparr>ba_cachedir := p\<rparr>) w)
     else if c = CHR ''h'' then (Inl EXIT_SUCCESS, w)
     else (Inl EXIT_FAILURE, w))"

definition bench_repetitions :: "int \<Rightarrow> nat" where
  "bench_repetitions n = nat (if 0 < n then n else DEFAULT_REPETITIONS)"

text \<open>\<open>ncpu\<close> is what \<open>sysconf\<close> returns.\<close>

definition bench_nproc :: "int \<Rightarrow> int \<Rightarrow> int" where
  "bench_nproc ncpu n = (let n = (if n = 0 then ncpu else n) in if n \<le> 0 then DEFAULT_NPROC else n)"

definition main_out :: "int \<Rightarrow> int \<Rightarrow> ptr \<Rightarrow> ptr \<Rightarrow> world \<Rightarrow> int \<times> world" where
  "main_out err cachedirfd cachedir triplet w =
    (let w = (if 0 \<le> cachedirfd then snd (sys_close cachedirfd w) else w);
         w = c_free cachedir w;
         w = c_free triplet w
     in (if err < 0 then - err else err, w))"

text \<open>\<open>main\<close> once it has a cache directory to open.\<close>

definition bench_measure ::
  "'d arith \<Rightarrow> (nat \<Rightarrow> timespec) \<Rightarrow> child_env \<Rightarrow> map_faults \<Rightarrow> 'd kids \<Rightarrow> cstring \<Rightarrow> nat \<Rightarrow> nat \<Rightarrow> int \<Rightarrow> ptr \<Rightarrow> world
    \<Rightarrow> int \<times> world" where
  "bench_measure A clk env fl kids compiler repetitions nproc cachedirfd cachedir w =
    (case get_gcc_triplet env compiler (Some NULL) w of (err, triplet, w) \<Rightarrow>
       if err \<noteq> 0 then main_out err cachedirfd cachedir (the triplet) w
       else
         let w = c_free cachedir w
         in case heap_str w (the triplet) of
              None \<Rightarrow> (EXIT_FAILURE, log_ub (Dangling_pointer (the triplet)) w)
            | Some s \<Rightarrow>
                let cf = \<lparr>cf_arith = A, cf_clock = clk, cf_env = env, cf_compiler = compiler, cf_triplet = s,
                          cf_repetitions = repetitions\<rparr>;
                    (ret, _, _, w) = run_bench cf fl kids cachedirfd nproc w
                in main_out (if ret \<noteq> 0 then EXIT_FAILURE else 0) cachedirfd NULL (the triplet) w)"

definition bench_main ::
  "'d arith \<Rightarrow> (nat \<Rightarrow> timespec) \<Rightarrow> child_env \<Rightarrow> map_faults \<Rightarrow> 'd kids \<Rightarrow> int \<Rightarrow> cstring option \<Rightarrow> cstring list \<Rightarrow> world
    \<Rightarrow> int \<times> world" where
  "bench_main A clk env fl kids ncpu home args w =
    (case getopt args of (opts, rest) \<Rightarrow>
     (case bench_options opts \<lparr>ba_repetitions = 0, ba_nproc = 0, ba_cachedir = NULL\<rparr> w of
        (Inl status, w) \<Rightarrow> (status, w)
      | (Inr ba, w) \<Rightarrow>
     (case rest of
        [] \<Rightarrow> (EXIT_FAILURE, w)
      | compiler # _ \<Rightarrow>
         let (cachedir, w) =
               (if ba_cachedir ba \<noteq> NULL then (ba_cachedir ba, w)
                else case home of None \<Rightarrow> (NULL, w)
                     | Some home \<Rightarrow> (case c_asprintf (home @ ''/.cache'') w of (_, p, w) \<Rightarrow> (p, w)))
         in if cachedir = NULL then (EXIT_FAILURE, w)
            else
              (case mkdir_p (the (heap w cachedir)) w of (cachedirfd, buf, w) \<Rightarrow>
                 let w = w\<lparr>heap := (heap w)(cachedir \<mapsto> buf)\<rparr>
                 in if cachedirfd < 0 then main_out (- cachedirfd) cachedirfd cachedir NULL w
                    else bench_measure A clk env fl kids compiler (bench_repetitions (ba_repetitions ba))
                           (nat (bench_nproc ncpu (ba_nproc ba))) cachedirfd cachedir w))))"

end
