(* ===== verification/Bench_Runs.thy ===== *)
theory Bench_Runs
  imports Bench_Inode_Cache Compiler_Runs Inode_Cache_Contract
begin

text \<open>
  What holds of the benchmark: the precision of the elapsed times, the life of the shared
  record, the accounting of the parent, and the release of the triplet in \<open>main\<close>.
\<close>

section \<open>Elapsed time\<close>

lemma sint_i64: "- (2 ^ 63) \<le> x \<Longrightarrow> x < 2 ^ 63 \<Longrightarrow> sint (of_int x :: i64) = x"
  by (simp add: signed_of_int signed_take_bit_int_eq_self)

text \<open>The time between two readings in nanoseconds.\<close>

definition nsec_between :: "timespec \<Rightarrow> timespec \<Rightarrow> int" where
  "nsec_between s e = (sint (tv_sec e) - sint (tv_sec s)) * 10 ^ 9 + (sint (tv_nsec e) - sint (tv_nsec s))"

lemma sint_diff:
  assumes "- (2 ^ 63) \<le> sint a - sint b" "sint a - sint b < 2 ^ 63"
  shows "sint (a - b :: i64) = sint a - sint b"
proof -
  have "(a - b :: i64) = of_int (sint a - sint b)" by simp
  then show ?thesis using sint_i64 [OF assms] by metis
qed

text \<open>C34. The elapsed time is exact to less than a microsecond and is never negative when the
  clock does not run backwards: the division of a negative difference of the nanoseconds
  truncates towards zero, and so does not undo the carry from the seconds.\<close>

theorem timespec_delta_bounds:
  assumes "0 \<le> sint (tv_nsec s)" "sint (tv_nsec s) < 10 ^ 9" "0 \<le> sint (tv_nsec e)" "sint (tv_nsec e) < 10 ^ 9"
    and "\<bar>sint (tv_sec e) - sint (tv_sec s)\<bar> \<le> 9223372036853"
  shows "\<bar>1000 * sint (timespec_delta_usec s e) - nsec_between s e\<bar> < 1000 \<and>
    (0 \<le> nsec_between s e \<longrightarrow> 0 \<le> sint (timespec_delta_usec s e))"
proof -
  define d where "d = sint (tv_sec e) - sint (tv_sec s)"
  define n where "n = sint (tv_nsec e) - sint (tv_nsec s)"
  have d: "\<bar>d\<bar> \<le> 9223372036853" and n: "- (10 ^ 9) < n" "n < 10 ^ 9" using assms by (auto simp: d_def n_def)
  have sn: "sint (tv_nsec e - tv_nsec s) = n" unfolding n_def by (intro sint_diff) (use n in \<open>simp_all add: n_def\<close>)
  have q: "- 1000 < 1000 * (n sdiv 1000) - n" "1000 * (n sdiv 1000) - n < 1000" "\<bar>n sdiv 1000\<bar> \<le> 10 ^ 6"
    using n by (auto simp: signed_divide_int_def sgn_if abs_if split: if_splits; linarith)+
  have "timespec_delta_usec s e = of_int (d * 1000000 + n sdiv 1000)"
    by (simp add: timespec_delta_usec_def Let_def sn d_def)
  moreover have "sint (of_int (d * 1000000 + n sdiv 1000) :: i64) = d * 1000000 + n sdiv 1000"
    using d q(3) by (intro sint_i64) (auto simp: abs_le_iff)
  ultimately have "sint (timespec_delta_usec s e) = d * 1000000 + n sdiv 1000" by (simp only:)
  then have "1000 * sint (timespec_delta_usec s e) - nsec_between s e = 1000 * (n sdiv 1000) - n"
    unfolding nsec_between_def d_def [symmetric] n_def [symmetric] by simp
  then show ?thesis using q(1,2) by linarith
qed

theorem timespec_delta_bounds_witness:
  "\<bar>1000 * sint (timespec_delta_usec \<lparr>tv_sec = 1, tv_nsec = 999999999\<rparr> \<lparr>tv_sec = 2, tv_nsec = 500\<rparr>) - 501\<bar> < 1000"
  using timespec_delta_bounds [of "\<lparr>tv_sec = 1, tv_nsec = 999999999\<rparr>" "\<lparr>tv_sec = 2, tv_nsec = 500\<rparr>"]
  by (simp add: nsec_between_def)

section \<open>The cache as the benchmark uses it\<close>

lemma quiet_clock: "faults w = [] \<Longrightarrow> clock_gettime clk k w = (Inr (clk k), Suc k, w)"
  by (simp add: clock_gettime_def quiet_fault)

lemma cache_ok_free:
  assumes "cache_ok d c ic w"
  shows "cache_ok d c ic (w\<lparr>heap := (heap w)(q := None)\<rparr>)"
    "cached d (w\<lparr>heap := (heap w)(q := None)\<rparr>) = cached d w"
    "key_names d (w\<lparr>heap := (heap w)(q := None)\<rparr>) k n = key_names d w k n"
proof -
  let ?w = "w\<lparr>heap := (heap w)(q := None)\<rparr>"
  have v: "dirview ?w d = dirview w d" "flat_dir ?w d = flat_dir w d" 
    by (rule dirview_same, simp) (rule flat_dir_same, simp_all)
  show "cached d ?w = cached d w" by (rule ext) (simp only: cached_def v)
  show "cache_ok d c ic ?w" using assms v by (simp add: cache_ok_def ready_def room_def proc_ok_def heap_ok_def)
  have l: "lookup_path ?w AT_FDCWD p = lookup_path w AT_FDCWD p" for p
    by (simp add: lookup_path_def start_dir_def AT_FDCWD_def)
  moreover have "entinos ?w d = entinos w d" by (simp add: entinos_def dir_entries_def)
  moreover have "stat_path ?w p = stat_path w p" for p by (simp add: stat_path_def l split: sum.split)
  ultimately show "key_names d ?w k n = key_names d w k n" by (simp add: key_names_def outside_def)
qed

text \<open>A hit, with what it does to the heap.\<close>

lemma quiet_cached_get:
  assumes ok: "cache_ok d c ic w" and k: "key_names d w k n" and hit: "cached d w n = Some v"
  shows "\<exists>q w'. inode_cache_get ic (fst k) (snd k) (Some NULL) w = (0, Some q, w') \<and> q \<noteq> NULL \<and>
    heap w q = None \<and> heap w' = (heap w)(q \<mapsto> v @ [NUL]) \<and> NUL \<notin> set v \<and> fds w' = fds w \<and>
    cache_ok d c ic w' \<and> cached d w' = cached d w \<and> key_names d w' k n"
proof -
  from ok have r: "ready d c w" "room 2 w" "ic_dirfd ic = int c" "entries_ok (dirview w d)" by (simp_all add: cache_ok_def)
  from k obtain st where st: "stat_path w (fst k) = Inr st" "n = entry_name st (snd k)" by (auto simp: key_names_def)
  have n: "length n = 32" using st(2) by simp
  from hit n obtain i b where ib: "dirview w d n = Some (i, b)" "v = cstr b" by (auto simp: cached_def)
  with r(4) n obtain u lb where u: "b = u @ [NUL]" "NUL \<notin> set u" "length u \<le> 509" "dirview w d (lock_name n) = Some lb"
    by (fastforce simp: entries_ok_def entry_ok_def)
  from quiet_get_found [OF r(1) st(1) r(2,3) u(4) [unfolded st(2)] ib(1) [unfolded st(2)], of NULL] u obtain q w' where
    g: "inode_cache_get ic (fst k) (snd k) (Some NULL) w = (0, Some q, w')"
    and ch: "changed d w w' (dirview w d)" and f: "ready d c w'" "fds w' = fds w"
    and q: "q \<noteq> NULL" "heap w q = None" "heap w' = (heap w)(q \<mapsto> u @ [NUL])" by auto
  have "flat_dir w d" using r(1) by (simp add: ready_def)
  from key_names_evolves [OF ch this] k have "key_names d w' k n" .
  moreover have "cached d w' = cached d w" using ch by (simp add: changed_def cached_def fun_eq_iff)
  moreover have "v = u" using ib(2) u(1,2) by simp
  ultimately show ?thesis using g q f u(2) cache_ok_next [OF ok ch f(1,2) r(4)] by blast
qed

text \<open>The samples that \<open>n\<close> measurements from the \<open>k\<close>-th reading of the clock on give.\<close>

definition readings :: "(nat \<Rightarrow> timespec) \<Rightarrow> nat \<Rightarrow> nat \<Rightarrow> i64 list" where
  "readings clk k n = map (\<lambda>i. timespec_delta_usec (clk (k + 2 * i)) (clk (k + 2 * i + 1))) [0..<n]"

lemma readings_Suc:
  "readings clk k (Suc n) = timespec_delta_usec (clk k) (clk (Suc k)) # readings clk (Suc (Suc k)) n"
  by (simp add: readings_def upt_conv_Cons map_Suc_upt [symmetric] comp_def del: upt_Suc)

lemma quiet_cache_reads:
  assumes "cache_ok d c ic w" "key_names d w (compiler, GCC_TRIPLET) nm" "cached d w nm = Some triplet"
  shows "\<exists>w'. cache_reads clk A ic compiler triplet n st k w =
      (Inr (foldl (bench_stats_update A) st (readings clk k n)), NULL, k + 2 * n, w') \<and>
    heap w' = heap w \<and> fds w' = fds w \<and> cache_ok d c ic w' \<and> cached d w' = cached d w"
  using assms
proof (induction n arbitrary: st k w)
  case 0
  then show ?case by (simp add: readings_def)
next
  case (Suc n)
  from quiet_cached_get [OF Suc.prems, unfolded fst_conv snd_conv] obtain q w1 where
    g: "inode_cache_get ic compiler GCC_TRIPLET (Some NULL) w = (0, Some q, w1)" and q: "q \<noteq> NULL" "heap w q = None"
      "heap w1 = (heap w)(q \<mapsto> triplet @ [NUL])" "NUL \<notin> set triplet"
    and s1: "fds w1 = fds w" "cache_ok d c ic w1" "cached d w1 = cached d w"
      "key_names d w1 (compiler, GCC_TRIPLET) nm" by blast
  let ?w2 = "w1\<lparr>heap := (heap w1)(q := None)\<rparr>"
  have qt: "faults w = []" "faults w1 = []" using Suc.prems(1) s1(2) by (simp_all add: cache_ok_def ready_def)
  have chk: "check_value q triplet w1 = (Inr (), NULL, ?w2)"
    using q by (simp add: check_value_def strcmp_eq_def heap_str_def c_free_def)
  note w2 = cache_ok_free [OF s1(2), of q]
  have "heap ?w2 = heap w" using q by (auto simp: fun_eq_iff)
  moreover have p: "key_names d ?w2 (compiler, GCC_TRIPLET) nm" "cached d ?w2 nm = Some triplet"
    using s1(3,4) Suc.prems(3) by (simp_all add: w2)
  from Suc.IH [OF w2(1) p] obtain w' where "cache_reads clk A ic compiler triplet n
      (bench_stats_update A st (timespec_delta_usec (clk k) (clk (Suc k)))) (Suc (Suc k)) ?w2 =
      (Inr (foldl (bench_stats_update A) (bench_stats_update A st (timespec_delta_usec (clk k) (clk (Suc k))))
         (readings clk (Suc (Suc k)) n)), NULL, Suc (Suc k) + 2 * n, w')"
    "heap w' = heap ?w2" "fds w' = fds ?w2" "cache_ok d c ic w'" "cached d w' = cached d ?w2"
    by blast
  moreover have "cache_reads clk A ic compiler triplet (Suc n) st k w = cache_reads clk A ic compiler triplet n
      (bench_stats_update A st (timespec_delta_usec (clk k) (clk (Suc k)))) (Suc (Suc k)) ?w2"
    by (simp add: quiet_clock [OF qt(1)] quiet_clock [OF qt(2)] g chk)
  ultimately show ?case using s1(1,3) w2(2) by (intro exI [of _ w']) (simp add: readings_Suc)
qed

section \<open>The shared record\<close>

text \<open>C33. \<open>bench_result_map\<close> either returns 0 with the record mapped, its totals reset, its lock
  free and its barrier ready for \<open>nproc\<close> processes, or returns an error, leaves the pointer as
  it was and, unless \<open>munmap\<close> fails too, nothing mapped; \<open>bench_result_unmap\<close> undoes it and
  may be called again.\<close>

theorem bench_result_life:
  assumes "bench_result_map A fl (Some Null) n None = (err, ptr, mem)"
  shows "(err = 0 \<longrightarrow> ptr = Some Mapped \<and> mem = Some \<lparr>br_lock = Some \<lparr>sem_shared = True, sem_val = 1\<rparr>,
        br_stats = bench_stats_reset A, br_nocache_stats = bench_stats_reset A,
        br_barrier = snd (barrier_init None None n 1), br_lock_initialized = True\<rparr>) \<and>
    (err \<noteq> 0 \<longrightarrow> ptr = Some Null \<and> (f_munmap fl = None \<longrightarrow> mem = None)) \<and>
    (err = 0 \<longleftrightarrow> f_mmap fl = None \<and> f_mutex fl = None \<and> f_barrier fl = None \<and> f_lock fl = None) \<and>
    (case bench_result_unmap f (Some Mapped) mem of (ptr', mem') \<Rightarrow>
       ptr' = Some Null \<and> bench_result_unmap f' ptr' mem' = (ptr', mem') \<and> (f = None \<longrightarrow> mem' = None))"
  using assms
  by (auto simp: bench_result_map_def bench_result_unmap_def barrier_init_def sem_init_def barrier_close_def Let_def
      split: option.splits)

theorem bench_result_life_witness:
  "bench_result_map exact no_map_faults (Some Null) 4 None = (0, Some Mapped, Some \<lparr>br_lock = Some \<lparr>sem_shared = True, sem_val = 1\<rparr>,
     br_stats = bench_stats_reset exact, br_nocache_stats = bench_stats_reset exact,
     br_barrier = snd (barrier_init None None 4 1), br_lock_initialized = True\<rparr>)"
proof -
  obtain err ptr mem where m: "bench_result_map exact no_map_faults (Some Null) 4 None = (err, ptr, mem)" by (metis prod_cases3)
  from bench_result_life [OF m, of None None] show ?thesis unfolding m by (simp add: no_map_faults_def)
qed

section \<open>The parent\<close>

lemma quiet_fork_children: "faults w = [] \<Longrightarrow> fork_children n w = (replicate n True, w)"
  by (induction n arbitrary: w) (simp_all add: quiet_fault)

text \<open>The children that count as failures.\<close>

definition failed_children :: "bool list \<Rightarrow> wstatus list \<Rightarrow> nat" where
  "failed_children ks sts = length (filter (\<lambda>(k, st). \<not> k \<or> st \<noteq> Exited 0) (zip ks sts))"

lemma quiet_wait_children:
  "faults w = [] \<Longrightarrow> wait_children ret ks sts w = (ret + int (failed_children ks sts), w)"
  by (induction ret ks sts w rule: wait_children.induct)
    (auto simp: sys_waitpid_def quiet_fault failed_children_def split: wstatus.splits)

lemma close_cached:
  assumes "cache_ok d c ic w"
  shows "\<exists>w'. inode_cache_close ic w = (ic\<lparr>ic_dirfd := -1\<rparr>, w') \<and> fds w' = (fds w)(c := None) \<and>
    heap w' = heap w \<and> ub_log w' = ub_log w \<and> cached d w' = cached d w \<and> inodes w' = inodes w"
proof -
  have q: "faults w = []" "fds w c = Some (OPath d)" "ic_dirfd ic = int c"
    using assms by (simp_all add: cache_ok_def ready_def)
  let ?w = "w\<lparr>fds := (fds w)(c := None), flocks := (flocks w)(c := None)\<rparr>"
  have "inode_cache_close ic w = (ic\<lparr>ic_dirfd := -1\<rparr>, ?w)"
    using q quiet_close [OF q(1), of c] by (simp add: inode_cache_close_def)
  moreover have "dirview ?w d = dirview w d" by (rule dirview_same) simp
  then have "cached d ?w = cached d w" by (intro ext) (simp only: cached_def)
  ultimately show ?thesis by auto
qed

lemma cache_ok_alloc:
  fixes b :: cbuffer
  assumes "cache_ok d c ic w"
  defines "w' \<equiv> w\<lparr>heap := (heap w)(next_ptr w \<mapsto> b), next_ptr := Suc (next_ptr w)\<rparr>"
  shows "cache_ok d c ic w'" "cached d w' = cached d w" "key_names d w' k n = key_names d w k n"
proof -
  have v: "dirview w' d = dirview w d" "flat_dir w' d = flat_dir w d"
    unfolding w'_def by (rule dirview_same, simp) (rule flat_dir_same, simp_all)
  show "cached d w' = cached d w" by (rule ext) (simp only: cached_def v)
  show "cache_ok d c ic w'" using assms(1) v
    by (simp add: w'_def cache_ok_def ready_def room_def proc_ok_def heap_ok_def)
  have l: "lookup_path w' AT_FDCWD p = lookup_path w AT_FDCWD p" for p
    by (simp add: w'_def lookup_path_def start_dir_def AT_FDCWD_def)
  moreover have "entinos w' d = entinos w d" by (simp add: w'_def entinos_def dir_entries_def)
  moreover have "stat_path w' p = stat_path w p" for p by (simp add: stat_path_def l) (simp add: w'_def split: sum.split)
  ultimately show "key_names d w' k n = key_names d w k n" by (simp add: key_names_def outside_def w'_def)
qed

text \<open>C31. On a system without faults, with the cache directory open and a triplet that fits,
  \<open>run_bench\<close> stores the triplet under the compiler, returns the number of children that did
  not exit with status 0, prints the totals the children left, and gives everything back: the
  mapping, its memory and also the caller's descriptor of the cache directory, which \<open>main\<close>
  closes once more.\<close>

theorem run_bench_reports:
  assumes "cache_ok d c \<lparr>ic_dir = None, ic_dirfd = int c\<rparr> w" "key_names d w (cf_compiler cf, GCC_TRIPLET) nm"
    and "value_fits (cf_triplet cf)" "f_munmap fl = None"
    and "bench_result_map (cf_arith cf) fl (Some Null) (int n) None = (0, Some Mapped, Some obj)"
    and "kids obj (replicate n True) = (obj', sts)"
  shows "\<exists>w'. run_bench cf fl kids (int c) n w =
      (int (failed_children (replicate n True) sts), Some obj', None, w') \<and>
    cached d w' = (cached d w)(nm \<mapsto> cf_triplet cf) \<and> fds w' = (fds w)(c := None) \<and> heap w' = heap w"
proof -
  let ?ic = "\<lparr>ic_dir = None, ic_dirfd = int c\<rparr>"
  let ?p = "next_ptr w"
  let ?w1 = "w\<lparr>heap := (heap w)(?p \<mapsto> replicate (4 * n) NUL), next_ptr := Suc ?p\<rparr>"
  have q: "faults w = []" "proc_ok w" using assms(1) by (simp_all add: cache_ok_def ready_def)
  then have p: "heap w ?p = None" "?p \<noteq> NULL" by (simp_all add: proc_ok_def heap_ok_def)
  have c1: "c_calloc (4 * n) w = (?p, ?w1)" by (simp add: c_calloc_def quiet_fault [OF q(1)] alloc_def)
  note a = cache_ok_alloc [OF assms(1), of "replicate (4 * n) NUL"]
  from a(3) assms(2) have kn: "key_names d ?w1 (cf_compiler cf, GCC_TRIPLET) nm" by simp
  from cache_put_frame [OF a(1) kn assms(3)] obtain w2 where
    pt: "inode_cache_put (Some ?ic) (Some (cf_compiler cf)) GCC_TRIPLET (Some (cf_triplet cf)) ?w1 = (0, w2)"
    and ok2: "cache_ok d c ?ic w2" and cd: "cached d w2 = (cached d w)(nm \<mapsto> cf_triplet cf)"
    and f: "fds w2 = fds w" "heap w2 = heap ?w1" using a(2) by (auto simp: cache_put_def)
  have q2: "faults w2 = []" using ok2 by (simp add: cache_ok_def ready_def)
  let ?w3 = "w2\<lparr>heap := (heap w2)(?p := None)\<rparr>"
  note ok3 = cache_ok_free [OF ok2, of ?p]
  from close_cached [OF ok3(1)] obtain w4 where w4: "inode_cache_close ?ic ?w3 = (?ic\<lparr>ic_dirfd := -1\<rparr>, w4)"
    "fds w4 = (fds ?w3)(c := None)" "heap w4 = heap ?w3" "cached d w4 = cached d ?w3" by blast
  have fr: "c_free ?p w2 = ?w3" using p f(2) by (simp add: c_free_def)
  have um: "bench_result_unmap None (Some Mapped) (Some obj') = (Some Null, None)" by (simp add: bench_result_unmap_def Let_def)
  have op: "inode_cache_open ?ic ?w1 = (0, ?ic, ?w1)" by (simp add: inode_cache_open_def)
  have "run_bench cf fl kids (int c) n w = (int (failed_children (replicate n True) sts), Some obj', None, w4)"
    using p(2) by (simp add: run_bench_def c1 assms(4-6) op pt quiet_fork_children [OF q2] quiet_wait_children [OF q2]
        run_bench_out_def um fr w4(1))
  moreover have "heap w4 = heap w" using w4(3) f(2) p(1) by (auto simp: fun_eq_iff)
  ultimately show ?thesis using w4(2,4) ok3(2) cd f(1) by simp
qed

lemma demo_key:
  "key_names 1 (cache_world []) (''/f'', GCC_TRIPLET) (entry_name demo_stat GCC_TRIPLET)"
  "cache_ok 1 3 \<lparr>ic_dir = None, ic_dirfd = 3\<rparr> (cache_world [])"
  using cache_world_ok by (simp_all add: key_names_def cache_world_outside [simplified] cache_world_stat cache_ok_def demo_cache_def)

definition demo_conf :: "real option bench_conf" where
  "demo_conf = \<lparr>cf_arith = exact, cf_clock = (\<lambda>k. \<lparr>tv_sec = 0, tv_nsec = of_nat (k * k) * 1000\<rparr>), cf_env = comp_env [] (Exited 0),
     cf_compiler = ''/f'', cf_triplet = ''x86_64'', cf_repetitions = 2\<rparr>"

definition demo_result :: "real option bench_result" where
  "demo_result = the (snd (snd (bench_result_map exact no_map_faults (Some Null) 2 None)))"

theorem run_bench_reports_witness:
  "\<exists>obj w'. run_bench demo_conf no_map_faults (\<lambda>obj ks. (obj, [Exited 0, Exited 3])) 3 2 (cache_world []) = (1, Some obj, None, w') \<and>
     cached 1 w' (entry_name demo_stat GCC_TRIPLET) = Some ''x86_64'' \<and> fds w' 3 = None"
proof -
  have k: "key_names 1 (cache_world []) (cf_compiler demo_conf, GCC_TRIPLET) (entry_name demo_stat GCC_TRIPLET)"
    "value_fits (cf_triplet demo_conf)" using demo_key(1) by (simp_all add: demo_conf_def value_fits_def)
  have m: "bench_result_map (cf_arith demo_conf) no_map_faults (Some Null) (int 2) None = (0, Some Mapped,
      Some (the (snd (snd (bench_result_map (cf_arith demo_conf) no_map_faults (Some Null) (int 2) None)))))"
    by (simp add: bench_result_map_def barrier_init_def sem_init_def no_map_faults_def Let_def)
  have "cache_ok 1 3 \<lparr>ic_dir = None, ic_dirfd = int 3\<rparr> (cache_world [])" using demo_key(2) by simp
  from run_bench_reports [OF this k _ m, of "\<lambda>obj ks. (obj, [Exited 0, Exited 3])", OF _ refl]
  show ?thesis by (auto simp: no_map_faults_def failed_children_def numeral_2_eq_2 demo_conf_def)
qed

text \<open>C35. When the shared record cannot be set up, or the cache refuses the triplet, \<open>run_bench\<close>
  measures nothing, prints nothing and returns 0: to \<open>main\<close> the benchmark has succeeded.\<close>

theorem run_bench_unnoticed:
  assumes "faults w = []" "proc_ok w" "0 \<le> cachedirfd"
    and "fst (bench_result_map (cf_arith cf) fl (Some Null) (int n) None) \<noteq> 0 \<or>
      INO_CACHE_ENTRY_MAX_SIZE \<le> length (cf_triplet cf)"
  shows "\<exists>mem w'. run_bench cf fl kids cachedirfd n w = (0, None, mem, w')"
proof -
  have "next_ptr w \<noteq> NULL" using assms(2) by (simp add: proc_ok_def heap_ok_def)
  moreover have "errno_val E2BIG \<noteq> 0" by simp
  ultimately show ?thesis using assms
    by (auto simp: run_bench_def c_calloc_def quiet_fault alloc_def run_bench_out_def inode_cache_open_def
        inode_cache_put_def put_out_def Let_def split: prod.split)
qed

theorem run_bench_unnoticed_witness:
  "\<exists>mem w'. run_bench demo_conf (no_map_faults\<lparr>f_mmap := Some ENOMEM\<rparr>) (\<lambda>obj ks. (obj, [])) 3 2 (cache_world []) = (0, None, mem, w')"
  using run_bench_unnoticed [of "cache_world []" 3 demo_conf "no_map_faults\<lparr>f_mmap := Some ENOMEM\<rparr>" 2 "\<lambda>obj ks. (obj, [])"] demo_key(2)
  by (simp add: bench_result_map_def cache_ok_def ready_def)

text \<open>C36. When the compiler prints a line and fails, \<open>main\<close> frees the triplet a second time:
  \<open>get_gcc_triplet\<close> has freed it and not reset the pointer.\<close>

theorem bench_double_free:
  assumes "faults w = []" "proc_ok w" "room 2 w" "fds w 0 \<noteq> None" "fds w 1 \<noteq> None" "fds w c \<noteq> None"
    and "child_faults env = []" "NUL \<notin> set compiler" "NUL \<notin> set line" "CHR 0x0A \<notin> set line"
    and "exec_prog env compiler [compiler, ''-dumpmachine''] = Inr (line @ CHR 0x0A # post, st)" "status_err st \<noteq> 0"
    and "cachedir = NULL \<or> heap w cachedir \<noteq> None"
  shows "\<exists>p w'. bench_measure A clk env fl kids compiler reps n (int c) cachedir w = (\<bar>status_err st\<bar>, w') \<and>
    Bad_free p \<in> set (ub_log w')"
proof -
  from quiet_get_gcc_triplet [OF assms(1-5) disjI1 [OF refl] assms(7-11)] assms(12) obtain p w1 where
    g: "get_gcc_triplet env compiler (Some NULL) w = (status_err st, Some p, w1)"
    and p: "p \<noteq> NULL" "heap w1 = heap w" "heap w p = None" "fds w1 = fds w" by (auto simp: freed_def)
  let ?w2 = "snd (sys_close (int c) w1)"
  have "fds w1 c \<noteq> None" using assms(6) p(4) by simp
  from res_eqD(3) [OF sys_close_res [OF this]] have "heap ?w2 = heap w" using p(2) by simp
  then have "heap (c_free cachedir ?w2) p = None" using p(3) by (simp add: c_free_def log_ub_def)
  then have "Bad_free p \<in> set (ub_log (c_free p (c_free cachedir ?w2)))" using p(1) by (simp add: c_free_def log_ub_def)
  moreover have "bench_measure A clk env fl kids compiler reps n (int c) cachedir w =
      (\<bar>status_err st\<bar>, c_free p (c_free cachedir ?w2))"
    using assms(12) by (simp add: bench_measure_def g main_out_def)
  ultimately show ?thesis by blast
qed

theorem bench_double_free_witness:
  "\<exists>p w'. bench_measure exact (cf_clock demo_conf) (comp_env (''what?'' @ [CHR 0x0A]) (Exited 1)) no_map_faults (\<lambda>obj ks. (obj, [])) ''/bin/cc'' 500 4 2 1
     (comp_world []) = (1, w') \<and> Bad_free p \<in> set (ub_log w')"
proof -
  have "fds (comp_world []) 2 \<noteq> None" by (simp add: comp_world_def)
  from bench_double_free [OF comp_world_ok(5) comp_world_ok(1-4) this, of "comp_env (''what?'' @ [CHR 0x0A]) (Exited 1)" "''/bin/cc''"
      "''what?''" "[]" "Exited 1" 1] comp_world_ok(7) [of "[]"]
  show ?thesis by (auto simp: comp_env_ok status_err_def)
qed

section \<open>A child\<close>

text \<open>When the cache holds the triplet, a child on a system without faults reads it
  \<open>repetitions\<close> times, goes on to the barrier with the statistics of exactly the times between
  its pairs of readings of the clock, and leaks nothing.\<close>

lemma child_reads_cache:
  assumes "c_pc c = Read_Cache" "cache_ok d k (c_ic c) (c_world c)"
    and "key_names d (c_world c) (cf_compiler cf, GCC_TRIPLET) nm" "cached d (c_world c) nm = Some (cf_triplet cf)"
  shows "\<exists>w'. child_step cf f r c = Some (r, c\<lparr>c_pc := Barrier, c_value := NULL,
      c_bstat := bench_stats_finalize (cf_arith cf) (stats_of (cf_arith cf) (readings (cf_clock cf) (c_tick c) (cf_repetitions cf))),
      c_tick := c_tick c + 2 * cf_repetitions cf, c_world := w'\<rparr>) \<and>
    heap w' = heap (c_world c) \<and> fds w' = fds (c_world c) \<and>
    cached d w' = cached d (c_world c)"
proof -
  from quiet_cache_reads [OF assms(2-4), of "cf_clock cf" "cf_arith cf" "cf_repetitions cf"
      "bench_stats_reset (cf_arith cf)" "c_tick c"] obtain w' where
    "cache_reads (cf_clock cf) (cf_arith cf) (c_ic c) (cf_compiler cf) (cf_triplet cf) (cf_repetitions cf)
      (bench_stats_reset (cf_arith cf)) (c_tick c) (c_world c) =
      (Inr (stats_of (cf_arith cf) (readings (cf_clock cf) (c_tick c) (cf_repetitions cf))), NULL, c_tick c + 2 * cf_repetitions cf, w')"
    "heap w' = heap (c_world c)" "fds w' = fds (c_world c)" "cached d w' = cached d (c_world c)"
    unfolding stats_of_def by blast
  then show ?thesis using assms(1) by (intro exI [of _ w']) (simp add: child_step.simps)
qed

lemma child_reads_cache_witness:
  "\<exists>w w'. cached 1 w (entry_name demo_stat GCC_TRIPLET) = Some ''x86_64'' \<and>
     child_step demo_conf None demo_result (child_start demo_conf 3 0 w\<lparr>c_pc := Read_Cache\<rparr>) =
       Some (demo_result, child_start demo_conf 3 0 w\<lparr>c_pc := Barrier,
         c_bstat := bench_stats_finalize exact (stats_of exact [1, 5]), c_tick := 4, c_world := w'\<rparr>)"
proof -
  have f: "value_fits ''x86_64''" by (simp add: value_fits_def)
  from cache_put_frame [OF demo_key(2,1) f] obtain w where
    w: "cache_ok 1 3 \<lparr>ic_dir = None, ic_dirfd = 3\<rparr> w" "cached 1 w (entry_name demo_stat GCC_TRIPLET) = Some ''x86_64''"
      "key_names 1 w (''/f'', GCC_TRIPLET) (entry_name demo_stat GCC_TRIPLET)" using demo_key(1) by auto
  let ?c = "child_start demo_conf 3 0 w\<lparr>c_pc := Read_Cache\<rparr>"
  have "cache_ok 1 3 (c_ic ?c) (c_world ?c)" using w(1) by (simp add: child_start_def cache_ok_def)
  from child_reads_cache [OF _ this, of demo_conf "entry_name demo_stat GCC_TRIPLET" None demo_result] w(2,3)
  show ?thesis
    by (auto simp: child_start_def demo_conf_def readings_def timespec_delta_usec_def upt_conv_Cons signed_divide_int_def)
qed

lemma quiet_compiler_runs:
  assumes "faults w = []" "proc_ok w" "room 2 w" "fds w 0 \<noteq> None" "fds w 1 \<noteq> None"
    and "child_faults env = []" "NUL \<notin> set compiler" "NUL \<notin> set triplet" "CHR 0x0A \<notin> set triplet"
    and "exec_prog env compiler [compiler, ''-dumpmachine''] = Inr (triplet @ CHR 0x0A # post, Exited 0)"
  shows "\<exists>w'. compiler_runs clk A env compiler triplet n st k w =
      (Inr (foldl (bench_stats_update A) st (readings clk k n)), NULL, k + 2 * n, w') \<and>
    heap w' = heap w \<and> fds w' = fds w \<and> ub_log w' = ub_log w"
  using assms(1-5)
proof (induction n arbitrary: st k w)
  case 0
  then show ?case by (simp add: readings_def)
next
  case (Suc n)
  from quiet_get_gcc_triplet [OF Suc.prems disjI1 [OF refl] assms(6-10)] obtain p w1 where
    g: "get_gcc_triplet env compiler (Some NULL) w = (0, Some p, w1)"
    and p: "p \<noteq> NULL" "heap w p = None" "heap w1 = (heap w)(p \<mapsto> triplet @ [NUL, NUL])"
    and s1: "fds w1 = fds w" "flocks w1 = flocks w" "ub_log w1 = ub_log w" "faults w1 = []"
      "next_ptr w1 = Suc (Suc (next_ptr w))" "fd_max w1 = fd_max w" by (auto simp: freed_def status_err_def)
  let ?w2 = "w1\<lparr>heap := (heap w1)(p := None)\<rparr>"
  have chk: "check_value p triplet w1 = (Inr (), NULL, ?w2)"
    using p assms(8) by (simp add: check_value_def strcmp_eq_def heap_str_def c_free_def)
  have h: "heap ?w2 = heap w" using p(2,3) by (auto simp: fun_eq_iff)
  have "proc_ok ?w2" "room 2 ?w2" using Suc.prems s1 h p by (auto simp: proc_ok_def heap_ok_def room_def)
  moreover have "faults ?w2 = []" "fds ?w2 0 \<noteq> None" "fds ?w2 1 \<noteq> None" using s1 Suc.prems(4,5) by simp_all
  ultimately obtain w' where
    "compiler_runs clk A env compiler triplet n (bench_stats_update A st (timespec_delta_usec (clk k) (clk (Suc k)))) (Suc (Suc k)) ?w2 =
      (Inr (foldl (bench_stats_update A) (bench_stats_update A st (timespec_delta_usec (clk k) (clk (Suc k))))
         (readings clk (Suc (Suc k)) n)), NULL, Suc (Suc k) + 2 * n, w')"
    "heap w' = heap ?w2" "fds w' = fds ?w2" "ub_log w' = ub_log ?w2"
    using Suc.IH [of ?w2 "bench_stats_update A st (timespec_delta_usec (clk k) (clk (Suc k)))" "Suc (Suc k)"] by blast
  moreover have "compiler_runs clk A env compiler triplet (Suc n) st k w = compiler_runs clk A env compiler triplet n
      (bench_stats_update A st (timespec_delta_usec (clk k) (clk (Suc k)))) (Suc (Suc k)) ?w2"
    by (simp add: quiet_clock [OF Suc.prems(1)] quiet_clock [OF s1(4)] g chk)
  ultimately show ?case using s1 h by (intro exI [of _ w']) (simp add: readings_Suc)
qed

text \<open>C32. When the compiler keeps printing the triplet, a child that got past the barrier on a
  system without faults runs it \<open>repetitions\<close> times and goes on to the lock with the
  statistics of exactly the times between its pairs of readings of the clock; all the pipes,
  streams, buffers and values have been given back.\<close>

theorem child_runs_compiler:
  assumes "c_pc c = Run_Compiler" "faults (c_world c) = []" "proc_ok (c_world c)" "room 2 (c_world c)"
    and "fds (c_world c) 0 \<noteq> None" "fds (c_world c) 1 \<noteq> None" "child_faults (cf_env cf) = []"
    and "NUL \<notin> set (cf_compiler cf)" "NUL \<notin> set (cf_triplet cf)" "CHR 0x0A \<notin> set (cf_triplet cf)"
    and "exec_prog (cf_env cf) (cf_compiler cf) [cf_compiler cf, ''-dumpmachine''] =
      Inr (cf_triplet cf @ CHR 0x0A # post, Exited 0)"
  shows "\<exists>w'. child_step cf f r c = Some (r, c\<lparr>c_pc := Lock, c_value := NULL,
      c_nstat := bench_stats_finalize (cf_arith cf) (stats_of (cf_arith cf) (readings (cf_clock cf) (c_tick c) (cf_repetitions cf))),
      c_tick := c_tick c + 2 * cf_repetitions cf, c_world := w'\<rparr>) \<and>
    heap w' = heap (c_world c) \<and> fds w' = fds (c_world c) \<and> ub_log w' = ub_log (c_world c)"
proof -
  from quiet_compiler_runs [OF assms(2-11), of "cf_clock cf" "cf_arith cf" "cf_repetitions cf"
      "bench_stats_reset (cf_arith cf)" "c_tick c"] obtain w' where
    "compiler_runs (cf_clock cf) (cf_arith cf) (cf_env cf) (cf_compiler cf) (cf_triplet cf) (cf_repetitions cf)
      (bench_stats_reset (cf_arith cf)) (c_tick c) (c_world c) =
      (Inr (stats_of (cf_arith cf) (readings (cf_clock cf) (c_tick c) (cf_repetitions cf))), NULL, c_tick c + 2 * cf_repetitions cf, w')"
    "heap w' = heap (c_world c)" "fds w' = fds (c_world c)" "ub_log w' = ub_log (c_world c)"
    unfolding stats_of_def by blast
  then show ?thesis using assms(1) by (intro exI [of _ w']) (simp add: child_step.simps)
qed

definition demo_conf2 :: "real option bench_conf" where
  "demo_conf2 = demo_conf\<lparr>cf_env := comp_env (''x86_64'' @ [CHR 0x0A]) (Exited 0), cf_compiler := ''/bin/cc''\<rparr>"

theorem child_runs_compiler_witness:
  "\<exists>w'. child_step demo_conf2 None demo_result (child_start demo_conf2 2 0 (comp_world [])\<lparr>c_pc := Run_Compiler\<rparr>) =
     Some (demo_result, child_start demo_conf2 2 0 (comp_world [])\<lparr>c_pc := Lock,
       c_nstat := bench_stats_finalize exact (stats_of exact [1, 5]), c_tick := 4, c_world := w'\<rparr>) \<and>
     ub_log w' = ub_log (comp_world [])"
proof -
  let ?c = "child_start demo_conf2 2 0 (comp_world [])\<lparr>c_pc := Run_Compiler\<rparr>"
  have "faults (c_world ?c) = []" "proc_ok (c_world ?c)" "room 2 (c_world ?c)" "fds (c_world ?c) 0 \<noteq> None" "fds (c_world ?c) 1 \<noteq> None"
    using comp_world_ok(1-5) by (simp_all add: child_start_def)
  from child_runs_compiler [OF _ this, of demo_conf2 "[]" None demo_result] show ?thesis
    by (auto simp: demo_conf2_def comp_env_ok child_start_def demo_conf_def readings_def timespec_delta_usec_def upt_conv_Cons
        signed_divide_int_def)
qed

end
