(* ===== verification/Bench_Children.thy ===== *)
theory Bench_Children
  imports Bench_Runs
begin

text \<open>
  The children of the benchmark together: the barrier keeps the two phases of the measurement
  apart, the lock makes the totals those of all samples, and one child that does not reach the
  barrier keeps the others there for ever.
\<close>

section \<open>Runs\<close>

definition fresh_result :: "'d arith \<Rightarrow> nat \<Rightarrow> 'd bench_result" where
  "fresh_result A n = \<lparr>br_lock = Some \<lparr>sem_shared = True, sem_val = 1\<rparr>, br_stats = bench_stats_reset A,
     br_nocache_stats = bench_stats_reset A, br_barrier = snd (barrier_init None None (int n) 1),
     br_lock_initialized = True\<rparr>"

text \<open>
  The children \<open>K\<close> of \<open>n\<close> start in the worlds \<open>ws\<close>, with the clock at \<open>ks\<close>, on the record as
  \<open>bench_result_map\<close> leaves it.
\<close>

definition creach ::
  "'d bench_conf \<Rightarrow> nat set \<Rightarrow> bool \<Rightarrow> nat \<Rightarrow> int \<Rightarrow> (nat \<Rightarrow> nat) \<Rightarrow> (nat \<Rightarrow> world) \<Rightarrow> 'd csys \<Rightarrow> bool" where
  "creach cf K faulty n cachedirfd ks ws s \<longleftrightarrow>
     (cstep cf K faulty)\<^sup>*\<^sup>* (fresh_result (cf_arith cf) n, \<lambda>i. child_start cf cachedirfd (ks i) (ws i)) s"

lemma creach_induct [consumes 1, case_names start step]:
  assumes "creach cf K faulty n dfd ks ws (r, ch)"
    and "P (fresh_result (cf_arith cf) n) (\<lambda>i. child_start cf dfd (ks i) (ws i))"
    and "\<And>i f r ch r' c. creach cf K faulty n dfd ks ws (r, ch) \<Longrightarrow> P r ch \<Longrightarrow> i \<in> K \<Longrightarrow> f = None \<or> faulty \<Longrightarrow>
      child_step cf f r (ch i) = Some (r', c) \<Longrightarrow> P r' (ch(i := c))"
  shows "P r ch"
proof -
  have "case s of (r, ch) \<Rightarrow> P r ch" if "creach cf K faulty n dfd ks ws s" for s
    using that unfolding creach_def
  proof (induction rule: rtranclp_induct)
    case base
    then show ?case using assms(2) by simp
  next
    case (step s s')
    obtain r ch where s: "s = (r, ch)" by fastforce
    with step.hyps(2) obtain i f r' c where st: "i \<in> K" "f = None \<or> faulty" "child_step cf f r (ch i) = Some (r', c)"
      "s' = (r', ch(i := c))" by (auto elim!: cstepE)
    show ?case using assms(3) [of r ch i f r' c] step.hyps(1) step.IH st s by (simp add: creach_def)
  qed
  from this [OF assms(1)] show ?thesis by simp
qed

section \<open>One action\<close>

text \<open>The statistics of a complete run of a phase.\<close>

definition measured :: "'d bench_conf \<Rightarrow> 'd bench_stats \<Rightarrow> bool" where
  "measured cf st \<longleftrightarrow> (\<exists>xs. length xs = cf_repetitions cf \<and>
     st = bench_stats_finalize (cf_arith cf) (stats_of (cf_arith cf) xs))"

lemma clock_gettime_nonzero: "clock_gettime clk k w = (Inl err, k', w') \<Longrightarrow> err \<noteq> 0"
  by (auto simp: clock_gettime_def fail_with_def split: fault.splits prod.splits)

lemma check_value_nonzero: "check_value v t w = (Inl err, v', w') \<Longrightarrow> err \<noteq> 0"
  by (auto simp: check_value_def split: option.splits if_splits)

lemma cache_reads_result:
  "cache_reads clk A ic compiler triplet n st k w = (R, v, k', w') \<Longrightarrow>
    case R of Inl err \<Rightarrow> err \<noteq> 0 | Inr st' \<Rightarrow> \<exists>xs. length xs = n \<and> st' = foldl (bench_stats_update A) st xs"
proof (induction n arbitrary: st k w)
  case 0
  then show ?case by auto
next
  case (Suc n)
  show ?case
  proof (cases R)
    case (Inl err)
    then show ?thesis using Suc
      by (fastforce split: prod.splits sum.splits if_splits simp: Let_def
          dest: clock_gettime_nonzero check_value_nonzero)
  next
    case (Inr st')
    with Suc.prems obtain x k1 w1 where
      "cache_reads clk A ic compiler triplet n (bench_stats_update A st x) k1 w1 = (Inr st', v, k', w')"
      by (auto split: prod.splits sum.splits if_splits simp: Let_def)
    from Suc.IH [OF this [folded Inr]] Inr obtain xs where
      "length xs = n" "st' = foldl (bench_stats_update A) (bench_stats_update A st x) xs" by auto
    then show ?thesis using Inr by (auto intro!: exI [of _ "x # xs"])
  qed
qed

lemma compiler_runs_result:
  "compiler_runs clk A env compiler triplet n st k w = (R, v, k', w') \<Longrightarrow>
    case R of Inl err \<Rightarrow> err \<noteq> 0 | Inr st' \<Rightarrow> \<exists>xs. length xs = n \<and> st' = foldl (bench_stats_update A) st xs"
proof (induction n arbitrary: st k w)
  case 0
  then show ?case by auto
next
  case (Suc n)
  show ?case
  proof (cases R)
    case (Inl err)
    then show ?thesis using Suc
      by (fastforce split: prod.splits sum.splits if_splits simp: Let_def
          dest: clock_gettime_nonzero check_value_nonzero)
  next
    case (Inr st')
    with Suc.prems obtain x k1 w1 where
      "compiler_runs clk A env compiler triplet n (bench_stats_update A st x) k1 w1 = (Inr st', v, k', w')"
      by (auto split: prod.splits sum.splits if_splits simp: Let_def)
    from Suc.IH [OF this [folded Inr]] Inr obtain xs where
      "length xs = n" "st' = foldl (bench_stats_update A) (bench_stats_update A st x) xs" by auto
    then show ?thesis using Inr by (auto intro!: exI [of _ "x # xs"])
  qed
qed

text \<open>What is known of a child at each of its control points.\<close>

definition cinv :: "'d bench_conf \<Rightarrow> 'd child_state \<Rightarrow> bool" where
  "cinv cf c \<longleftrightarrow>
    (case c_pc c of
       Begin \<Rightarrow> c_bar c = Enter
     | Read_Cache \<Rightarrow> c_bar c = Enter
     | Barrier \<Rightarrow> measured cf (c_bstat c) \<and> (\<forall>e. c_bar c \<noteq> Done e \<and> c_bar c \<noteq> Refused e)
     | Run_Compiler \<Rightarrow> measured cf (c_bstat c) \<and> c_bar c = Done 0
     | Finish e \<Rightarrow> e = 0 \<and> measured cf (c_bstat c) \<and> measured cf (c_nstat c) \<and> c_bar c = Done 0 \<or>
         e \<noteq> 0 \<and> (c_bar c = Enter \<or> measured cf (c_bstat c) \<and> (\<exists>d. c_bar c = Refused d \<or> c_bar c = Done d))
     | Ended e \<Rightarrow> e = 0 \<and> measured cf (c_bstat c) \<and> measured cf (c_nstat c) \<and> c_bar c = Done 0 \<or>
         e \<noteq> 0 \<and> (c_bar c = Enter \<or> measured cf (c_bstat c) \<and> (\<exists>d. c_bar c = Refused d \<or> c_bar c = Done d))
     | _ \<Rightarrow> measured cf (c_bstat c) \<and> measured cf (c_nstat c) \<and> c_bar c = Done 0)"

lemma wait_step_refused: "wait_step f b p = Some (b', Refused e) \<Longrightarrow> e \<noteq> 0"
  by (cases p) (auto split: sem_result.splits if_splits)

lemma measured_run:
  "length xs = cf_repetitions cf \<Longrightarrow>
    measured cf (bench_stats_finalize (cf_arith cf) (foldl (bench_stats_update (cf_arith cf)) (bench_stats_reset (cf_arith cf)) xs))"
  by (auto simp: measured_def stats_of_def)

lemma child_step_cinv:
  assumes st: "child_step cf f r c = Some (r', c')" and inv: "cinv cf c"
  shows "cinv cf c'"
proof (cases "c_pc c")
  case Begin
  then show ?thesis using st inv by (auto simp: child_step.simps cinv_def split: prod.splits)
next
  case Read_Cache
  obtain R v k w where cr: "cache_reads (cf_clock cf) (cf_arith cf) (c_ic c) (cf_compiler cf) (cf_triplet cf) (cf_repetitions cf)
      (bench_stats_reset (cf_arith cf)) (c_tick c) (c_world c) = (R, v, k, w)" by (metis prod_cases4)
  from cache_reads_result [OF this] st inv Read_Cache cr show ?thesis
    by (auto simp: child_step.simps cinv_def measured_run split: sum.splits)
next
  case Barrier
  then show ?thesis using st inv
    by (auto simp: child_step.simps cinv_def split: option.splits pc.splits dest: wait_step_refused)
next
  case Run_Compiler
  obtain R v k w where cr: "compiler_runs (cf_clock cf) (cf_arith cf) (cf_env cf) (cf_compiler cf) (cf_triplet cf) (cf_repetitions cf)
      (bench_stats_reset (cf_arith cf)) (c_tick c) (c_world c) = (R, v, k, w)" by (metis prod_cases4)
  from compiler_runs_result [OF this] st inv Run_Compiler cr show ?thesis
    by (auto simp: child_step.simps cinv_def measured_run split: sum.splits)
next
  case (Finish e)
  then show ?thesis using st inv by (auto simp: child_step.simps cinv_def split: prod.splits)
qed (use st inv in \<open>auto simp: child_step.simps cinv_def split: sem_result.splits\<close>)

lemma child_step_barrier:
  assumes "child_step cf f r c = Some (r', c')"
  shows "if c_pc c = Barrier then wait_step f (br_barrier r) (c_bar c) = Some (br_barrier r', c_bar c')
    else br_barrier r' = br_barrier r \<and> c_bar c' = c_bar c"
  using assms
  by (auto simp: child_step.simps split: cpc.splits option.splits sum.splits prod.splits sem_result.splits)

lemma creach_children: "creach cf K faulty n dfd ks ws (r, ch) \<Longrightarrow> \<forall>i. cinv cf (ch i)"
proof (induction rule: creach_induct)
  case start
  then show ?case by (simp add: cinv_def child_start_def)
next
  case (step i f r ch r' c)
  then show ?case using child_step_cinv by fastforce
qed

text \<open>The barrier of the benchmark is the barrier of \<open>n\<close> processes.\<close>

lemma creach_barrier:
  assumes "creach cf K faulty n dfd ks ws (r, ch)" "K \<subseteq> {..<n}"
  shows "breach n faulty (int n) (br_barrier r, \<lambda>i. c_bar (ch i))"
  using assms(1)
proof (induction rule: creach_induct)
  case start
  have "bstart (int n) = (snd (barrier_init None None (int n) 1), \<lambda>_. Enter)" by (simp add: bstart_def)
  then show ?case by (simp add: breach_def fresh_result_def child_start_def)
next
  case (step i f r ch r' c)
  have i: "i < n" using step.hyps(2) assms(2) by auto
  have upd: "(\<lambda>j. c_bar ((ch(i := c)) j)) = (\<lambda>j. c_bar (ch j))(i := c_bar c)" by (auto simp: fun_eq_iff)
  show ?case
  proof (cases "c_pc (ch i) = Barrier")
    case True
    then have "wait_step f (br_barrier r) (c_bar (ch i)) = Some (br_barrier r', c_bar c)"
      using child_step_barrier [OF step.hyps(4)] by simp
    from breach_run [OF step.IH i step.hyps(3), OF this] show ?thesis unfolding upd .
  next
    case False
    then have "br_barrier r' = br_barrier r" "(\<lambda>j. c_bar (ch j))(i := c_bar c) = (\<lambda>j. c_bar (ch j))"
      using child_step_barrier [OF step.hyps(4)] by (auto simp: fun_eq_iff)
    then show ?thesis using step.IH unfolding upd by simp
  qed
qed

lemma not_started:
  assumes "creach cf K faulty n dfd ks ws (r, ch)" "k \<notin> K"
  shows "ch k = child_start cf dfd (ks k) (ws k)"
  using assms(1)
proof (induction rule: creach_induct)
  case (step i f r ch r' c)
  then show ?case using assms(2) by auto
qed simp

lemma phases_apart:
  assumes reach: "creach cf K faulty n dfd ks ws (r, ch)" and K: "K \<subseteq> {..<n}"
    and i: "i \<in> K" "c_bar (ch i) = Done 0" and j: "j < n"
  shows "j \<in> K \<and> c_bar (ch j) \<noteq> Enter \<and> measured cf (c_bstat (ch j))"
proof -
  have "i < n" using i(1) K by auto
  from passed_all_arrived [OF creach_barrier [OF reach K] this i(2) j]
  have a: "arrived (c_bar (ch j)) = 1" by simp
  then have ne: "c_bar (ch j) \<noteq> Enter" by (auto simp: arrived_def)
  have "j \<in> K"
  proof (rule ccontr)
    assume "j \<notin> K"
    from not_started [OF reach this] ne show False by (simp add: child_start_def)
  qed
  moreover have "measured cf (c_bstat (ch j))"
    using creach_children [OF reach, rule_format, of j] ne by (auto simp: cinv_def split: cpc.splits)
  ultimately show ?thesis using ne by simp
qed

section \<open>The totals\<close>

definition holds_lock :: "'d child_state \<Rightarrow> bool" where
  "holds_lock c \<longleftrightarrow> (case c_pc c of Merge \<Rightarrow> True | Store_Totals _ _ \<Rightarrow> True | Unlock \<Rightarrow> True | _ \<Rightarrow> False)"

text \<open>A child that has certainly stored its part, and one that may have.\<close>

definition has_stored :: "'d child_state \<Rightarrow> bool" where
  "has_stored c \<longleftrightarrow> c_pc c = Unlock \<or> c_pc c = Finish 0 \<or> c_pc c = Ended 0"

definition may_have_stored :: "'d child_state \<Rightarrow> bool" where
  "may_have_stored c \<longleftrightarrow> (case c_pc c of Unlock \<Rightarrow> True | Finish _ \<Rightarrow> True | Ended _ \<Rightarrow> True | _ \<Rightarrow> False)"

definition merge_all :: "'d arith \<Rightarrow> 'd bench_stats list \<Rightarrow> 'd bench_stats" where
  "merge_all A = foldl (bench_stats_merge A) (bench_stats_reset A)"

definition totals :: "'d bench_conf \<Rightarrow> nat set \<Rightarrow> 'd bench_result \<Rightarrow> (nat \<Rightarrow> 'd child_state) \<Rightarrow> nat list \<Rightarrow> bool" where
  "totals cf K r ch ord \<longleftrightarrow> distinct ord \<and> set ord \<subseteq> K \<and>
     br_stats r = merge_all (cf_arith cf) (map (\<lambda>i. c_bstat (ch i)) ord) \<and>
     br_nocache_stats r = merge_all (cf_arith cf) (map (\<lambda>i. c_nstat (ch i)) ord) \<and>
     (\<forall>i\<in>K. has_stored (ch i) \<longrightarrow> i \<in> set ord) \<and> (\<forall>i\<in>set ord. may_have_stored (ch i)) \<and>
     (\<forall>i\<in>K. \<forall>s1 s2. c_pc (ch i) = Store_Totals s1 s2 \<longrightarrow>
        s1 = bench_stats_merge (cf_arith cf) (br_stats r) (c_bstat (ch i)) \<and>
        s2 = bench_stats_merge (cf_arith cf) (br_nocache_stats r) (c_nstat (ch i)))"

definition locked_ok :: "nat set \<Rightarrow> 'd bench_result \<Rightarrow> (nat \<Rightarrow> 'd child_state) \<Rightarrow> bool" where
  "locked_ok K r ch \<longleftrightarrow>
     (\<exists>v. br_lock r = Some v \<and> sem_val v \<le> 1 \<and> (\<forall>i\<in>K. holds_lock (ch i) \<longrightarrow> sem_val v = 0)) \<and>
     (\<forall>i\<in>K. \<forall>j\<in>K. holds_lock (ch i) \<and> holds_lock (ch j) \<longrightarrow> i = j)"

lemmas pc_preds = holds_lock_def has_stored_def may_have_stored_def

lemma totals_aside:
  assumes "totals cf K r ch ord" "br_stats r' = br_stats r" "br_nocache_stats r' = br_nocache_stats r"
    and "has_stored c \<Longrightarrow> has_stored (ch i)"
      "may_have_stored (ch i) \<Longrightarrow> may_have_stored c \<and> c_bstat c = c_bstat (ch i) \<and> c_nstat c = c_nstat (ch i)"
      "\<And>s1 s2. c_pc c = Store_Totals s1 s2 \<Longrightarrow>
        s1 = bench_stats_merge (cf_arith cf) (br_stats r) (c_bstat c) \<and>
        s2 = bench_stats_merge (cf_arith cf) (br_nocache_stats r) (c_nstat c)"
  shows "totals cf K r' (ch(i := c)) ord"
proof -
  have m: "may_have_stored (ch j)" if "j \<in> set ord" for j using that assms(1) by (auto simp: totals_def)
  have eq: "map (\<lambda>j. c_bstat ((ch(i := c)) j)) ord = map (\<lambda>j. c_bstat (ch j)) ord"
    "map (\<lambda>j. c_nstat ((ch(i := c)) j)) ord = map (\<lambda>j. c_nstat (ch j)) ord"
    using m assms(5) by auto
  show ?thesis unfolding totals_def eq using assms m by (auto simp: totals_def)
qed

lemma locked_ok_aside:
  assumes "locked_ok K r ch" "br_lock r' = br_lock r" "holds_lock c \<Longrightarrow> holds_lock (ch i)"
  shows "locked_ok K r' (ch(i := c))"
  using assms by (auto simp: locked_ok_def)

text \<open>The actions outside the locked section.\<close>

lemma child_step_aside:
  assumes "child_step cf f r c = Some (r', c')" "c_pc c \<notin> {Lock, Merge, Unlock}" "\<And>s1 s2. c_pc c \<noteq> Store_Totals s1 s2"
  shows "br_lock r' = br_lock r" "br_stats r' = br_stats r" "br_nocache_stats r' = br_nocache_stats r"
    "\<not> holds_lock c'" "has_stored c' \<Longrightarrow> has_stored c" "\<And>s1 s2. c_pc c' \<noteq> Store_Totals s1 s2"
    "may_have_stored c \<Longrightarrow> may_have_stored c' \<and> c_bstat c' = c_bstat c \<and> c_nstat c' = c_nstat c"
  using assms
  by (auto simp: child_step.simps pc_preds split: cpc.splits option.splits sum.splits prod.splits pc.splits if_splits
      dest: cache_reads_result compiler_runs_result)

lemma locked_ok_take:
  assumes "locked_ok K r ch" "i \<in> K" "sem_wait f (br_lock r) = Proceed s" "br_lock r' = s"
  shows "locked_ok K r' (ch(i := c))"
proof -
  from assms(1,3) obtain v where v: "br_lock r = Some v" "sem_val v = 1" "s = Some (v\<lparr>sem_val := 0\<rparr>)"
    by (auto simp: locked_ok_def sem_wait_def split: option.splits if_splits)
  with assms(1) have "\<not> holds_lock (ch j)" if "j \<in> K" for j using that by (auto simp: locked_ok_def)
  then show ?thesis using v(3) assms(4) by (auto simp: locked_ok_def)
qed

lemma locked_ok_drop:
  assumes "locked_ok K r ch" "i \<in> K" "holds_lock (ch i)" "\<not> holds_lock c"
    and "br_lock r' = br_lock r \<or> sem_post f (br_lock r) = Proceed (br_lock r')"
  shows "locked_ok K r' (ch(i := c))"
proof -
  from assms(1-3) obtain v where v: "br_lock r = Some v" "sem_val v = 0" by (auto simp: locked_ok_def)
  have alone: "\<not> holds_lock ((ch(i := c)) j)" if "j \<in> K" for j using that assms by (auto simp: locked_ok_def)
  have "\<exists>v'. br_lock r' = Some v' \<and> sem_val v' \<le> 1"
    using assms(5) v by (cases f) (auto simp: sem_post_def eq_commute [of "Some _" "br_lock r'"])
  then show ?thesis using alone unfolding locked_ok_def by blast
qed

lemma totals_store:
  assumes t: "totals cf K r ch ord" and l: "locked_ok K r ch" and i: "i \<in> K" "c_pc (ch i) = Store_Totals s1 s2"
  shows "totals cf K (r\<lparr>br_stats := s1, br_nocache_stats := s2\<rparr>) (ch(i := ch i\<lparr>c_pc := Unlock\<rparr>)) (ord @ [i])"
proof -
  let ?ch = "ch(i := ch i\<lparr>c_pc := Unlock\<rparr>)"
  have ni: "i \<notin> set ord" using t i(2) by (auto simp: totals_def may_have_stored_def)
  then have eq: "map (\<lambda>j. c_bstat (?ch j)) (ord @ [i]) = map (\<lambda>j. c_bstat (ch j)) ord @ [c_bstat (ch i)]"
    "map (\<lambda>j. c_nstat (?ch j)) (ord @ [i]) = map (\<lambda>j. c_nstat (ch j)) ord @ [c_nstat (ch i)]" by auto
  have "s1 = bench_stats_merge (cf_arith cf) (br_stats r) (c_bstat (ch i))"
    "s2 = bench_stats_merge (cf_arith cf) (br_nocache_stats r) (c_nstat (ch i))"
    using t i by (auto simp: totals_def)
  then have s: "s1 = merge_all (cf_arith cf) (map (\<lambda>j. c_bstat (?ch j)) (ord @ [i]))"
    "s2 = merge_all (cf_arith cf) (map (\<lambda>j. c_nstat (?ch j)) (ord @ [i]))"
    using t unfolding eq by (simp_all add: totals_def merge_all_def)
  have other: "c_pc (ch j) \<noteq> Store_Totals x y" if "j \<in> K" "j \<noteq> i" for j x y
  proof
    assume "c_pc (ch j) = Store_Totals x y"
    then have "holds_lock (ch j)" "holds_lock (ch i)" using i(2) by (simp_all add: holds_lock_def)
    then show False using l that i(1) by (auto simp: locked_ok_def)
  qed
  show ?thesis
    unfolding totals_def s [symmetric] using t i ni other by (auto simp: totals_def has_stored_def may_have_stored_def)
qed

lemma creach_totals:
  assumes "creach cf K faulty n dfd ks ws (r, ch)"
  shows "locked_ok K r ch \<and> (\<exists>ord. totals cf K r ch ord)"
  using assms
proof (induction rule: creach_induct)
  case start
  have "totals cf K (fresh_result (cf_arith cf) n) (\<lambda>i. child_start cf dfd (ks i) (ws i)) []"
    by (simp add: totals_def merge_all_def fresh_result_def child_start_def has_stored_def)
  then show ?case by (auto simp: locked_ok_def fresh_result_def child_start_def holds_lock_def)
next
  case (step i f r ch r' c)
  note l = step.IH [THEN conjunct1]
  from step.IH obtain ord where t: "totals cf K r ch ord" by blast
  note st = step.hyps(4)
  consider (lock) "c_pc (ch i) = Lock" | (merge) "c_pc (ch i) = Merge" | (store) s1 s2 where "c_pc (ch i) = Store_Totals s1 s2"
    | (unlock) "c_pc (ch i) = Unlock"
    | (aside) "c_pc (ch i) \<notin> {Lock, Merge, Unlock}" "\<And>s1 s2. c_pc (ch i) \<noteq> Store_Totals s1 s2" by auto
  then show ?case
  proof cases
    case aside
    note a = child_step_aside [OF st aside]
    have "locked_ok K r' (ch(i := c))" using a(4) by (intro locked_ok_aside [OF l a(1)]) simp
    moreover have "totals cf K r' (ch(i := c)) ord"
      using a(5-7) by (intro totals_aside [OF t a(2,3)]) auto
    ultimately show ?thesis by blast
  next
    case lock
    have "totals cf K r' (ch(i := c)) ord"
      using st lock by (intro totals_aside [OF t]) (auto simp: child_step.simps pc_preds split: sem_result.splits)
    moreover have "locked_ok K r' (ch(i := c))"
    proof (cases "sem_wait f (br_lock r)")
      case (Proceed s)
      then show ?thesis using st lock by (intro locked_ok_take [OF l step.hyps(2)]) (auto simp: child_step.simps)
    next
      case (Failed e)
      then show ?thesis using st lock by (intro locked_ok_aside [OF l]) (auto simp: child_step.simps holds_lock_def)
    qed (use st lock in \<open>simp add: child_step.simps\<close>)
    ultimately show ?thesis by blast
  next
    case merge
    have "totals cf K r' (ch(i := c)) ord"
      using st merge by (intro totals_aside [OF t]) (auto simp: child_step.simps pc_preds)
    moreover have "locked_ok K r' (ch(i := c))"
      using st merge by (intro locked_ok_aside [OF l]) (auto simp: child_step.simps pc_preds)
    ultimately show ?thesis by blast
  next
    case (store s1 s2)
    then have c: "c = ch i\<lparr>c_pc := Unlock\<rparr>" "r' = r\<lparr>br_stats := s1, br_nocache_stats := s2\<rparr>"
      using st by (simp_all add: child_step.simps)
    have "locked_ok K r' (ch(i := c))"
      using store c by (intro locked_ok_aside [OF l]) (simp_all add: holds_lock_def)
    then show ?thesis using totals_store [OF t l step.hyps(2) store] c by blast
  next
    case unlock
    have "totals cf K r' (ch(i := c)) ord"
      using st unlock by (intro totals_aside [OF t]) (auto simp: child_step.simps pc_preds split: sem_result.splits)
    moreover have "locked_ok K r' (ch(i := c))"
      using st unlock by (intro locked_ok_drop [OF l step.hyps(2), where f = f])
        (auto simp: child_step.simps holds_lock_def split: sem_result.splits)
    ultimately show ?thesis by blast
  qed
qed

lemma merge_bounds:
  assumes "a + 1 \<le> (k :: nat)" "(k * m) * (k * m) < 2 ^ 63"
  shows "a * m + m < 2 ^ 63" "(a * m) * m < 2 ^ 63"
proof -
  have 1: "a * m + m \<le> k * m" using mult_le_mono1 [OF assms(1), of m] by simp
  then have "a * m \<le> k * m" "m \<le> k * m" by (rule add_leD1, rule add_leD2)
  then have "(a * m) * m \<le> (k * m) * (k * m)" by (rule mult_le_mono)
  then show "(a * m) * m < 2 ^ 63" using assms(2) by (rule le_less_trans)
  have "k * m \<le> (k * m) * (k * m)" by (rule le_square)
  with 1 have "a * m + m \<le> (k * m) * (k * m)" by (rule order_trans)
  then show "a * m + m < 2 ^ 63" using assms(2) by (rule le_less_trans)
qed

lemma merge_all_exact:
  assumes len: "\<And>i. length (xs i) = m" and m: "0 < m" "(k * m) * (k * m) < 2 ^ 63" and k: "length ord \<le> k" "ord \<noteq> []"
  shows "merge_all exact (map (\<lambda>i. bench_stats_finalize exact (stats_of exact (xs i))) ord) =
    bench_stats_finalize exact (stats_of exact (concat (map xs ord)))"
  using k
proof (induction ord rule: rev_induct)
  case (snoc i ord)
  let ?pool = "concat (map xs ord)"
  have l: "length ?pool = length ord * m" using len by (simp add: length_concat comp_def sum_list_triv)
  have n: "length ord + 1 \<le> k" using snoc.prems(1) by simp
  note b = merge_bounds [OF n m(2), folded l, folded len [of i]]
  have ne: "?pool @ xs i \<noteq> []" using len [of i] m(1) by auto
  note step = merge_stats_of [OF ne b]
  show ?case
  proof (cases "ord = []")
    case True
    then show ?thesis using step by (simp only: merge_all_def merge_finalize list.map foldl.simps append_Nil concat.simps
        stats_of_def append_Nil2)
  next
    case False
    have "length ord \<le> k" using n by simp
    from snoc.IH [OF this False] show ?thesis using step
      by (simp only: merge_all_def merge_finalize map_append foldl_append list.map foldl.simps concat_append concat.simps append_Nil2)
  qed
qed simp

section \<open>Blocked children\<close>

lemma crit_moves:
  assumes "live (b_mutex b)" "live (b_barrier b)" "crit p \<noteq> 0"
  shows "wait_step None b p \<noteq> None"
  using assms by (cases p) (auto simp: crit_def split: option.splits)

lemma tot_positive: "0 < tot g n pcs \<Longrightarrow> \<exists>k<n. g (pcs k) \<noteq> 0"
  by (metis lessThan_iff less_irrefl sum.neutral tot_def)

text \<open>What no failing call leaves of the possible points in the barrier.\<close>

lemma creach_linv:
  assumes "creach cf K False n dfd ks ws (r, ch)" "K \<subseteq> {..<n}" "0 < n"
  shows "live (b_mutex (br_barrier r))" "live (b_barrier (br_barrier r))"
    "tokens (b_mutex (br_barrier r)) + tot crit n (\<lambda>i. c_bar (ch i)) = 1"
    "\<And>i e. i < n \<Longrightarrow> c_bar (ch i) \<noteq> Refused e \<and> (c_bar (ch i) = Done e \<longrightarrow> e = 0)"
  using breach_linv [OF assms(3) creach_barrier [OF assms(1,2)]] by (auto simp: linv_def minv_def binv_def)

lemma blocked_at_barrier:
  assumes reach: "creach cf K False n dfd ks ws (r, ch)" and K: "K \<subseteq> {..<n}" "j \<in> K"
    and b: "c_pc (ch j) = Barrier" and stuck: "\<And>k. k \<in> K \<Longrightarrow> child_step cf None r (ch k) = None"
  shows "c_bar (ch j) = Await"
proof -
  have n: "0 < n" using K by auto
  note l = creach_linv [OF reach K(1) n]
  have none: "wait_step None (br_barrier r) (c_bar (ch k)) = None" if "k \<in> K" "c_pc (ch k) = Barrier" for k
    using stuck [OF that(1)] that(2) by (auto simp: child_step.simps split: option.splits)
  have ne: "crit (c_bar (ch k)) = 0" if k: "k < n" for k
  proof (rule ccontr)
    assume c: "crit (c_bar (ch k)) \<noteq> 0"
    then have pc: "c_pc (ch k) = Barrier"
      using creach_children [OF reach, rule_format, of k] by (auto simp: cinv_def crit_def split: cpc.splits)
    have "k \<in> K"
    proof (rule ccontr)
      assume "k \<notin> K"
      from not_started [OF reach this] pc show False by (simp add: child_start_def)
    qed
    from none [OF this pc] crit_moves [OF l(1,2) c] show False by simp
  qed
  then have "tokens (b_mutex (br_barrier r)) = 1"
    using l(3) by (metis add.right_neutral mult_zero_right tot_const)
  then show ?thesis using none [OF K(2) b] ne [of j] K l(1,2) creach_children [OF reach, rule_format, of j] b
    by (cases "c_bar (ch j)") (auto simp: crit_def cinv_def split: option.splits if_splits)
qed

text \<open>While no semaphore call fails a taken lock has a holder.\<close>

lemma creach_lock_held:
  assumes "creach cf K False n dfd ks ws (r, ch)"
  shows "tokens (br_lock r) = 0 \<longrightarrow> (\<exists>i\<in>K. holds_lock (ch i))"
  using assms
proof (induction rule: creach_induct)
  case start
  then show ?case by (simp add: fresh_result_def tokens_def)
next
  case (step i f r ch r' c)
  note st = step.hyps(4)
  have f: "f = None" using step.hyps(3) by simp
  have lv: "live (br_lock r)" using creach_totals [OF step.hyps(1)] by (auto simp: locked_ok_def live_def)
  consider (lock) "c_pc (ch i) = Lock" | (merge) "c_pc (ch i) = Merge" | (store) s1 s2 where "c_pc (ch i) = Store_Totals s1 s2"
    | (unlock) "c_pc (ch i) = Unlock"
    | (aside) "c_pc (ch i) \<notin> {Lock, Merge, Unlock}" "\<And>s1 s2. c_pc (ch i) \<noteq> Store_Totals s1 s2" by auto
  then show ?case
  proof cases
    case aside
    then have "\<not> holds_lock (ch i)" by (auto simp: holds_lock_def split: cpc.splits)
    then show ?thesis using step.IH child_step_aside(1) [OF st aside] by (metis fun_upd_other)
  next
    case lock
    then have "holds_lock c" using st f lv by (auto simp: child_step.simps holds_lock_def split: if_splits)
    then show ?thesis using step.hyps(2) by auto
  next
    case merge
    then have "holds_lock c" using st by (auto simp: child_step.simps holds_lock_def)
    then show ?thesis using step.hyps(2) by auto
  next
    case (store s1 s2)
    then have "holds_lock c" using st by (auto simp: child_step.simps holds_lock_def)
    then show ?thesis using step.hyps(2) by auto
  next
    case unlock
    then have "br_lock r' = up (br_lock r)" using st f lv by (auto simp: child_step.simps)
    then have "0 < tokens (br_lock r')" using sem_live(5) [OF lv] tokens_nonneg [of "br_lock r"] by simp
    then show ?thesis by simp
  qed
qed

lemma stuck_all_ended:
  assumes reach: "creach cf {..<n} False n dfd ks ws (r, ch)"
    and stuck: "\<And>i. i < n \<Longrightarrow> child_step cf None r (ch i) = None"
    and past: "\<And>i e. i < n \<Longrightarrow> c_pc (ch i) = Ended e \<Longrightarrow> c_bar (ch i) \<noteq> Enter"
    and i: "i < n"
  shows "\<exists>e. c_pc (ch i) = Ended e"
proof -
  have n: "0 < n" using i by simp
  note li = breach_linv [OF n creach_barrier [OF reach subset_refl]]
  have inv: "cinv cf (ch j)" for j using creach_children [OF reach] by blast
  obtain v where v: "br_lock r = Some v" using creach_totals [OF reach] by (auto simp: locked_ok_def)
  have at: "c_pc (ch j) \<in> {Barrier, Lock} \<or> (\<exists>e. c_pc (ch j) = Ended e)" if "j < n" for j
    using stuck [OF that] v
    by (auto simp: child_step.simps sem_post_def split: cpc.splits prod.splits sum.splits)
  have no_holder: "\<not> holds_lock (ch j)" if "j < n" for j using at [OF that] by (auto simp: holds_lock_def)
  have "wait_step None (br_barrier r) (c_bar (ch j)) = None" if j: "j < n" for j
  proof -
    consider "c_pc (ch j) = Barrier" | "c_pc (ch j) = Lock" | e where "c_pc (ch j) = Ended e" using at [OF j] by blast
    then show ?thesis
    proof cases
      case 1
      then show ?thesis using stuck [OF j] by (auto simp: child_step.simps split: option.splits)
    qed (use inv [of j] past [OF j] in \<open>auto simp: cinv_def\<close>)
  qed
  from stuck_done [OF n li this] have "c_bar (ch i) = Done 0" using i by blast
  then have "c_pc (ch i) \<noteq> Barrier" using inv [of i] by (auto simp: cinv_def)
  moreover have "c_pc (ch i) \<noteq> Lock"
  proof
    assume "c_pc (ch i) = Lock"
    then have "tokens (br_lock r) = 0"
      using stuck [OF i] v by (auto simp: child_step.simps sem_wait_def tokens_def split: if_splits)
    then show False using creach_lock_held [OF reach] no_holder by auto
  qed
  ultimately show ?thesis using at [OF i] by blast
qed

section \<open>The number of actions\<close>

definition crank :: "'d child_state \<Rightarrow> int" where
  "crank c = (case c_pc c of Begin \<Rightarrow> 16 | Read_Cache \<Rightarrow> 15 | Barrier \<Rightarrow> 6 + rank (c_bar c) | Run_Compiler \<Rightarrow> 6
     | Lock \<Rightarrow> 5 | Merge \<Rightarrow> 4 | Store_Totals _ _ \<Rightarrow> 3 | Unlock \<Rightarrow> 2 | Finish _ \<Rightarrow> 1 | Ended _ \<Rightarrow> 0)"

lemma crank_nonneg: "0 \<le> crank c"
  using rank_nonneg [of "c_bar c"] by (simp add: crank_def split: cpc.split)

lemma rank_le: "rank p \<le> 8"
  by (simp add: rank_def split: pc.split)

lemma child_step_rank:
  assumes st: "child_step cf f r c = Some (r', c')"
  shows "crank c' < crank c"
proof (cases "c_pc c")
  case Read_Cache
  then show ?thesis using st rank_le [of "c_bar c'"]
    by (auto simp: child_step.simps crank_def split: prod.splits sum.splits)
next
  case Barrier
  then have w: "wait_step f (br_barrier r) (c_bar c) = Some (br_barrier r', c_bar c')"
    using child_step_barrier [OF st] by simp
  from wait_step_rank [OF this] rank_nonneg [of "c_bar c'"] have "rank (c_bar c') < rank (c_bar c)" "0 < rank (c_bar c)" by linarith+
  then show ?thesis using st Barrier w
    by (auto simp: child_step.simps crank_def split: option.splits prod.splits pc.splits)
qed (use st in \<open>auto simp: child_step.simps crank_def split: prod.splits sum.splits sem_result.splits\<close>)

lemma cstep_rank:
  assumes "cstep cf K faulty (r, ch) (r', ch')" "K \<subseteq> {..<n}"
  shows "(\<Sum>i<n. crank (ch' i)) < (\<Sum>i<n. crank (ch i))"
proof -
  from assms(1) obtain i f c where st: "i \<in> K" "child_step cf f r (ch i) = Some (r', c)" "ch' = ch(i := c)"
    by (auto elim!: cstepE)
  from child_step_rank [OF st(2)] show ?thesis unfolding st(3)
    using st(1) assms(2) by (intro sum_strict_mono_ex1) auto
qed

interpretation bench_run: ranked_system "cstep cf (K \<inter> {..<n}) faulty" "\<lambda>s. \<Sum>i<n. crank (snd s i)" for cf K n faulty
proof
  fix s s' :: "'a csys"
  show "0 \<le> (\<Sum>i<n. crank (snd s i))" by (intro sum_nonneg crank_nonneg)
  show "cstep cf (K \<inter> {..<n}) faulty s s' \<Longrightarrow> (\<Sum>i<n. crank (snd s' i)) < (\<Sum>i<n. crank (snd s i))"
    using cstep_rank [of cf "K \<inter> {..<n}"] by (cases s; cases s') simp
qed

section \<open>Running one child alone\<close>

fun run_child :: "'d bench_conf \<Rightarrow> nat \<Rightarrow> 'd bench_result \<times> 'd child_state \<Rightarrow> ('d bench_result \<times> 'd child_state) option" where
  "run_child cf 0 s = Some s"
| "run_child cf (Suc k) s = (case child_step cf None (fst s) (snd s) of None \<Rightarrow> None | Some s' \<Rightarrow> run_child cf k s')"

lemma run_child_steps:
  assumes "run_child cf k (r, ch i) = Some (r', c)" "i \<in> K"
  shows "(cstep cf K faulty)\<^sup>*\<^sup>* (r, ch) (r', ch(i := c))"
  using assms(1)
proof (induction k arbitrary: r ch)
  case (Suc k)
  then obtain r1 c1 where s: "child_step cf None r (ch i) = Some (r1, c1)" "run_child cf k (r1, c1) = Some (r', c)"
    by (auto split: option.splits)
  have "cstep cf K faulty (r, ch) (r1, ch(i := c1))" using assms(2) s(1) by (intro cstep.act) simp_all
  moreover have "(cstep cf K faulty)\<^sup>*\<^sup>* (r1, ch(i := c1)) (r', (ch(i := c1))(i := c))"
    using s(2) by (intro Suc.IH) simp
  ultimately show ?case unfolding fun_upd_upd by (rule converse_rtranclp_into_rtranclp)
qed (simp add: fun_upd_idem)

lemma run_child_reach:
  "run_child cf k (fresh_result (cf_arith cf) n, child_start cf dfd (ks i) (ws i)) = Some (r, c) \<Longrightarrow> i \<in> K \<Longrightarrow>
    creach cf K faulty n dfd ks ws (r, (\<lambda>j. child_start cf dfd (ks j) (ws j))(i := c))"
  unfolding creach_def by (rule run_child_steps) simp_all

section \<open>Properties\<close>

text \<open>C28. The phases do not overlap. However the children are scheduled and whichever semaphore
  calls fail, when one child runs the compiler, or has got further, all \<open>n\<close> children have been
  started and have completed all their reads of the cache: nobody's reads are disturbed by
  compilers.\<close>

theorem phases_kept_apart:
  assumes "creach cf K faulty n dfd ks ws (r, ch)" "K \<subseteq> {..<n}" "i \<in> K"
    and "c_pc (ch i) \<in> {Run_Compiler, Lock, Merge, Unlock, Ended 0}" "j < n"
  shows "j \<in> K \<and> c_pc (ch j) \<notin> {Begin, Read_Cache} \<and>
    (\<exists>xs. length xs = cf_repetitions cf \<and>
      c_bstat (ch j) = bench_stats_finalize (cf_arith cf) (stats_of (cf_arith cf) xs))"
proof -
  have inv: "cinv cf (ch k)" for k using creach_children [OF assms(1)] by blast
  have "c_bar (ch i) = Done 0" using inv [of i] assms(4) by (auto simp: cinv_def)
  from phases_apart [OF assms(1-3) this assms(5)] inv [of j] show ?thesis
    by (auto simp: measured_def cinv_def)
qed

text \<open>C27. The totals. When all children have ended with 0 the totals in shared memory are, in
  exact arithmetic, the statistics of all the samples of all children taken together, for both
  phases: no update is lost and the order in which the children got the lock does not matter
  but for the order of the samples.\<close>

theorem bench_totals_correct:
  assumes "creach cf K faulty n dfd ks ws (r, ch)" "K \<subseteq> {..<n}" "K \<noteq> {}" "\<forall>i\<in>K. c_pc (ch i) = Ended 0"
    and "cf_arith cf = exact" "cf_repetitions cf = m" "0 < m" "(n * m) * (n * m) < 2 ^ 63"
  shows "\<exists>ord xs ys. distinct ord \<and> set ord = K \<and> (\<forall>i. length (xs i) = m \<and> length (ys i) = m) \<and>
    (\<forall>i\<in>K. c_bstat (ch i) = bench_stats_finalize exact (stats_of exact (xs i)) \<and>
      c_nstat (ch i) = bench_stats_finalize exact (stats_of exact (ys i))) \<and>
    br_stats r = bench_stats_finalize exact (stats_of exact (concat (map xs ord))) \<and>
    br_nocache_stats r = bench_stats_finalize exact (stats_of exact (concat (map ys ord)))"
proof -
  from creach_totals [OF assms(1)] obtain ord where t: "totals cf K r ch ord" by blast
  have K: "set ord = K" "distinct ord" using t assms(4) by (auto simp: totals_def has_stored_def)
  have ms: "measured cf (c_bstat (ch i)) \<and> measured cf (c_nstat (ch i))" if "i \<in> K" for i
    using creach_children [OF assms(1), rule_format, of i] assms(4) that by (auto simp: cinv_def)
  have "\<exists>x y. length x = m \<and> length y = m \<and> (i \<in> K \<longrightarrow> c_bstat (ch i) = bench_stats_finalize exact (stats_of exact x) \<and>
      c_nstat (ch i) = bench_stats_finalize exact (stats_of exact y))" for i
  proof (cases "i \<in> K")
    case True
    from ms [OF this] show ?thesis using assms(5,6) by (auto simp: measured_def)
  next
    case False
    moreover have "length (replicate m 0) = m" by simp
    ultimately show ?thesis by blast
  qed
  then obtain xs ys where xy: "\<And>i. length (xs i) = m" "\<And>i. length (ys i) = m"
    "\<And>i. i \<in> K \<Longrightarrow> c_bstat (ch i) = bench_stats_finalize exact (stats_of exact (xs i))"
    "\<And>i. i \<in> K \<Longrightarrow> c_nstat (ch i) = bench_stats_finalize exact (stats_of exact (ys i))" by metis
  have len: "length ord \<le> n"
    using K assms(2) card_mono [of "{..<n}" K] distinct_card [of ord] by simp
  have eq: "map (\<lambda>i. c_bstat (ch i)) ord = map (\<lambda>i. bench_stats_finalize exact (stats_of exact (xs i))) ord"
    "map (\<lambda>i. c_nstat (ch i)) ord = map (\<lambda>i. bench_stats_finalize exact (stats_of exact (ys i))) ord"
    using K(1) xy(3,4) by simp_all
  have ne: "ord \<noteq> []" using K(1) assms(3) by auto
  have "br_stats r = bench_stats_finalize exact (stats_of exact (concat (map xs ord)))"
    "br_nocache_stats r = bench_stats_finalize exact (stats_of exact (concat (map ys ord)))"
    using t unfolding totals_def assms(5) eq
    by (simp_all only: merge_all_exact [OF xy(1) assms(7,8) len ne] merge_all_exact [OF xy(2) assms(7,8) len ne])
  then show ?thesis using K xy by blast
qed

text \<open>C30. One child is enough to hang the benchmark. When a \<open>fork\<close> failed or a child ended before
  it came to the barrier, and no further action is possible, then every child has either ended
  with an error before the barrier or waits there for ever, and with it the parent.\<close>

theorem one_failure_hangs:
  assumes "creach cf K False n dfd ks ws (r, ch)" "K \<subseteq> {..<n}" "i < n" "i \<notin> K \<or> c_bar (ch i) = Enter"
    and "\<forall>j\<in>K. child_step cf None r (ch j) = None" "j \<in> K"
  shows "(\<exists>e. c_pc (ch j) = Ended e \<and> e \<noteq> 0 \<and> c_bar (ch j) = Enter) \<or> c_pc (ch j) = Barrier \<and> c_bar (ch j) = Await"
proof -
  have j: "j < n" "0 < n" using assms(2,6) by auto
  have "c_bar (ch j) \<noteq> Done 0" using phases_apart [OF assms(1,2,6) _ assms(3)] assms(4) by blast
  then have ne: "c_bar (ch j) \<noteq> Done e" "c_bar (ch j) \<noteq> Refused e" for e
    using creach_linv(4) [OF assms(1,2) j(2) j(1)] by blast+
  note inv = creach_children [OF assms(1), rule_format, of j]
  have "child_step cf None r (ch j) = None" using assms(5,6) by blast
  then have "c_pc (ch j) = Barrier \<or> (\<exists>e. c_pc (ch j) = Ended e)"
    using inv ne by (auto simp: child_step.simps cinv_def split: cpc.splits prod.splits sum.splits)
  then show ?thesis
    using blocked_at_barrier [OF assms(1,2,6)] assms(5) inv ne by (auto simp: cinv_def)
qed

text \<open>C29. Nothing else can go wrong. While no semaphore call fails, when all \<open>n\<close> children have been
  started and none of them gave up before the barrier, a state in which none can move is one in
  which all have ended, and the parent's loop of \<open>waitpid\<close> gets all their statuses; and no run at
  all, with failing calls too, has more than 16 actions per child.\<close>

theorem bench_comes_to_an_end:
  "(creach cf {..<n} False n dfd ks ws (r, ch) \<longrightarrow> (\<forall>i<n. child_step cf None r (ch i) = None) \<longrightarrow>
     (\<forall>i<n. \<forall>e. c_pc (ch i) = Ended e \<longrightarrow> c_bar (ch i) \<noteq> Enter) \<longrightarrow> (\<forall>i<n. \<exists>e. c_pc (ch i) = Ended e)) \<and>
   ((cstep cf K faulty ^^ k) (fresh_result (cf_arith cf) n, \<lambda>i. child_start cf dfd (ks i) (ws i)) s \<longrightarrow>
     K \<subseteq> {..<n} \<longrightarrow> k \<le> 16 * n)"
proof (intro conjI impI)
  assume "creach cf {..<n} False n dfd ks ws (r, ch)" "\<forall>i<n. child_step cf None r (ch i) = None"
    "\<forall>i<n. \<forall>e. c_pc (ch i) = Ended e \<longrightarrow> c_bar (ch i) \<noteq> Enter"
  with stuck_all_ended [of cf n dfd ks ws r ch] show "\<forall>i<n. \<exists>e. c_pc (ch i) = Ended e" by blast
next
  assume "(cstep cf K faulty ^^ k) (fresh_result (cf_arith cf) n, \<lambda>i. child_start cf dfd (ks i) (ws i)) s" "K \<subseteq> {..<n}"
  then have "(cstep cf (K \<inter> {..<n}) faulty ^^ k) (fresh_result (cf_arith cf) n, \<lambda>i. child_start cf dfd (ks i) (ws i)) s"
    by (simp add: Int_absorb2)
  from bench_run.run_bound [OF this] show "k \<le> 16 * n" by (simp add: crank_def child_start_def)
qed

section \<open>A benchmark of one child\<close>

definition bench_world :: world where
  "bench_world = (cache_world [])\<lparr>fds := (\<lambda>_. None)(0 \<mapsto> OPath 0, 1 \<mapsto> OPath 0, 3 \<mapsto> OPath 1)\<rparr>"

definition bench_cf :: "real option bench_conf" where
  "bench_cf = demo_conf\<lparr>cf_env := \<lparr>exec_prog = (\<lambda>p args. Inr (''x86_64'' @ [CHR 0x0A], Exited 0)), child_faults = []\<rparr>\<rparr>"

lemma bench_world_ok:
  "cache_ok 1 3 \<lparr>ic_dir = None, ic_dirfd = 3\<rparr> bench_world"
  "key_names 1 bench_world (''/f'', GCC_TRIPLET) (entry_name demo_stat GCC_TRIPLET)"
proof -
  have "{n. n < fd_max bench_world \<and> fds bench_world n = None} = {2, 4, 5, 6, 7}"
    by (auto simp: bench_world_def cache_world_def)
  then have "room 2 bench_world" by (simp add: room_def)
  moreover have "flat_dir bench_world 1"
    by (simp add: flat_dir_def fs_ok_def dir_entries_def cache_world_def bench_world_def)
  moreover have "dirview bench_world 1 = (\<lambda>_. None)"
    by (simp add: dirview_def dir_entries_def cache_world_def bench_world_def fun_eq_iff)
  ultimately show "cache_ok 1 3 \<lparr>ic_dir = None, ic_dirfd = 3\<rparr> bench_world"
    by (auto simp: cache_ok_def ready_def proc_ok_def heap_ok_def entries_ok_def)
      (simp_all add: cache_world_def bench_world_def)
  show "key_names 1 bench_world (''/f'', GCC_TRIPLET) (entry_name demo_stat GCC_TRIPLET)"
    by (auto simp: key_names_def outside_def lookup_path_def start_dir_def entinos_def dir_entries_def stat_path_def
        stat_of_def demo_stat_def cache_world_def bench_world_def)
qed

lemma bench_world_filled:
  "\<exists>w. cache_ok 1 3 \<lparr>ic_dir = Some ''none'', ic_dirfd = 3\<rparr> w \<and> cached 1 w (entry_name demo_stat GCC_TRIPLET) = Some ''x86_64'' \<and>
     key_names 1 w (''/f'', GCC_TRIPLET) (entry_name demo_stat GCC_TRIPLET) \<and> fds w 0 \<noteq> None \<and> fds w 1 \<noteq> None"
proof -
  have f: "value_fits ''x86_64''" by (simp add: value_fits_def)
  have fd: "fds bench_world 0 \<noteq> None" "fds bench_world 1 \<noteq> None" by (simp_all add: bench_world_def)
  from cache_put_frame [OF bench_world_ok f] bench_world_ok(2) fd show ?thesis
    by (auto simp: cache_ok_def)
qed

text \<open>The one child runs through.\<close>

lemma bench_one_child:
  "\<exists>w r c. run_child bench_cf 16 (fresh_result exact 1, child_start bench_cf 3 0 w) = Some (r, c) \<and> c_pc c = Ended 0"
proof -
  from bench_world_filled obtain w where w: "cache_ok 1 3 \<lparr>ic_dir = Some ''none'', ic_dirfd = 3\<rparr> w"
    "key_names 1 w (''/f'', GCC_TRIPLET) (entry_name demo_stat GCC_TRIPLET)"
    "cached 1 w (entry_name demo_stat GCC_TRIPLET) = Some ''x86_64''" "fds w 0 \<noteq> None" "fds w 1 \<noteq> None" by blast
  let ?m = "cf_repetitions bench_cf"
  from quiet_cache_reads [OF w(1-3), of "cf_clock bench_cf" exact ?m "bench_stats_reset exact" 0] obtain st k1 w1 where
    w1: "cache_reads (cf_clock bench_cf) exact \<lparr>ic_dir = Some ''none'', ic_dirfd = 3\<rparr> ''/f'' ''x86_64'' ?m (bench_stats_reset exact) 0 w =
      (Inr st, NULL, k1, w1)"
      "fds w1 = fds w" "cache_ok 1 3 \<lparr>ic_dir = Some ''none'', ic_dirfd = 3\<rparr> w1" by auto
  have "faults w1 = []" "proc_ok w1" "room 2 w1" "fds w1 0 \<noteq> None" "fds w1 1 \<noteq> None"
    using w1(2,3) w(4,5) by (simp_all add: cache_ok_def ready_def)
  from quiet_compiler_runs [OF this, of "cf_env bench_cf" "''/f''" "''x86_64''" "[]" "cf_clock bench_cf" exact ?m "bench_stats_reset exact" k1]
  obtain st2 k w2 where w2: "compiler_runs (cf_clock bench_cf) exact (cf_env bench_cf) ''/f'' ''x86_64'' ?m (bench_stats_reset exact) k1 w1 =
      (Inr st2, NULL, k, w2)"
    by (auto simp: bench_cf_def)
  have cf: "cf_arith bench_cf = exact" "cf_compiler bench_cf = ''/f''" "cf_triplet bench_cf = ''x86_64''"
    by (simp_all add: bench_cf_def demo_conf_def)
  obtain ic3 w3 where w3: "inode_cache_close \<lparr>ic_dir = Some ''none'', ic_dirfd = 3\<rparr> w2 = (ic3, w3)" by fastforce
  show ?thesis
    by (rule exI [of _ w])
      (simp add: numeral_eq_Suc run_child.simps child_step.simps child_start_def fresh_result_def cf w1(1) [simplified] w2 [simplified] w3
         inode_cache_open_def barrier_init_def sem_init_def sem_wait_def sem_post_def split: prod.splits)
qed


text \<open>The first of two children waits when the second has not been started.\<close>

lemma bench_waiting_child:
  "\<exists>w r c. run_child bench_cf 7 (fresh_result exact 2, child_start bench_cf 3 0 w) = Some (r, c) \<and>
    c_pc c = Barrier \<and> child_step bench_cf None r c = None"
proof -
  from bench_world_filled obtain w where w: "cache_ok 1 3 \<lparr>ic_dir = Some ''none'', ic_dirfd = 3\<rparr> w"
    "key_names 1 w (''/f'', GCC_TRIPLET) (entry_name demo_stat GCC_TRIPLET)"
    "cached 1 w (entry_name demo_stat GCC_TRIPLET) = Some ''x86_64''" by blast
  let ?m = "cf_repetitions bench_cf"
  from quiet_cache_reads [OF w(1-3), of "cf_clock bench_cf" exact ?m "bench_stats_reset exact" 0] obtain st k1 w1 where
    w1: "cache_reads (cf_clock bench_cf) exact \<lparr>ic_dir = Some ''none'', ic_dirfd = 3\<rparr> ''/f'' ''x86_64'' ?m (bench_stats_reset exact) 0 w =
      (Inr st, NULL, k1, w1)" by auto
  have cf: "cf_arith bench_cf = exact" "cf_compiler bench_cf = ''/f''" "cf_triplet bench_cf = ''x86_64''"
    by (simp_all add: bench_cf_def demo_conf_def)
  show ?thesis
    by (rule exI [of _ w])
      (simp add: numeral_eq_Suc run_child.simps child_step.simps child_start_def fresh_result_def cf w1(1) [simplified]
         inode_cache_open_def barrier_init_def sem_init_def sem_wait_def sem_post_def split: prod.splits)
qed

lemma bench_one_reach:
  "\<exists>w r ch. creach bench_cf {0} False 1 3 (\<lambda>_. 0) (\<lambda>_. w) (r, ch) \<and> c_pc (ch 0) = Ended 0"
proof -
  have e: "cf_arith bench_cf = exact" by (simp add: bench_cf_def demo_conf_def)
  from bench_one_child obtain w r c where
    c: "run_child bench_cf 16 (fresh_result exact 1, child_start bench_cf 3 0 w) = Some (r, c)" "c_pc c = Ended 0" by blast
  have "creach bench_cf {0} False 1 3 (\<lambda>_. 0) (\<lambda>_. w) (r, (\<lambda>_. child_start bench_cf 3 0 w)(0 := c))"
    by (rule run_child_reach [where k = 16]) (simp_all only: e c(1) singletonI)
  moreover have "c_pc (((\<lambda>_. child_start bench_cf 3 0 w)(0 := c)) 0) = Ended 0" using c(2) by simp
  ultimately show ?thesis by blast
qed

lemma bench_waiting_reach:
  "\<exists>w r ch. creach bench_cf {0} False 2 3 (\<lambda>_. 0) (\<lambda>_. w) (r, ch) \<and> c_pc (ch 0) = Barrier \<and>
     child_step bench_cf None r (ch 0) = None"
proof -
  have e: "cf_arith bench_cf = exact" by (simp add: bench_cf_def demo_conf_def)
  from bench_waiting_child obtain w r c where
    c: "run_child bench_cf 7 (fresh_result exact 2, child_start bench_cf 3 0 w) = Some (r, c)"
      "c_pc c = Barrier" "child_step bench_cf None r c = None" by blast
  have "creach bench_cf {0} False 2 3 (\<lambda>_. 0) (\<lambda>_. w) (r, (\<lambda>_. child_start bench_cf 3 0 w)(0 := c))"
    by (rule run_child_reach [where k = 7]) (simp_all only: e c(1) singletonI)
  moreover have "c_pc (((\<lambda>_. child_start bench_cf 3 0 w)(0 := c)) 0) = Barrier"
    "child_step bench_cf None r (((\<lambda>_. child_start bench_cf 3 0 w)(0 := c)) 0) = None" using c(2,3) by simp_all
  ultimately show ?thesis by blast
qed

theorem phases_kept_apart_witness:
  "\<exists>w r ch xs. creach bench_cf {0} False 1 3 (\<lambda>_. 0) (\<lambda>_. w) (r, ch) \<and> length xs = 2 \<and>
    c_bstat (ch 0) = bench_stats_finalize exact (stats_of exact xs)"
proof -
  have e: "cf_arith bench_cf = exact" "cf_repetitions bench_cf = 2" by (simp_all add: bench_cf_def demo_conf_def)
  from bench_one_reach obtain w r ch where
    r: "creach bench_cf {0} False 1 3 (\<lambda>_. 0) (\<lambda>_. w) (r, ch)" "c_pc (ch 0) = Ended 0" by blast
  have "{0} \<subseteq> {..<1::nat}" "c_pc (ch 0) \<in> {Run_Compiler, Lock, Merge, Unlock, Ended 0}" using r(2) by simp_all
  from phases_kept_apart [OF r(1) this(1) singletonI this(2), of 0] r(1) show ?thesis unfolding e
    by (metis less_numeral_extra(1))
qed

theorem bench_totals_correct_witness:
  "\<exists>w r ch xs ys. creach bench_cf {0} False 1 3 (\<lambda>_. 0) (\<lambda>_. w) (r, ch) \<and> length xs = 2 \<and> length ys = 2 \<and>
    br_stats r = bench_stats_finalize exact (stats_of exact xs) \<and>
    br_nocache_stats r = bench_stats_finalize exact (stats_of exact ys)"
proof -
  have e: "cf_arith bench_cf = exact" "cf_repetitions bench_cf = 2" by (simp_all add: bench_cf_def demo_conf_def)
  from bench_one_reach obtain w r ch where
    r: "creach bench_cf {0} False 1 3 (\<lambda>_. 0) (\<lambda>_. w) (r, ch)" "c_pc (ch 0) = Ended 0" by blast
  have "{0} \<subseteq> {..<1::nat}" "{0 :: nat} \<noteq> {}" "\<forall>i\<in>{0}. c_pc (ch i) = Ended 0"
    "(0::nat) < 2" "(1 * 2) * (1 * 2) < (2::nat) ^ 63" using r(2) by simp_all
  from bench_totals_correct [OF r(1) this(1-3) e this(4,5)] obtain ord xs ys where
    o: "distinct ord \<and> set ord = {0} \<and> (\<forall>i. length (xs i) = 2 \<and> length (ys i) = 2) \<and>
      (\<forall>i\<in>{0}. c_bstat (ch i) = bench_stats_finalize exact (stats_of exact (xs i)) \<and>
        c_nstat (ch i) = bench_stats_finalize exact (stats_of exact (ys i))) \<and>
      br_stats r = bench_stats_finalize exact (stats_of exact (concat (map xs ord))) \<and>
      br_nocache_stats r = bench_stats_finalize exact (stats_of exact (concat (map ys ord)))"
    by (elim exE) (rule that)
  have "ord = [0]" using o distinct_card [of ord] by (cases ord) (auto simp: subset_singleton_iff)
  then have c: "concat (map xs ord) = xs 0" "concat (map ys ord) = ys 0" by simp_all
  show ?thesis using o [unfolded c] r(1) by metis
qed

theorem one_failure_hangs_witness:
  "\<exists>w r ch. creach bench_cf {0} False 2 3 (\<lambda>_. 0) (\<lambda>_. w) (r, ch) \<and> c_pc (ch 0) = Barrier \<and> c_bar (ch 0) = Await"
proof -
  from bench_waiting_reach obtain w r ch where
    r: "creach bench_cf {0} False 2 3 (\<lambda>_. 0) (\<lambda>_. w) (r, ch)" "c_pc (ch 0) = Barrier" "child_step bench_cf None r (ch 0) = None"
    by blast
  have a: "{0} \<subseteq> {..<2::nat}" "(1::nat) < 2" "1 \<notin> {0 :: nat} \<or> c_bar (ch 1) = Enter"
    "\<forall>j\<in>{0}. child_step bench_cf None r (ch j) = None" using r(3) by simp_all
  from one_failure_hangs [OF r(1) a singletonI] r(2) have "c_bar (ch 0) = Await" by simp
  with r(1,2) show ?thesis by blast
qed

theorem bench_comes_to_an_end_witness:
  "\<exists>w r ch. creach bench_cf {..<1} False 1 3 (\<lambda>_. 0) (\<lambda>_. w) (r, ch) \<and> (\<exists>e. c_pc (ch 0) = Ended e)"
proof -
  have one: "{..<1::nat} = {0}" by auto
  from bench_one_reach obtain w r ch where
    r: "creach bench_cf {..<1} False 1 3 (\<lambda>_. 0) (\<lambda>_. w) (r, ch)" "c_pc (ch 0) = Ended 0" unfolding one by blast
  have "c_bar (ch 0) \<noteq> Enter" using creach_children [OF r(1), rule_format, of 0] r(2) by (auto simp: cinv_def)
  then have "\<forall>i<1. child_step bench_cf None r (ch i) = None"
    "\<forall>i<1. \<forall>e. c_pc (ch i) = Ended e \<longrightarrow> c_bar (ch i) \<noteq> Enter"
    using r(2) by (simp_all add: child_step.simps)
  from bench_comes_to_an_end [THEN conjunct1, THEN mp, OF r(1), THEN mp, OF this(1), THEN mp, OF this(2)]
  have "\<exists>e. c_pc (ch 0) = Ended e" by simp
  then show ?thesis using r(1) by blast
qed

end
