(* ===== verification/Thundering_Herd.thy ===== *)
theory Thundering_Herd
  imports Step_Systems
begin

text \<open>
  The bounded queue of \<^verbatim>\<open>dat/thunderingherd.cpp\<close>: one producer and several workers that share
  a \<open>std::queue\<close> under a mutex, with two condition variables. \<open>wait\<close> with a predicate is the
  loop the standard says it is: test under the mutex, release and sleep in one action, take the
  mutex again when woken. The waiting threads of a condition variable are those that sleep at
  it, so a notification moves them on. Wake-ups without a notification may happen too. Time,
  thread names and messages are not modelled.
\<close>

section \<open>The threads\<close>

text \<open>Control points: before each call on the mutex, the condition variables and the queue.\<close>

datatype producer_pc = P_Next | P_Lock | P_Test | P_Sleep | P_Push | P_Unlock | P_Notify | P_Spin
  | P_Fin_Lock | P_Finish | P_Fin_Unlock | P_Fin_Notify | P_Done

datatype worker_pc = W_Lock | W_Test | W_Sleep | W_Pop | W_Break | W_Unlock | W_Notify | W_Work | W_Done

record producer_state =
  p_pc :: producer_pc
  p_i :: u64
  p_item :: i32

record worker_state =
  w_pc :: worker_pc
  w_item :: i32

datatype thread = Producer | Worker nat

record herd =
  h_q :: "i32 list"
  h_mutex :: "thread option"
  h_max_size :: u32
  h_finished :: bool
  h_producer :: producer_state
  h_workers :: "nat \<Rightarrow> worker_state"

text \<open>What an outside observer of the queue sees of an action.\<close>

datatype event = Push i32 | Pop nat i32

definition p_goto :: "producer_pc \<Rightarrow> herd \<Rightarrow> herd" where
  "p_goto pc s = s\<lparr>h_producer := h_producer s\<lparr>p_pc := pc\<rparr>\<rparr>"

definition w_goto :: "nat \<Rightarrow> worker_pc \<Rightarrow> herd \<Rightarrow> herd" where
  "w_goto i pc s = s\<lparr>h_workers := (h_workers s)(i := h_workers s i\<lparr>w_pc := pc\<rparr>)\<rparr>"

text \<open>\<open>cond_nonempty.notify_all()\<close>, and \<open>cond_nonfull.notify_one()\<close>: only the producer waits there.\<close>

definition notify_workers :: "herd \<Rightarrow> herd" where
  "notify_workers s = s\<lparr>h_workers := (\<lambda>i. if w_pc (h_workers s i) = W_Sleep
     then h_workers s i\<lparr>w_pc := W_Lock\<rparr> else h_workers s i)\<rparr>"

definition notify_producer :: "herd \<Rightarrow> herd" where
  "notify_producer s = (if p_pc (h_producer s) = P_Sleep then p_goto P_Lock s else s)"

text \<open>One action of the producer; \<open>None\<close> when it cannot move.\<close>

definition producer_step :: "u64 \<Rightarrow> herd \<Rightarrow> (event list \<times> herd) option" where
  "producer_step maxItems s =
    (case p_pc (h_producer s) of
       P_Next \<Rightarrow> Some ([], p_goto (if p_i (h_producer s) < maxItems then P_Lock else P_Fin_Lock) s)
     | P_Lock \<Rightarrow> if h_mutex s = None then Some ([], p_goto P_Test (s\<lparr>h_mutex := Some Producer\<rparr>)) else None
     | P_Test \<Rightarrow>
         if length (h_q s) < unat (h_max_size s) then Some ([], p_goto P_Push s)
         else Some ([], p_goto P_Sleep (s\<lparr>h_mutex := None\<rparr>))
     | P_Sleep \<Rightarrow> None
     | P_Push \<Rightarrow>
         (let item = p_item (h_producer s)
          in Some ([Push item], p_goto P_Unlock (s\<lparr>h_q := h_q s @ [item]\<rparr>)))
     | P_Unlock \<Rightarrow> Some ([], p_goto P_Notify (s\<lparr>h_mutex := None\<rparr>))
     | P_Notify \<Rightarrow> Some ([], p_goto P_Spin (notify_workers s))
     | P_Spin \<Rightarrow>
         (let p = h_producer s
          in Some ([], s\<lparr>h_producer := p\<lparr>p_pc := P_Next, p_i := p_i p + 1, p_item := p_item p + 1\<rparr>\<rparr>))
     | P_Fin_Lock \<Rightarrow> if h_mutex s = None then Some ([], p_goto P_Finish (s\<lparr>h_mutex := Some Producer\<rparr>)) else None
     | P_Finish \<Rightarrow> Some ([], p_goto P_Fin_Unlock (s\<lparr>h_finished := True\<rparr>))
     | P_Fin_Unlock \<Rightarrow> Some ([], p_goto P_Fin_Notify (s\<lparr>h_mutex := None\<rparr>))
     | P_Fin_Notify \<Rightarrow> Some ([], p_goto P_Done (notify_workers s))
     | P_Done \<Rightarrow> None)"

text \<open>One action of the worker \<open>idx\<close>.\<close>

definition worker_step :: "nat \<Rightarrow> herd \<Rightarrow> (event list \<times> herd) option" where
  "worker_step idx s =
    (case w_pc (h_workers s idx) of
       W_Lock \<Rightarrow> if h_mutex s = None then Some ([], w_goto idx W_Test (s\<lparr>h_mutex := Some (Worker idx)\<rparr>)) else None
     | W_Test \<Rightarrow>
         if h_q s \<noteq> [] \<or> h_finished s
         then Some ([], w_goto idx (if h_q s = [] \<and> h_finished s then W_Break else W_Pop) s)
         else Some ([], w_goto idx W_Sleep (s\<lparr>h_mutex := None\<rparr>))
     | W_Sleep \<Rightarrow> None
     | W_Pop \<Rightarrow>
         (let item = hd (h_q s);
              s = s\<lparr>h_q := tl (h_q s), h_workers := (h_workers s)(idx := h_workers s idx\<lparr>w_item := item\<rparr>)\<rparr>
          in Some ([Pop idx item], w_goto idx W_Unlock s))
     | W_Break \<Rightarrow> Some ([], w_goto idx W_Done (s\<lparr>h_mutex := None\<rparr>))
     | W_Unlock \<Rightarrow> Some ([], w_goto idx W_Notify (s\<lparr>h_mutex := None\<rparr>))
     | W_Notify \<Rightarrow> Some ([], w_goto idx W_Work (notify_producer s))
     | W_Work \<Rightarrow>
         (let c = h_workers s idx
          in Some ([], s\<lparr>h_workers := (h_workers s)(idx := c\<lparr>w_item := w_item c + 1, w_pc := W_Lock\<rparr>)\<rparr>))
     | W_Done \<Rightarrow> None)"

section \<open>The system\<close>

text \<open>\<open>spurious\<close> says whether threads may wake up by themselves.\<close>

inductive hstep :: "u64 \<Rightarrow> nat \<Rightarrow> bool \<Rightarrow> event list \<Rightarrow> herd \<Rightarrow> herd \<Rightarrow> bool"
  for maxItems :: u64 and n :: nat and spurious :: bool where
  producer_acts: "producer_step maxItems s = Some (e, s') \<Longrightarrow> hstep maxItems n spurious e s s'"
| worker_acts: "i < n \<Longrightarrow> worker_step i s = Some (e, s') \<Longrightarrow> hstep maxItems n spurious e s s'"
| producer_wakes: "spurious \<Longrightarrow> p_pc (h_producer s) = P_Sleep \<Longrightarrow> hstep maxItems n spurious [] s (p_goto P_Lock s)"
| worker_wakes: "spurious \<Longrightarrow> i < n \<Longrightarrow> w_pc (h_workers s i) = W_Sleep \<Longrightarrow> hstep maxItems n spurious [] s (w_goto i W_Lock s)"

text \<open>\<open>run\<close> makes the queue and starts the threads.\<close>

definition herd_start :: herd where
  "herd_start = \<lparr>h_q = [], h_mutex = None, h_max_size = 128, h_finished = False,
     h_producer = \<lparr>p_pc = P_Next, p_i = 0, p_item = 0\<rparr>, h_workers = (\<lambda>_. \<lparr>w_pc = W_Lock, w_item = 0\<rparr>)\<rparr>"

inductive hrun :: "u64 \<Rightarrow> nat \<Rightarrow> bool \<Rightarrow> event list \<Rightarrow> herd \<Rightarrow> bool"
  for maxItems :: u64 and n :: nat and spurious :: bool where
  start: "hrun maxItems n spurious [] herd_start"
| step: "hrun maxItems n spurious tr s \<Longrightarrow> hstep maxItems n spurious e s s' \<Longrightarrow> hrun maxItems n spurious (tr @ e) s'"

definition pushed :: "event list \<Rightarrow> i32 list" where
  "pushed tr = concat (map (\<lambda>e. case e of Push x \<Rightarrow> [x] | Pop _ _ \<Rightarrow> []) tr)"

definition popped :: "event list \<Rightarrow> i32 list" where
  "popped tr = concat (map (\<lambda>e. case e of Push _ \<Rightarrow> [] | Pop _ x \<Rightarrow> [x]) tr)"

end
