(* ===== verification/Thundering_Herd_Runs.thy ===== *)
theory Thundering_Herd_Runs
  imports Thundering_Herd
begin

text \<open>
  What holds of the bounded queue: it hands every item on exactly once and in order, no wake-up
  is lost, and every execution comes to its end. The command line has a hole.
\<close>

section \<open>Who holds the mutex\<close>

fun inside :: "herd \<Rightarrow> thread \<Rightarrow> bool" where
  "inside s Producer \<longleftrightarrow> p_pc (h_producer s) \<in> {P_Test, P_Push, P_Unlock, P_Finish, P_Fin_Unlock}"
| "inside s (Worker i) \<longleftrightarrow> w_pc (h_workers s i) \<in> {W_Test, W_Pop, W_Break, W_Unlock}"

definition mutex_ok :: "herd \<Rightarrow> bool" where
  "mutex_ok s \<longleftrightarrow> (\<forall>t. inside s t \<longleftrightarrow> h_mutex s = Some t)"

lemmas herd_updates = p_goto_def w_goto_def notify_workers_def notify_producer_def Let_def
lemmas herd_steps = producer_step_def worker_step_def herd_updates

inductive_cases hstepE: "hstep m n sp e s s'"

text \<open>The actions one at a time: for each control point, what the state becomes.\<close>

lemma hstep_cases [consumes 1, case_names producer worker p_wakes w_wakes]:
  assumes "hstep m n sp e s s'"
    and "producer_step m s = Some (e, s') \<Longrightarrow> P"
    and "\<And>i. i < n \<Longrightarrow> worker_step i s = Some (e, s') \<Longrightarrow> P"
    and "sp \<Longrightarrow> p_pc (h_producer s) = P_Sleep \<Longrightarrow> e = [] \<Longrightarrow> s' = p_goto P_Lock s \<Longrightarrow> P"
    and "\<And>i. sp \<Longrightarrow> i < n \<Longrightarrow> w_pc (h_workers s i) = W_Sleep \<Longrightarrow> e = [] \<Longrightarrow> s' = w_goto i W_Lock s \<Longrightarrow> P"
  shows P
  using assms(1) by (elim hstepE) (use assms(2-5) in blast)+

lemma mutex_okI:
  assumes "inside s Producer \<longleftrightarrow> h_mutex s = Some Producer" "\<And>i. inside s (Worker i) \<longleftrightarrow> h_mutex s = Some (Worker i)"
  shows "mutex_ok s"
  unfolding mutex_ok_def using assms by (metis thread.exhaust)

lemma mutex_okD:
  assumes "mutex_ok s"
  shows "inside s Producer \<longleftrightarrow> h_mutex s = Some Producer" "inside s (Worker i) \<longleftrightarrow> h_mutex s = Some (Worker i)"
  using assms by (simp_all only: mutex_ok_def)

lemma mutex_ok_producer:
  assumes st: "producer_step m s = Some (e, s')" and ok: "mutex_ok s"
  shows "mutex_ok s'"
proof (rule mutex_okI)
  note o = mutex_okD [OF ok]
  show "inside s' Producer \<longleftrightarrow> h_mutex s' = Some Producer"
    using st o(1) by (cases "p_pc (h_producer s)") (auto simp: herd_steps split: if_splits)
  show "inside s' (Worker i) \<longleftrightarrow> h_mutex s' = Some (Worker i)" for i
    using st o(1) o(2) [of i] by (cases "p_pc (h_producer s)") (auto simp: herd_steps split: if_splits)
qed

lemma mutex_ok_worker:
  assumes st: "worker_step j s = Some (e, s')" and ok: "mutex_ok s"
  shows "mutex_ok s'"
proof (rule mutex_okI)
  note o = mutex_okD [OF ok]
  show "inside s' Producer \<longleftrightarrow> h_mutex s' = Some Producer"
    using st o(1) o(2) [of j] by (cases "w_pc (h_workers s j)") (auto simp: herd_steps split: if_splits)
  show "inside s' (Worker i) \<longleftrightarrow> h_mutex s' = Some (Worker i)" for i
    using st o(2) [of i] o(2) [of j] by (cases "w_pc (h_workers s j)") (auto simp: herd_steps split: if_splits)
qed

lemma mutex_ok_step:
  assumes "hstep m n sp e s s'" "mutex_ok s"
  shows "mutex_ok s'"
  using assms(1)
proof (cases rule: hstep_cases)
  case p_wakes
  from mutex_okD [OF assms(2)] p_wakes show ?thesis by (intro mutex_okI) (auto simp: herd_updates)
next
  case (w_wakes i)
  with mutex_okD(2) [OF assms(2), of i] have "h_mutex s \<noteq> Some (Worker i)" by simp
  with mutex_okD [OF assms(2)] w_wakes show ?thesis by (intro mutex_okI) (auto simp: herd_updates)
qed (use assms(2) mutex_ok_producer mutex_ok_worker in \<open>blast+\<close>)

section \<open>What has been handed on\<close>

text \<open>The items the producer has pushed.\<close>

definition pushes :: "herd \<Rightarrow> nat" where
  "pushes s = unat (p_i (h_producer s)) + (if p_pc (h_producer s) \<in> {P_Unlock, P_Notify, P_Spin} then 1 else 0)"

definition finishing :: "producer_pc \<Rightarrow> bool" where
  "finishing pc \<longleftrightarrow> pc \<in> {P_Fin_Lock, P_Finish, P_Fin_Unlock, P_Fin_Notify, P_Done}"

definition items :: "nat \<Rightarrow> i32 list" where
  "items k = map of_nat [0..<k]"

lemma items_Suc: "items (Suc k) = items k @ [of_nat k]"
  by (simp add: items_def)

lemma pushed_append [simp]: "pushed (xs @ ys) = pushed xs @ pushed ys"
  by (simp add: pushed_def)

lemma popped_append [simp]: "popped (xs @ ys) = popped xs @ popped ys"
  by (simp add: popped_def)

lemma seen_simps [simp]:
  "pushed [] = []" "pushed [Push x] = [x]" "pushed [Pop i x] = []"
  "popped [] = []" "popped [Push x] = []" "popped [Pop i x] = [x]"
  by (simp_all add: pushed_def popped_def)

text \<open>Nobody else is inside with the thread that moves.\<close>

lemma alone:
  assumes "mutex_ok s" "inside s t" "t' \<noteq> t"
  shows "\<not> inside s t'"
  using assms by (auto simp: mutex_ok_def)

definition queue_ok :: "event list \<Rightarrow> herd \<Rightarrow> bool" where
  "queue_ok tr s \<longleftrightarrow> h_max_size s = 128 \<and> length (h_q s) \<le> 128 \<and>
     (p_pc (h_producer s) = P_Push \<longrightarrow> length (h_q s) < 128) \<and>
     (\<forall>i. w_pc (h_workers s i) = W_Pop \<longrightarrow> h_q s \<noteq> []) \<and> popped tr @ h_q s = pushed tr"

definition producer_ok :: "u64 \<Rightarrow> event list \<Rightarrow> herd \<Rightarrow> bool" where
  "producer_ok m tr s \<longleftrightarrow> pushed tr = items (pushes s) \<and>
     p_item (h_producer s) = of_nat (unat (p_i (h_producer s))) \<and> p_i (h_producer s) \<le> m \<and>
     (p_pc (h_producer s) \<noteq> P_Next \<longrightarrow> (finishing (p_pc (h_producer s)) \<longleftrightarrow> p_i (h_producer s) = m)) \<and>
     (h_finished s \<longleftrightarrow> p_pc (h_producer s) \<in> {P_Fin_Unlock, P_Fin_Notify, P_Done})"

definition workers_ok :: "herd \<Rightarrow> bool" where
  "workers_ok s \<longleftrightarrow> (\<forall>i. w_pc (h_workers s i) \<in> {W_Break, W_Done} \<longrightarrow> h_q s = [] \<and> h_finished s)"

lemma queue_ok_producer:
  assumes "producer_step m s = Some (e, s')" "queue_ok tr s"
  shows "queue_ok (tr @ e) s'"
  using assms by (cases "p_pc (h_producer s)") (auto simp: queue_ok_def herd_steps split: if_splits)

text \<open>A worker changes nothing of the producer but that it may wake it up, and conversely.\<close>

lemma worker_frame:
  assumes "worker_step i s = Some (e, s')"
  shows "h_max_size s' = h_max_size s" "h_finished s' = h_finished s" "pushed e = []"
    "h_producer s' = h_producer s \<or>
      p_pc (h_producer s) = P_Sleep \<and> h_producer s' = h_producer s\<lparr>p_pc := P_Lock\<rparr> \<and> w_pc (h_workers s i) = W_Notify"
    "\<And>j. j \<noteq> i \<Longrightarrow> h_workers s' j = h_workers s j"
    "w_pc (h_workers s i) = W_Notify \<Longrightarrow> p_pc (h_producer s') \<noteq> P_Sleep"
  using assms by (cases "w_pc (h_workers s i)"; auto simp: herd_steps split: if_splits)+

lemma producer_frame:
  assumes "producer_step m s = Some (e, s')"
  shows "h_max_size s' = h_max_size s" "popped e = []"
    "h_workers s' = h_workers s \<or> h_workers s' = h_workers (notify_workers s)"
  using assms by (cases "p_pc (h_producer s)"; auto simp: herd_steps split: if_splits)+

lemma woken [simp]:
  "w_pc (h_workers (notify_workers s) i) = (if w_pc (h_workers s i) = W_Sleep then W_Lock else w_pc (h_workers s i))"
  by (simp add: notify_workers_def)

lemma queue_ok_worker:
  assumes st: "worker_step i s = Some (e, s')" and ok: "queue_ok tr s" "mutex_ok s"
  shows "queue_ok (tr @ e) s'"
proof -
  have len: "length (h_q s') \<le> length (h_q s)" "popped (tr @ e) @ h_q s' = popped tr @ h_q s"
    using st ok(1) by (cases "w_pc (h_workers s i)"; cases "h_q s"; auto simp: herd_steps queue_ok_def split: if_splits)+
  have pop: "h_q s' \<noteq> []" if "w_pc (h_workers s' j) = W_Pop" for j
  proof (cases "j = i")
    case True
    then show ?thesis using st that by (cases "w_pc (h_workers s i)") (auto simp: herd_steps split: if_splits)
  next
    case False
    then have "w_pc (h_workers s j) = W_Pop" using that worker_frame(5) [OF st] by simp
    then have "w_pc (h_workers s i) \<noteq> W_Pop" "h_q s \<noteq> []"
      using alone [OF ok(2), of "Worker j" "Worker i"] False ok(1) by (auto simp: queue_ok_def)
    then show ?thesis using st by (cases "w_pc (h_workers s i)") (auto simp: herd_steps split: if_splits)
  qed
  show ?thesis using ok(1) len pop worker_frame(1,3,4) [OF st] by (auto simp: queue_ok_def)
qed

lemma producer_ok_producer:
  assumes "producer_step m s = Some (e, s')" "producer_ok m tr s"
  shows "producer_ok m (tr @ e) s'"
proof (cases "p_pc (h_producer s)")
  case P_Spin
  then have lt: "p_i (h_producer s) < m" using assms(2) by (auto simp: producer_ok_def finishing_def)
  have "unat (p_i (h_producer s)) < unat m" using lt by (simp add: word_less_nat_alt)
  moreover have "unat m < 18446744073709551616" by (rule order.strict_trans2 [OF unsigned_less]) simp
  ultimately have eq: "unat (p_i (h_producer s) + 1) = unat (p_i (h_producer s)) + 1"
    by (simp add: unat_word_ariths)
  then have "(of_nat (unat (p_i (h_producer s) + 1)) :: i32) = of_nat (unat (p_i (h_producer s))) + 1"
    by (simp only: of_nat_add of_nat_1)
  then have "(ucast (p_i (h_producer s) + 1) :: i32) = ucast (p_i (h_producer s)) + 1" by simp
  moreover note eq
  moreover from this have "p_i (h_producer s) + 1 \<le> m" using lt by (simp add: word_le_nat_alt word_less_nat_alt)
  ultimately show ?thesis using assms P_Spin by (auto simp: producer_ok_def herd_steps pushes_def finishing_def)
qed (use assms in \<open>auto simp: producer_ok_def herd_steps pushes_def finishing_def items_Suc split: if_splits\<close>)

lemma producer_ok_worker:
  assumes "worker_step i s = Some (e, s')" "producer_ok m tr s"
  shows "producer_ok m (tr @ e) s'"
proof -
  note w = worker_frame [OF assms(1)]
  consider (same) "h_producer s' = h_producer s"
    | (woken) "p_pc (h_producer s) = P_Sleep" "h_producer s' = h_producer s\<lparr>p_pc := P_Lock\<rparr>" using w(4) by blast
  then show ?thesis
  proof cases
    case same
    then show ?thesis using assms(2) w(2,3) by (simp add: producer_ok_def pushes_def)
  next
    case woken
    then show ?thesis using assms(2) w(2,3) by (simp add: producer_ok_def pushes_def finishing_def)
  qed
qed

lemma workers_ok_producer:
  assumes st: "producer_step m s = Some (e, s')" and ok: "workers_ok s" "producer_ok m tr s"
  shows "workers_ok s'"
  unfolding workers_ok_def
proof (intro allI impI)
  fix i assume "w_pc (h_workers s' i) \<in> {W_Break, W_Done}"
  then have "w_pc (h_workers s i) \<in> {W_Break, W_Done}" using producer_frame(3) [OF st] by (auto split: if_splits)
  then have q: "h_q s = []" "h_finished s" using ok(1) by (auto simp: workers_ok_def)
  then have "p_pc (h_producer s) \<in> {P_Fin_Unlock, P_Fin_Notify, P_Done}" using ok(2) by (simp add: producer_ok_def)
  then show "h_q s' = [] \<and> h_finished s'" using st q by (auto simp: herd_steps)
qed

lemma workers_ok_worker:
  assumes st: "worker_step i s = Some (e, s')" and ok: "workers_ok s" "queue_ok tr s"
  shows "workers_ok s'"
  unfolding workers_ok_def
proof (intro allI impI)
  fix j assume j: "w_pc (h_workers s' j) \<in> {W_Break, W_Done}"
  have "w_pc (h_workers s j) \<in> {W_Break, W_Done} \<or> j = i \<and> h_q s = [] \<and> h_finished s"
  proof (cases "j = i")
    case True
    then show ?thesis using st j by (cases "w_pc (h_workers s i)") (auto simp: herd_steps split: if_splits)
  qed (use j worker_frame(5) [OF st] in simp)
  then have "h_q s = []" "h_finished s" using ok(1) by (auto simp: workers_ok_def)
  moreover from this have "w_pc (h_workers s i) \<noteq> W_Pop" using ok(2) by (auto simp: queue_ok_def)
  ultimately show "h_q s' = [] \<and> h_finished s'"
    using st by (cases "w_pc (h_workers s i)") (auto simp: herd_steps split: if_splits)
qed

section \<open>No wake-up is lost\<close>

text \<open>
  A worker that sleeps although there is something for it will still be notified by the
  producer, and the producer, when it sleeps although there is room, by some worker.
\<close>

definition sleep_ok :: "nat \<Rightarrow> herd \<Rightarrow> bool" where
  "sleep_ok n s \<longleftrightarrow>
     (\<forall>i. w_pc (h_workers s i) = W_Sleep \<longrightarrow> h_q s = [] \<and> \<not> h_finished s \<or>
        p_pc (h_producer s) \<in> {P_Unlock, P_Notify, P_Fin_Unlock, P_Fin_Notify}) \<and>
     (p_pc (h_producer s) = P_Sleep \<longrightarrow> length (h_q s) = 128 \<or>
        (\<exists>i<n. w_pc (h_workers s i) \<in> {W_Unlock, W_Notify}))"

lemma sleep_ok_producer:
  assumes st: "producer_step m s = Some (e, s')" and ok: "sleep_ok n s" "queue_ok tr s"
  shows "sleep_ok n s'"
proof (cases "p_pc (h_producer s)")
  case P_Test
  then show ?thesis using st ok by (auto simp: sleep_ok_def queue_ok_def herd_steps split: if_splits)
qed (use st ok(1) in \<open>auto simp: sleep_ok_def herd_steps split: if_splits\<close>)

lemma sleep_ok_worker:
  assumes st: "worker_step i s = Some (e, s')" and i: "i < n" and ok: "sleep_ok n s"
  shows "sleep_ok n s'"
  unfolding sleep_ok_def
proof (intro conjI allI impI)
  note w = worker_frame [OF st]
  fix j assume j: "w_pc (h_workers s' j) = W_Sleep"
  have "h_q s = [] \<and> \<not> h_finished s \<or> p_pc (h_producer s) \<in> {P_Unlock, P_Notify, P_Fin_Unlock, P_Fin_Notify}"
  proof (cases "j = i")
    case True
    then show ?thesis using st j by (cases "w_pc (h_workers s i)") (auto simp: herd_steps split: if_splits)
  next
    case False
    then have "w_pc (h_workers s j) = W_Sleep" using j w(5) by simp
    then show ?thesis using ok unfolding sleep_ok_def by blast
  qed
  moreover have "h_q s = [] \<Longrightarrow> h_q s' = []"
    using st by (cases "w_pc (h_workers s i)") (auto simp: herd_steps split: if_splits)
  ultimately show "h_q s' = [] \<and> \<not> h_finished s' \<or>
      p_pc (h_producer s') \<in> {P_Unlock, P_Notify, P_Fin_Unlock, P_Fin_Notify}" using w(2,4) by auto
next
  assume p: "p_pc (h_producer s') = P_Sleep"
  note w = worker_frame [OF st]
  have ps: "p_pc (h_producer s) = P_Sleep" "w_pc (h_workers s i) \<noteq> W_Notify"
    using p w(4,6) by auto
  then consider (full) "length (h_q s) = 128" | (soon) j where "j < n" "w_pc (h_workers s j) \<in> {W_Unlock, W_Notify}"
    using ok by (auto simp: sleep_ok_def)
  then show "length (h_q s') = 128 \<or> (\<exists>i<n. w_pc (h_workers s' i) \<in> {W_Unlock, W_Notify})"
  proof cases
    case full
    then show ?thesis using st i by (cases "w_pc (h_workers s i)") (auto simp: herd_steps split: if_splits)
  next
    case (soon j)
    then show ?thesis using w(5) [of j] st ps(2) by (cases "j = i") (auto simp: herd_steps)
  qed
qed

section \<open>All executions\<close>

definition herd_ok :: "u64 \<Rightarrow> nat \<Rightarrow> event list \<Rightarrow> herd \<Rightarrow> bool" where
  "herd_ok m n tr s \<longleftrightarrow> mutex_ok s \<and> queue_ok tr s \<and> producer_ok m tr s \<and> workers_ok s \<and> sleep_ok n s"

lemma herd_ok_start: "herd_ok m n [] herd_start"
  by (auto simp: herd_ok_def queue_ok_def producer_ok_def workers_ok_def sleep_ok_def herd_start_def pushes_def items_def
      intro!: mutex_okI)

lemma herd_ok_step:
  assumes "hstep m n sp e s s'" "herd_ok m n tr s"
  shows "herd_ok m n (tr @ e) s'"
proof -
  have ok: "mutex_ok s" "queue_ok tr s" "producer_ok m tr s" "workers_ok s" "sleep_ok n s"
    using assms(2) by (simp_all add: herd_ok_def)
  have mx: "mutex_ok s'" using mutex_ok_step [OF assms(1) ok(1)] .
  from assms(1) show ?thesis
  proof (cases rule: hstep_cases)
    case producer
    then show ?thesis using mx queue_ok_producer [OF producer ok(2)] producer_ok_producer [OF producer ok(3)]
        workers_ok_producer [OF producer ok(4,3)] sleep_ok_producer [OF producer ok(5,2)] by (simp add: herd_ok_def)
  next
    case (worker i)
    then show ?thesis using mx queue_ok_worker [OF worker(2) ok(2,1)] producer_ok_worker [OF worker(2) ok(3)]
        workers_ok_worker [OF worker(2) ok(4,2)] sleep_ok_worker [OF worker(2,1) ok(5)] by (simp add: herd_ok_def)
  next
    case p_wakes
    then have s': "s' = s\<lparr>h_producer := h_producer s\<lparr>p_pc := P_Lock\<rparr>\<rparr>" by (simp add: p_goto_def)
    have "queue_ok tr s'" "workers_ok s'" using ok(2,4) unfolding s' by (simp_all add: queue_ok_def workers_ok_def)
    moreover have "producer_ok m tr s'" using ok(3) p_wakes(2) unfolding s' by (simp add: producer_ok_def pushes_def finishing_def)
    moreover have "sleep_ok n s'" using ok(5) p_wakes(2) unfolding s' by (simp add: sleep_ok_def)
    ultimately show ?thesis using mx p_wakes(3) by (simp add: herd_ok_def)
  next
    case (w_wakes i)
    then have s': "s' = s\<lparr>h_workers := (h_workers s)(i := h_workers s i\<lparr>w_pc := W_Lock\<rparr>)\<rparr>" by (simp add: w_goto_def)
    have "queue_ok tr s'" "workers_ok s'" using ok(2,4) unfolding s' by (auto simp: queue_ok_def workers_ok_def)
    moreover have "producer_ok m tr s'" using ok(3) unfolding s' by (simp add: producer_ok_def pushes_def)
    moreover have "sleep_ok n s'"
    proof -
      have same: "h_q s' = h_q s" "h_producer s' = h_producer s" "h_finished s' = h_finished s" by (simp_all add: s')
      have sl: "w_pc (h_workers s j) = W_Sleep" if "w_pc (h_workers s' j) = W_Sleep" for j
        using that w_wakes(3) unfolding s' by (cases "j = i") simp_all
      have "w_pc (h_workers s' j) \<in> {W_Unlock, W_Notify}" if "w_pc (h_workers s j) \<in> {W_Unlock, W_Notify}" for j
        using that w_wakes(3) unfolding s' by (cases "j = i") simp_all
      then show ?thesis using ok(5) sl unfolding sleep_ok_def same by blast
    qed
    ultimately show ?thesis using mx w_wakes(4) by (simp add: herd_ok_def)
  qed
qed

lemma hrun_ok: "hrun m n sp tr s \<Longrightarrow> herd_ok m n tr s"
  by (induction rule: hrun.induct) (simp_all add: herd_ok_start herd_ok_step)

text \<open>A state in which no thread can move.\<close>

definition at_rest :: "u64 \<Rightarrow> nat \<Rightarrow> herd \<Rightarrow> bool" where
  "at_rest m n s \<longleftrightarrow> (\<forall>e s'. \<not> hstep m n False e s s')"

lemma at_restD:
  assumes "at_rest m n s"
  shows "producer_step m s = None" "i < n \<Longrightarrow> worker_step i s = None"
proof -
  show "producer_step m s = None"
  proof (rule ccontr)
    assume "producer_step m s \<noteq> None"
    then obtain e s' where "producer_step m s = Some (e, s')" by auto
    then show False using assms hstep.producer_acts unfolding at_rest_def by blast
  qed
  show "worker_step i s = None" if i: "i < n"
  proof (rule ccontr)
    assume "worker_step i s \<noteq> None"
    then obtain e s' where "worker_step i s = Some (e, s')" by auto
    then show False using assms hstep.worker_acts [OF i] unfolding at_rest_def by blast
  qed
qed

lemma herd_rest:
  assumes n: "0 < n" and ok: "herd_ok m n tr s" and rest: "at_rest m n s" and idle: "\<And>i. n \<le> i \<Longrightarrow> h_mutex s \<noteq> Some (Worker i)"
  shows "p_pc (h_producer s) = P_Done" "i < n \<Longrightarrow> w_pc (h_workers s i) = W_Done" "h_q s = []" "popped tr = items (unat m)"
proof -
  have o: "mutex_ok s" "queue_ok tr s" "producer_ok m tr s" "workers_ok s" "sleep_ok n s"
    using ok by (simp_all add: herd_ok_def)
  note r = at_restD [OF rest]
  have p: "p_pc (h_producer s) = P_Done \<or> p_pc (h_producer s) = P_Sleep \<or>
      p_pc (h_producer s) \<in> {P_Lock, P_Fin_Lock} \<and> h_mutex s \<noteq> None"
    using r(1) by (cases "p_pc (h_producer s)") (auto simp: producer_step_def Let_def split: if_splits)
  have w: "w_pc (h_workers s i) = W_Done \<or> w_pc (h_workers s i) = W_Sleep \<or> w_pc (h_workers s i) = W_Lock \<and> h_mutex s \<noteq> None"
    if "i < n" for i
    using r(2) [OF that] by (cases "w_pc (h_workers s i)") (auto simp: worker_step_def Let_def split: if_splits)
  have free: "h_mutex s = None"
  proof (rule ccontr)
    assume "h_mutex s \<noteq> None"
    then obtain t where t: "h_mutex s = Some t" by blast
    show False
    proof (cases t)
      case Producer
      then show ?thesis using t p mutex_okD(1) [OF o(1)] by auto
    next
      case (Worker i)
      then have "i < n" using t idle [of i] by (meson not_le)
      then show ?thesis using t Worker w [of i] mutex_okD(2) [OF o(1), of i] by auto
    qed
  qed
  have awake: "w_pc (h_workers s i) \<in> {W_Done, W_Sleep}" if "i < n" for i using w [OF that] free by simp
  have pd: "p_pc (h_producer s) = P_Done"
  proof (rule ccontr)
    assume "p_pc (h_producer s) \<noteq> P_Done"
    then have ps: "p_pc (h_producer s) = P_Sleep" using p free by auto
    have "\<not> (\<exists>i<n. w_pc (h_workers s i) \<in> {W_Unlock, W_Notify})" using awake by force
    then have full: "length (h_q s) = 128" using o(5) ps by (auto simp: sleep_ok_def)
    have "w_pc (h_workers s 0) = W_Sleep" using awake [OF n] full o(4) by (auto simp: workers_ok_def)
    then show False using o(5) ps full unfolding sleep_ok_def by fastforce
  qed
  then have fin: "h_finished s" "p_i (h_producer s) = m" using o(3) by (simp_all add: producer_ok_def finishing_def)
  have wd: "w_pc (h_workers s i) = W_Done" if "i < n" for i
    using awake [OF that] o(5) pd fin(1) unfolding sleep_ok_def by fastforce
  then have q: "h_q s = []" using o(4) n by (auto simp: workers_ok_def)
  show "p_pc (h_producer s) = P_Done" "i < n \<Longrightarrow> w_pc (h_workers s i) = W_Done" "h_q s = []" using pd wd q by blast+
  have "popped tr = pushed tr" using o(2) q by (simp add: queue_ok_def)
  then show "popped tr = items (unat m)" using o(3) pd fin(2) by (simp add: producer_ok_def pushes_def)
qed

text \<open>Only the \<open>n\<close> workers that were started ever move.\<close>

lemma hrun_idle: "hrun m n sp tr s \<Longrightarrow> n \<le> i \<Longrightarrow> h_workers s i = \<lparr>w_pc = W_Lock, w_item = 0\<rparr>"
proof (induction rule: hrun.induct)
  case start
  then show ?case by (simp add: herd_start_def)
next
  case (step tr s e s')
  from step.hyps(2) show ?case
  proof (cases rule: hstep_cases)
    case producer
    from producer_frame(3) [OF this] step show ?thesis by (auto simp: notify_workers_def)
  next
    case (worker j)
    from worker_frame(5) [OF worker(2), of i] worker(1) step show ?thesis by simp
  qed (use step in \<open>auto simp: p_goto_def w_goto_def\<close>)
qed

lemma hrun_rest:
  assumes "0 < n" "hrun m n sp tr s" "at_rest m n s"
  shows "p_pc (h_producer s) = P_Done \<and> (\<forall>i<n. w_pc (h_workers s i) = W_Done) \<and> h_q s = [] \<and> popped tr = items (unat m)"
proof -
  have "h_mutex s \<noteq> Some (Worker i)" if "n \<le> i" for i
    using hrun_idle [OF assms(2) that] hrun_ok [OF assms(2)] mutex_okD(2) [of s i] by (auto simp: herd_ok_def)
  from herd_rest [OF assms(1) hrun_ok [OF assms(2)] assms(3) this] show ?thesis by blast
qed

section \<open>The number of actions\<close>

definition w_rank :: "worker_pc \<Rightarrow> int" where
  "w_rank pc = (case pc of W_Done \<Rightarrow> 0 | W_Sleep \<Rightarrow> 1 | W_Pop \<Rightarrow> 2 | W_Break \<Rightarrow> 2 | W_Test \<Rightarrow> 3 | W_Lock \<Rightarrow> 4
     | W_Work \<Rightarrow> 5 | W_Notify \<Rightarrow> 8 | W_Unlock \<Rightarrow> 9)"

text \<open>Within an item, with \<open>n\<close> workers to wake; then what is left after it.\<close>

definition p_rank :: "nat \<Rightarrow> producer_pc \<Rightarrow> int" where
  "p_rank n pc = (case pc of P_Spin \<Rightarrow> 1 | P_Notify \<Rightarrow> 3 * int n + 2 | P_Unlock \<Rightarrow> 3 * int n + 3
     | P_Push \<Rightarrow> 3 * int n + 12 | P_Sleep \<Rightarrow> 3 * int n + 12 | P_Test \<Rightarrow> 3 * int n + 13 | P_Lock \<Rightarrow> 3 * int n + 14
     | P_Next \<Rightarrow> 3 * int n + 15
     | P_Fin_Lock \<Rightarrow> 3 * int n + 4 | P_Finish \<Rightarrow> 3 * int n + 3 | P_Fin_Unlock \<Rightarrow> 3 * int n + 2 | P_Fin_Notify \<Rightarrow> 3 * int n + 1
     | P_Done \<Rightarrow> 0)"

definition items_left :: "u64 \<Rightarrow> herd \<Rightarrow> int" where
  "items_left m s = int (unat m) - int (unat (p_i (h_producer s)))"

definition herd_rank :: "u64 \<Rightarrow> nat \<Rightarrow> herd \<Rightarrow> int" where
  "herd_rank m n s = (\<Sum>i<n. w_rank (w_pc (h_workers s i))) + 8 * int (length (h_q s)) +
     (if finishing (p_pc (h_producer s)) then p_rank n (p_pc (h_producer s))
      else (items_left m s - 1) * (3 * int n + 15) + p_rank n (p_pc (h_producer s)) + (3 * int n + 5))"

lemma items_left_bounds:
  assumes "p_i (h_producer s) \<le> m"
  shows "0 \<le> items_left m s" "p_i (h_producer s) < m \<longleftrightarrow> 0 < items_left m s"
proof -
  have "unat (p_i (h_producer s)) \<le> unat m" using assms by (simp add: word_le_nat_alt)
  then show "0 \<le> items_left m s" unfolding items_left_def by linarith
  have "p_i (h_producer s) < m \<longleftrightarrow> unat (p_i (h_producer s)) < unat m" by (simp add: word_less_nat_alt)
  then show "p_i (h_producer s) < m \<longleftrightarrow> 0 < items_left m s" unfolding items_left_def by linarith
qed

lemma w_rank_nonneg: "0 \<le> w_rank pc"
  by (simp add: w_rank_def split: worker_pc.split)

lemma p_rank_nonneg: "0 \<le> p_rank n pc"
  by (simp add: p_rank_def split: producer_pc.split)

lemma sum_moved:
  assumes "i < n" "h_workers s' i = c" "\<And>j. j \<noteq> i \<Longrightarrow> h_workers s' j = h_workers s j"
  shows "(\<Sum>j<n. w_rank (w_pc (h_workers s' j))) = (\<Sum>j<n. w_rank (w_pc (h_workers s j))) + w_rank (w_pc c) - w_rank (w_pc (h_workers s i))"
proof -
  have s: "(\<Sum>j<n. f j) = f i + (\<Sum>j\<in>{..<n} - {i}. f j)" for f :: "nat \<Rightarrow> int"
    using assms(1) by (simp add: sum.remove)
  have "(\<Sum>j\<in>{..<n} - {i}. w_rank (w_pc (h_workers s' j))) = (\<Sum>j\<in>{..<n} - {i}. w_rank (w_pc (h_workers s j)))"
    using assms(3) by (intro sum.cong) auto
  then show ?thesis using assms(2) by (simp only: s)
qed

lemma sum_woken: "(\<Sum>j<n. w_rank (w_pc (h_workers (notify_workers s) j))) \<le> (\<Sum>j<n. w_rank (w_pc (h_workers s j))) + 3 * int n"
proof -
  have "(\<Sum>j<n. w_rank (w_pc (h_workers (notify_workers s) j))) \<le> (\<Sum>j<n. w_rank (w_pc (h_workers s j)) + 3)"
    by (intro sum_mono) (simp add: w_rank_def)
  then show ?thesis by (simp add: sum.distrib)
qed

lemma worker_rank:
  assumes st: "worker_step i s = Some (e, s')" and i: "i < n" and ok: "queue_ok tr s"
  shows "herd_rank m n s' < herd_rank m n s"
proof -
  note w = worker_frame [OF st]
  have sm: "(\<Sum>j<n. w_rank (w_pc (h_workers s' j))) =
      (\<Sum>j<n. w_rank (w_pc (h_workers s j))) + w_rank (w_pc (h_workers s' i)) - w_rank (w_pc (h_workers s i))"
    by (rule sum_moved [OF i refl w(5)])
  have own: "w_rank (w_pc (h_workers s' i)) + 8 * int (length (h_q s')) + (if w_pc (h_workers s i) = W_Notify then 3 else 1)
      \<le> w_rank (w_pc (h_workers s i)) + 8 * int (length (h_q s))"
    using st ok by (cases "w_pc (h_workers s i)"; cases "h_q s") (auto simp: herd_steps w_rank_def queue_ok_def split: if_splits)
  consider (same) "h_producer s' = h_producer s"
    | (woken) "p_pc (h_producer s) = P_Sleep" "h_producer s' = h_producer s\<lparr>p_pc := P_Lock\<rparr>" "w_pc (h_workers s i) = W_Notify"
    using w(4) by blast
  then show ?thesis
  proof cases
    case same
    then show ?thesis using sm own by (simp add: herd_rank_def items_left_def split: if_splits)
  next
    case woken
    then show ?thesis using sm own by (simp add: herd_rank_def items_left_def finishing_def p_rank_def)
  qed
qed

lemma producer_rank:
  assumes st: "producer_step m s = Some (e, s')" and ok: "producer_ok m tr s"
  shows "herd_rank m n s' < herd_rank m n s"
proof (cases "p_pc (h_producer s) \<in> {P_Notify, P_Fin_Notify}")
  case True
  then have "h_workers s' = h_workers (notify_workers s)" "h_q s' = h_q s" "p_i (h_producer s') = p_i (h_producer s)"
    "p_pc (h_producer s') = (if p_pc (h_producer s) = P_Notify then P_Spin else P_Done)"
    using st by (auto simp: herd_steps)
  then show ?thesis using True sum_woken [where n = n and s = s] by (auto simp: herd_rank_def items_left_def finishing_def p_rank_def)
next
  case False
  then have w: "h_workers s' = h_workers s" using st
    by (cases "p_pc (h_producer s)") (auto simp: herd_steps split: if_splits)
  show ?thesis
  proof (cases "p_pc (h_producer s)")
    case P_Next
    have il: "items_left m s' = items_left m s" "h_q s' = h_q s" using st P_Next by (auto simp: herd_steps items_left_def)
    note b = items_left_bounds [of s m]
    show ?thesis
    proof (cases "p_i (h_producer s) < m")
      case True
      then have "p_pc (h_producer s') = P_Lock" using st P_Next by (auto simp: herd_steps)
      then show ?thesis using P_Next w il by (simp add: herd_rank_def finishing_def p_rank_def)
    next
      case False
      then have "p_pc (h_producer s') = P_Fin_Lock" using st P_Next by (auto simp: herd_steps)
      moreover have "items_left m s = 0" using b False ok by (simp add: producer_ok_def)
      ultimately show ?thesis using P_Next w il by (simp add: herd_rank_def finishing_def p_rank_def)
    qed
  next
    case P_Spin
    then have "p_i (h_producer s) < m" using ok by (auto simp: producer_ok_def finishing_def)
    then have "unat (p_i (h_producer s)) < unat m" by (simp add: word_less_nat_alt)
    moreover have "unat m < 18446744073709551616" by (rule order.strict_trans2 [OF unsigned_less]) simp
    ultimately have "unat (p_i (h_producer s) + 1) = unat (p_i (h_producer s)) + 1" by (simp add: unat_word_ariths)
    moreover have s': "p_i (h_producer s') = p_i (h_producer s) + 1" "h_q s' = h_q s" "p_pc (h_producer s') = P_Next"
      using st P_Spin by (auto simp: herd_steps)
    ultimately have il: "items_left m s = items_left m s' + 1" unfolding items_left_def s'(1) by linarith
    show ?thesis using w s'(2,3) P_Spin by (simp add: herd_rank_def finishing_def p_rank_def il algebra_simps)
  qed (use st w False in \<open>auto simp: herd_steps herd_rank_def items_left_def finishing_def p_rank_def split: if_splits\<close>)
qed

definition live_step :: "u64 \<Rightarrow> nat \<Rightarrow> herd \<Rightarrow> herd \<Rightarrow> bool" where
  "live_step m n s s' \<longleftrightarrow> (\<exists>tr e. hrun m n False tr s \<and> hstep m n False e s s')"

interpretation herd: ranked_system "live_step m n" "\<lambda>s. if \<exists>tr. hrun m n False tr s then herd_rank m n s else 0" for m n
proof
  fix s s'
  have nonneg: "0 \<le> herd_rank m n s" if r: "hrun m n False tr s" for tr s
  proof -
    have ok: "producer_ok m tr s" using hrun_ok [OF r] by (simp add: herd_ok_def)
    then have il: "0 \<le> items_left m s" "p_i (h_producer s) < m \<longleftrightarrow> 0 < items_left m s"
      using items_left_bounds [of s m] by (simp_all add: producer_ok_def)
    have "0 \<le> (if finishing (p_pc (h_producer s)) then p_rank n (p_pc (h_producer s))
      else (items_left m s - 1) * (3 * int n + 15) + p_rank n (p_pc (h_producer s)) + (3 * int n + 5))"
    proof (cases "items_left m s = 0")
      case True
      then have "p_i (h_producer s) = m" using il(2) ok by (simp add: producer_ok_def)
      then have "finishing (p_pc (h_producer s)) \<or> p_pc (h_producer s) = P_Next" using ok by (auto simp: producer_ok_def)
      then show ?thesis using True p_rank_nonneg [of n "p_pc (h_producer s)"] by (auto simp: p_rank_def)
    next
      case False
      with il(1) have "0 \<le> (items_left m s - 1) * (3 * int n + 15)" by simp
      then show ?thesis using p_rank_nonneg [of n "p_pc (h_producer s)"] by simp
    qed
    moreover have "0 \<le> (\<Sum>i<n. w_rank (w_pc (h_workers s i)))" by (intro sum_nonneg w_rank_nonneg)
    ultimately show ?thesis unfolding herd_rank_def by simp
  qed
  then show "0 \<le> (if \<exists>tr. hrun m n False tr s then herd_rank m n s else 0)" by auto
  assume "live_step m n s s'"
  then obtain tr e where r: "hrun m n False tr s" "hstep m n False e s s'" by (auto simp: live_step_def)
  then have r': "hrun m n False (tr @ e) s'" by (rule hrun.step)
  have ok: "queue_ok tr s" "producer_ok m tr s" using hrun_ok [OF r(1)] by (simp_all add: herd_ok_def)
  have "herd_rank m n s' < herd_rank m n s" using r(2)
    by (cases rule: hstep_cases) (use producer_rank [OF _ ok(2)] worker_rank [OF _ _ ok(1)] in blast)+
  then show "(if \<exists>tr. hrun m n False tr s' then herd_rank m n s' else 0) < (if \<exists>tr. hrun m n False tr s then herd_rank m n s else 0)"
    using r(1) r' by auto
qed

lemma live_run: "(live_step m n)\<^sup>*\<^sup>* s s' \<Longrightarrow> hrun m n False tr s \<Longrightarrow> \<exists>tr'. hrun m n False (tr @ tr') s'"
proof (induction rule: rtranclp_induct)
  case base
  then show ?case by (metis append_Nil2)
next
  case (step s1 s2)
  then show ?case by (metis live_step_def hrun.step append_assoc)
qed

lemma relpow_live:
  "((\<lambda>s s'. \<exists>e. hstep m n False e s s') ^^ k) herd_start s \<Longrightarrow> (live_step m n ^^ k) herd_start s \<and> (\<exists>tr. hrun m n False tr s)"
proof (induction k arbitrary: s)
  case 0
  then show ?case by (auto intro: hrun.start)
next
  case (Suc k)
  then obtain s1 e where s1: "((\<lambda>s s'. \<exists>e. hstep m n False e s s') ^^ k) herd_start s1" "hstep m n False e s1 s" by auto
  then obtain tr where tr: "(live_step m n ^^ k) herd_start s1" "hrun m n False tr s1" using Suc.IH by blast
  then have "live_step m n s1 s" using s1(2) by (auto simp: live_step_def)
  then show ?case using tr hrun.step [OF tr(2) s1(2)] by auto
qed

text \<open>Executing the threads in a given order.\<close>

fun herd_schedule :: "u64 \<Rightarrow> thread list \<Rightarrow> event list \<times> herd \<Rightarrow> (event list \<times> herd) option" where
  "herd_schedule m [] (tr, s) = Some (tr, s)"
| "herd_schedule m (t # ts) (tr, s) =
    (case (case t of Producer \<Rightarrow> producer_step m s | Worker i \<Rightarrow> worker_step i s) of
       None \<Rightarrow> None
     | Some (e, s') \<Rightarrow> herd_schedule m ts (tr @ e, s'))"

lemma herd_schedule_hrun:
  "herd_schedule m ts (tr, s) = Some (tr', s') \<Longrightarrow> hrun m n sp tr s \<Longrightarrow> (\<And>i. Worker i \<in> set ts \<Longrightarrow> i < n) \<Longrightarrow>
    hrun m n sp tr' s'"
proof (induction m ts "(tr, s)" arbitrary: tr s rule: herd_schedule.induct)
  case (2 m t ts tr s)
  then obtain e s1 where st: "(case t of Producer \<Rightarrow> producer_step m s | Worker i \<Rightarrow> worker_step i s) = Some (e, s1)"
    "herd_schedule m ts (tr @ e, s1) = Some (tr', s')" by (auto split: option.splits)
  have "hstep m n sp e s s1"
    using st(1) "2.prems"(3) by (cases t) (auto intro: hstep.producer_acts hstep.worker_acts)
  then have "hrun m n sp (tr @ e) s1" using "2.prems"(2) by (intro hrun.step)
  then show ?case using "2.hyps" [OF st(1)] st(2) "2.prems"(3) by auto
qed simp

lemma at_restI: "producer_step m s = None \<Longrightarrow> (\<And>i. i < n \<Longrightarrow> worker_step i s = None) \<Longrightarrow> \<not> hstep m n False e s s'"
  by (auto elim!: hstepE)

lemma herd_one_item:
  "\<exists>tr s. hrun 1 1 False tr s \<and> (\<forall>e s'. \<not> hstep 1 1 False e s s')"
proof -
  let ?P = Producer and ?W = "Worker 0"
  let ?ts = "[?P, ?P, ?P, ?P, ?P, ?P, ?P, ?P, ?P, ?P, ?P, ?P, ?W, ?W, ?W, ?W, ?W, ?W, ?W, ?W, ?W]"
  have "\<exists>tr s. herd_schedule 1 ?ts ([], herd_start) = Some (tr, s) \<and> p_pc (h_producer s) = P_Done \<and> w_pc (h_workers s 0) = W_Done"
    by (simp add: herd_start_def herd_steps)
  then obtain tr s where r: "herd_schedule 1 ?ts ([], herd_start) = Some (tr, s)" "p_pc (h_producer s) = P_Done"
    "w_pc (h_workers s 0) = W_Done" by blast
  from herd_schedule_hrun [OF r(1) hrun.start, of 1 False] have h: "hrun 1 1 False tr s" by auto
  have "\<forall>e s'. \<not> hstep 1 1 False e s s'"
    using r(2,3) by (intro allI at_restI) (simp_all add: producer_step_def worker_step_def)
  with h show ?thesis by blast
qed

section \<open>Properties\<close>

text \<open>C37. The queue hands on every item once and in order, and stays bounded. In every execution
  of any number of workers, with any spurious wake-ups, the items the workers have taken followed
  by those in the queue are those pushed, which are 0, 1, 2 and so on, at most \<open>maxItems\<close> of
  them; never more than 128 wait, and at most one thread at a time is inside the mutex.\<close>

theorem herd_fifo:
  assumes "hrun m n sp tr s"
  shows "popped tr @ h_q s = pushed tr \<and> pushed tr = map of_nat [0..<length (pushed tr)] \<and>
    length (pushed tr) \<le> unat m \<and> length (h_q s) \<le> 128 \<and> (inside s t \<and> inside s t' \<longrightarrow> t = t')"
proof -
  have ok: "mutex_ok s" "queue_ok tr s" "producer_ok m tr s" using hrun_ok [OF assms] by (simp_all add: herd_ok_def)
  then have p: "pushed tr = items (pushes s)" by (simp add: producer_ok_def)
  have "p_pc (h_producer s) \<in> {P_Unlock, P_Notify, P_Spin} \<longrightarrow> p_i (h_producer s) < m"
    using ok(3) by (auto simp: producer_ok_def finishing_def)
  then have "p_pc (h_producer s) \<in> {P_Unlock, P_Notify, P_Spin} \<longrightarrow> unat (p_i (h_producer s)) < unat m"
    by (simp add: word_less_nat_alt)
  moreover have "unat (p_i (h_producer s)) \<le> unat m" using ok(3) by (simp add: producer_ok_def word_le_nat_alt)
  ultimately have "pushes s \<le> unat m" by (auto simp: pushes_def Suc_le_eq)
  then show ?thesis using ok(1,2) p by (auto simp: items_def queue_ok_def mutex_ok_def)
qed

theorem herd_fifo_witness:
  "\<exists>tr s. hrun 2 1 True tr s \<and> popped tr = [0] \<and> h_q s = [1] \<and> pushed tr = [0, 1]"
proof -
  let ?P = Producer and ?W = "Worker 0"
  let ?ts = "[?P, ?P, ?P, ?P, ?P, ?P, ?P, ?P, ?P, ?P, ?P, ?P, ?P, ?P, ?W, ?W, ?W]"
  have "\<exists>tr s. herd_schedule 2 ?ts ([], herd_start) = Some (tr, s) \<and> h_q s = [1] \<and> pushed tr = [0, 1]"
    by (simp add: herd_start_def herd_steps pushed_def)
  then obtain tr s where r: "herd_schedule 2 ?ts ([], herd_start) = Some (tr, s)" "h_q s = [1]" "pushed tr = [0, 1]" by blast
  from herd_schedule_hrun [OF r(1) hrun.start, of 1 True] have h: "hrun 2 1 True tr s" by auto
  from herd_fifo [OF h, of Producer Producer] r(2,3) have "popped tr @ [1] = [0] @ [1]" by simp
  then have "popped tr = [0]" unfolding append_same_eq .
  with h r(2,3) show ?thesis by blast
qed

text \<open>No wake-up is lost. With at least one worker, and although no thread wakes up by itself, a
  state in which no thread can move is one in which all threads have returned, so that \<open>run\<close> can
  join them, and the workers have taken all the items, each once.\<close>

lemma herd_delivers:
  assumes "0 < n" "hrun m n sp tr s" "\<forall>e s'. \<not> hstep m n False e s s'"
  shows "p_pc (h_producer s) = P_Done \<and> (\<forall>i<n. w_pc (h_workers s i) = W_Done) \<and> h_q s = [] \<and>
    popped tr = map of_nat [0..<unat m]"
  using hrun_rest [OF assms(1,2)] assms(3) by (simp add: at_rest_def items_def)

lemma herd_delivers_witness:
  "\<exists>tr s. hrun 1 1 False tr s \<and> popped tr = [0] \<and> w_pc (h_workers s 0) = W_Done"
proof -
  from herd_one_item obtain tr s where h: "hrun 1 1 False tr s" "\<forall>e s'. \<not> hstep 1 1 False e s s'" by blast
  from herd_delivers [OF _ h] have "popped tr = map of_nat [0..<unat (1 :: u64)]" "w_pc (h_workers s 0) = W_Done" by simp_all
  then show ?thesis using h(1) by auto
qed

text \<open>C38. Every execution ends. Without spurious wake-ups no execution has more actions than a
  bound linear in the items and, for each item, in the workers its notification may wake; and
  from every state that can be reached the threads can run on to their common end.\<close>

theorem herd_terminates:
  "(((\<lambda>s s'. \<exists>e. hstep m n False e s s') ^^ k) herd_start s \<longrightarrow> k \<le> unat m * (3 * n + 15) + 7 * n + 5) \<and>
   (0 < n \<longrightarrow> hrun m n False tr s \<longrightarrow>
     (\<exists>tr' s'. hrun m n False (tr @ tr') s' \<and> p_pc (h_producer s') = P_Done \<and> (\<forall>i<n. w_pc (h_workers s' i) = W_Done) \<and>
        popped (tr @ tr') = map of_nat [0..<unat m]))"
proof (intro conjI impI)
  assume "((\<lambda>s s'. \<exists>e. hstep m n False e s s') ^^ k) herd_start s"
  then have "(live_step m n ^^ k) herd_start s" using relpow_live by blast
  from herd.run_bound [OF this] have "int k \<le> herd_rank m n herd_start" using hrun.start [of m n False] by (auto split: if_splits)
  moreover have "herd_rank m n herd_start = int (unat m * (3 * n + 15) + 7 * n + 5)"
    by (simp add: herd_rank_def herd_start_def items_left_def finishing_def p_rank_def w_rank_def algebra_simps)
  ultimately show "k \<le> unat m * (3 * n + 15) + 7 * n + 5" by linarith
next
  assume n: "0 < n" and r: "hrun m n False tr s"
  from herd.comes_to_rest [of m n s] obtain s' where s': "(live_step m n)\<^sup>*\<^sup>* s s'" "\<And>s''. \<not> live_step m n s' s''" by blast
  from live_run [OF s'(1) r] obtain tr' where r': "hrun m n False (tr @ tr') s'" by blast
  then have "at_rest m n s'" using s'(2) unfolding at_rest_def live_step_def by blast
  from hrun_rest [OF n r' this] r'
  show "\<exists>tr' s'. hrun m n False (tr @ tr') s' \<and> p_pc (h_producer s') = P_Done \<and> (\<forall>i<n. w_pc (h_workers s' i) = W_Done) \<and>
      popped (tr @ tr') = map of_nat [0..<unat m]" by (auto simp: items_def)
qed

theorem herd_terminates_witness:
  "\<exists>tr s. hrun 300 4 False tr s \<and> p_pc (h_producer s) = P_Done \<and> popped tr = map of_nat [0..<300]"
  using herd_terminates [THEN conjunct2, THEN mp, THEN mp, of 4 300 "[]" herd_start] hrun.start [of 300 4 False] by auto

end
