(* ===== verification/Herd_Command_Line.thy ===== *)
theory Herd_Command_Line
  imports Thundering_Herd_Runs Bench_Inode_Cache
begin

text \<open>
  The command line of \<^verbatim>\<open>dat/thunderingherd.cpp\<close> and what \<open>main\<close> makes of it: the number of
  items and of workers of the system that \<open>run\<close> starts.
\<close>

section \<open>The command line and \<open>run\<close>\<close>

record conf =
  msgCount :: u32
  msgPeriodUsec :: u32
  workerCount :: u32
  workerServiceTimeUsec :: u32

definition default_conf :: conf where
  "default_conf = \<lparr>msgCount = 1000000, msgPeriodUsec = 10, workerCount = 0, workerServiceTimeUsec = 1\<rparr>"

text \<open>How a run ends before it starts: a call of \<open>exit\<close>, an exception, or \<open>atoi\<close> of a null pointer.\<close>

datatype herd_end = Exit int | Invalid_argument | Atoi_null

text \<open>\<open>nextArg\<close>: the argument, null behind the last one, and the new \<open>i\<close>.\<close>

definition nextArg :: "cstring list \<Rightarrow> nat \<Rightarrow> herd_end + cstring option \<times> nat" where
  "nextArg argv i =
    (if length argv \<le> i then Inl Invalid_argument
     else let i = Suc i in Inr (if i < length argv then Some (argv ! i) else None, i))"

definition set_option :: "cstring \<Rightarrow> cstring option \<Rightarrow> conf \<Rightarrow> herd_end + conf" where
  "set_option opt arg conf =
    (case arg of None \<Rightarrow> Inl Atoi_null
     | Some a \<Rightarrow>
         let v = of_int (atoi a)
         in Inr (if opt = ''-n'' then conf\<lparr>msgCount := v\<rparr>
                 else if opt = ''-t'' then conf\<lparr>workerCount := v\<rparr>
                 else if opt = ''-p'' then conf\<lparr>msgPeriodUsec := v\<rparr>
                 else conf\<lparr>workerServiceTimeUsec := v\<rparr>))"

function parse_loop :: "cstring list \<Rightarrow> nat \<Rightarrow> conf \<Rightarrow> herd_end + conf" where
  "parse_loop argv i conf =
    (if i < length argv then
       (if argv ! i \<in> {''-n'', ''-t'', ''-p'', ''-s''} then
          (case nextArg argv i of Inl e \<Rightarrow> Inl e
           | Inr (arg, j) \<Rightarrow>
               (case set_option (argv ! i) arg conf of Inl e \<Rightarrow> Inl e | Inr conf \<Rightarrow> parse_loop argv (Suc j) conf))
        else if argv ! i = ''-h'' then Inl (Exit 0)
        else Inl (Exit 1))
     else Inr conf)"
  by pat_completeness auto
termination
  by (relation "measure (\<lambda>(argv, i, conf). length argv - i)") (auto simp: nextArg_def Let_def split: if_splits)

declare parse_loop.simps [simp del]

text \<open>\<open>hw\<close> is what \<open>std::thread::hardware_concurrency\<close> returns.\<close>

definition parse :: "u32 \<Rightarrow> cstring list \<Rightarrow> conf \<Rightarrow> herd_end + conf" where
  "parse hw argv conf =
    (case parse_loop argv 1 conf of Inl e \<Rightarrow> Inl e
     | Inr conf \<Rightarrow> Inr (if workerCount conf \<le> 0 then conf\<lparr>workerCount := max 1 hw\<rparr> else conf))"

text \<open>The estimate that \<open>run\<close> prints, in 64 bits.\<close>

definition run_eta :: "conf \<Rightarrow> u64" where
  "run_eta conf =
    (let producerEta = (ucast (msgCount conf) :: u64) * ucast (msgPeriodUsec conf);
         consumerEta = (ucast (msgCount conf) :: u64) * ucast (workerServiceTimeUsec conf) div ucast (workerCount conf)
     in max consumerEta producerEta)"

text \<open>A program that got past its command line is a system of \<open>workerCount\<close> workers.\<close>

definition herd_main :: "u32 \<Rightarrow> cstring list \<Rightarrow> herd_end + u64 \<times> nat" where
  "herd_main hw argv =
    (case parse hw argv default_conf of Inl e \<Rightarrow> Inl e
     | Inr conf \<Rightarrow> Inr (ucast (msgCount conf), unat (workerCount conf)))"

section \<open>Reading options\<close>

definition herd_option :: "cstring \<Rightarrow> bool" where
  "herd_option opt \<longleftrightarrow> opt \<in> {''-n'', ''-t'', ''-p'', ''-s''}"

text \<open>Options with their arguments as words of the command line, and what they set, in order.\<close>

definition option_words :: "(cstring \<times> cstring) list \<Rightarrow> cstring list" where
  "option_words opts = concat (map (\<lambda>(opt, a). [opt, a]) opts)"

fun set_options :: "(cstring \<times> cstring) list \<Rightarrow> conf \<Rightarrow> conf" where
  "set_options [] conf = conf"
| "set_options ((opt, a) # opts) conf = set_options opts (case set_option opt (Some a) conf of Inr c \<Rightarrow> c | Inl _ \<Rightarrow> conf)"

lemma set_option_Some: "\<exists>c. set_option opt (Some a) conf = Inr c"
  by (simp add: set_option_def Let_def)

lemma parse_loop_option:
  "Suc i < length argv \<Longrightarrow> herd_option (argv ! i) \<Longrightarrow> set_option (argv ! i) (Some (argv ! Suc i)) conf = Inr c \<Longrightarrow>
    parse_loop argv i conf = parse_loop argv (Suc (Suc i)) c"
  by (subst parse_loop.simps) (simp add: nextArg_def herd_option_def)

lemma parse_loop_options:
  assumes "list_all (\<lambda>(opt, a). herd_option opt) opts"
  shows "parse_loop (pre @ option_words opts @ post) (length pre) conf =
    parse_loop (pre @ option_words opts @ post) (length pre + length (option_words opts)) (set_options opts conf)"
  using assms
proof (induction opts arbitrary: pre conf)
  case Nil
  then show ?case by (simp add: option_words_def)
next
  case (Cons x opts)
  obtain opt a where x: "x = (opt, a)" by fastforce
  let ?argv = "pre @ option_words (x # opts) @ post"
  have split: "?argv = (pre @ [opt, a]) @ option_words opts @ post" by (simp add: option_words_def x)
  have nth: "?argv ! length pre = opt" "?argv ! Suc (length pre) = a" "Suc (length pre) < length ?argv"
    by (simp_all add: option_words_def x nth_append)
  obtain c where c: "set_option opt (Some a) conf = Inr c" using set_option_Some by blast
  have "herd_option opt" using Cons.prems x by simp
  then have "parse_loop ?argv (length pre) conf = parse_loop ?argv (Suc (Suc (length pre))) c"
    using nth c by (intro parse_loop_option) simp_all
  also have "\<dots> = parse_loop ?argv (length (pre @ [opt, a]) + length (option_words opts)) (set_options opts c)"
    using Cons.IH [of "pre @ [opt, a]" c] Cons.prems x unfolding split by simp
  finally show ?case using c by (simp add: x option_words_def)
qed

lemma parse_loop_never_throws: "parse_loop argv i conf \<noteq> Inl Invalid_argument"
proof (induction argv i conf rule: parse_loop.induct)
  case (1 argv i conf)
  show ?case
  proof (cases "i < length argv \<and> herd_option (argv ! i)")
    case True
    then have n: "nextArg argv i = Inr (if Suc i < length argv then Some (argv ! Suc i) else None, Suc i)"
      by (simp add: nextArg_def)
    show ?thesis
    proof (cases "set_option (argv ! i) (if Suc i < length argv then Some (argv ! Suc i) else None) conf")
      case (Inl e)
      then have "e = Atoi_null" by (auto simp: set_option_def Let_def split: if_splits)
      then show ?thesis using True n Inl by (subst parse_loop.simps) (auto simp: herd_option_def)
    next
      case (Inr c)
      then show ?thesis using True n 1 by (subst parse_loop.simps) (auto simp: herd_option_def)
    qed
  next
    case False
    then show ?thesis by (subst parse_loop.simps) (auto simp: herd_option_def)
  qed
qed

lemma unat_u32: "unat (x :: u32) < 4294967296"
  by (rule order.strict_trans2 [OF unsigned_less]) simp

lemma unat_ucast_u64: "unat (ucast (x :: u32) :: u64) = unat x"
proof -
  have "unat x < 2 ^ 64" using unat_u32 [of x] by simp
  then show ?thesis by (simp add: unsigned_ucast_eq take_bit_nat_eq_self_iff)
qed

lemma unat_mult_u64: "unat ((ucast (x :: u32) :: u64) * ucast (y :: u32)) = unat x * unat y"
proof -
  have "unat x * unat y < 4294967296 * 4294967296" using unat_u32 [of x] unat_u32 [of y] by (intro mult_strict_mono) simp_all
  then show ?thesis by (simp only: unat_word_ariths unat_ucast_u64) simp
qed

section \<open>Properties\<close>

text \<open>Options with arguments are read in order, the last one of a kind counts, and when no
  positive number of workers is asked for there is one for each processor, and at least one.\<close>

lemma herd_options_read:
  assumes "list_all (\<lambda>(opt, a). herd_option opt) opts"
  shows "parse hw (prog # option_words opts) conf =
    Inr (let c = set_options opts conf in if workerCount c = 0 then c\<lparr>workerCount := max 1 hw\<rparr> else c)"
  using parse_loop_options [OF assms, of "[prog]" "[]" conf]
  by (simp add: parse_def parse_loop.simps [of "prog # option_words opts" "Suc _"] Let_def)

lemma herd_options_read_witness:
  "parse 8 [''herd'', ''-n'', ''50'', ''-t'', ''3'', ''-n'', ''70''] default_conf =
     Inr (default_conf\<lparr>msgCount := 70, workerCount := 3\<rparr>)"
  using herd_options_read [of "[(''-n'', ''50''), (''-t'', ''3''), (''-n'', ''70'')]" 8 "''herd''" default_conf]
  by (simp add: herd_option_def option_words_def set_option_def atoi_def isspace_def digit_def default_conf_def Let_def)

text \<open>C40. The guard against a missing argument does not work: an option that is the last word makes
  the program call \<open>atoi\<close> on the null pointer behind \<open>argv\<close>, and the exception that should
  report it is never thrown, whatever the command line.\<close>

theorem herd_missing_argument:
  assumes "list_all (\<lambda>(opt, a). herd_option opt) opts" "herd_option opt"
  shows "parse hw (prog # option_words opts @ [opt]) conf = Inl Atoi_null \<and> parse hw argv conf' \<noteq> Inl Invalid_argument"
proof -
  let ?argv = "prog # option_words opts @ [opt]" and ?i = "Suc (length (option_words opts))"
  have "?argv ! ?i = opt" "?i < length ?argv" by (simp_all add: nth_append)
  then have "parse_loop ?argv ?i c = Inl Atoi_null" for c
    using assms(2) by (subst parse_loop.simps) (auto simp: nextArg_def herd_option_def set_option_def)
  then show ?thesis
    using parse_loop_options [OF assms(1), of "[prog]" "[opt]" conf] parse_loop_never_throws [of argv 1 conf']
    by (auto simp: parse_def split: sum.splits)
qed

theorem herd_missing_argument_witness:
  "parse 8 [''herd'', ''-n'', ''50'', ''-t''] default_conf = Inl Atoi_null"
  using herd_missing_argument [of "[(''-n'', ''50'')]" "''-t''" 8 "''herd''" default_conf "[]" default_conf]
  by (simp add: herd_option_def option_words_def)

text \<open>C39. A program that accepts its command line has at least one worker, so the division of the
  estimate is defined and the estimate, in 64 bits, is the exact one; and when no thread can move
  any more all threads have returned and the workers have taken all \<open>msgCount\<close> items.\<close>

theorem herd_main_delivers:
  assumes "herd_main hw argv = Inr (m, n)" "hrun m n sp tr s" "\<forall>e s'. \<not> hstep m n False e s s'"
  shows "\<exists>conf. parse hw argv default_conf = Inr conf \<and> 0 < n \<and> n = unat (workerCount conf) \<and>
    unat m = unat (msgCount conf) \<and>
    unat (run_eta conf) = max (unat (msgCount conf) * unat (workerServiceTimeUsec conf) div n)
      (unat (msgCount conf) * unat (msgPeriodUsec conf)) \<and>
    (\<forall>i<n. w_pc (h_workers s i) = W_Done) \<and> popped tr = map of_nat [0..<unat (msgCount conf)]"
proof -
  from assms(1) obtain conf where c: "parse hw argv default_conf = Inr conf" "m = ucast (msgCount conf)" "n = unat (workerCount conf)"
    by (auto simp: herd_main_def split: sum.splits)
  have "workerCount conf \<noteq> 0"
  proof -
    have "max 1 hw \<noteq> (0 :: u32)" by (simp add: max_def) (metis word_le_0_iff zero_neq_one)
    then show ?thesis using c(1) by (auto simp: parse_def split: sum.splits if_splits)
  qed
  then have n: "0 < n" using c(3) by (simp add: unat_gt_0)
  have m: "unat m = unat (msgCount conf)" using c(2) by (simp only: unat_ucast_u64)
  have "unat (run_eta conf) = max (unat (msgCount conf) * unat (workerServiceTimeUsec conf) div n)
      (unat (msgCount conf) * unat (msgPeriodUsec conf))"
    by (simp add: run_eta_def Let_def max_def word_le_nat_alt unat_div unat_mult_u64 c(3) unat_ucast_u64)
  moreover have "at_rest m n s" using assms(3) by (simp add: at_rest_def)
  from hrun_rest [OF n assms(2) this] have "(\<forall>i<n. w_pc (h_workers s i) = W_Done) \<and> popped tr = map of_nat [0..<unat (msgCount conf)]"
    using m by (simp add: items_def)
  ultimately show ?thesis using c n m by blast
qed

theorem herd_main_delivers_witness:
  "\<exists>tr s. hrun 1 1 False tr s \<and> popped tr = [0] \<and> herd_main 8 [''herd'', ''-n'', ''1'', ''-t'', ''1''] = Inr (1, 1)"
proof -
  have p: "parse 8 [''herd'', ''-n'', ''1'', ''-t'', ''1''] default_conf = Inr (default_conf\<lparr>msgCount := 1, workerCount := 1\<rparr>)"
    by (simp add: parse_def parse_loop.simps nextArg_def set_option_def atoi_def isspace_def digit_def default_conf_def Let_def)
  then have m: "herd_main 8 [''herd'', ''-n'', ''1'', ''-t'', ''1''] = Inr (1, 1)" by (simp add: herd_main_def)
  from herd_one_item obtain tr s where h: "hrun 1 1 False tr s" "\<forall>e s'. \<not> hstep 1 1 False e s s'" by blast
  from herd_main_delivers [OF m h] p have "popped tr = map of_nat [0..<unat (1 :: u32)]" by auto
  then show ?thesis using h(1) m by auto
qed

end
