(* ===== verification/Spec2Isabelle.thy ===== *)
theory Spec2Isabelle
  imports Inode_Cache_Contract Mkdir_P Barrier Bench_Stats Compiler_Runs Bench_Children Herd_Command_Line
begin

text \<open>
  Verification library of the C and C++ part of pdistcc.

  \<^bold>\<open>The program.\<close> The directory \<^verbatim>\<open>c\<close> holds a cache of small strings about compilers
  (\<^verbatim>\<open>inodecache.c\<close>), keyed by the identity of the compiler's executable, with what it needs:
  a message digest (\<^verbatim>\<open>md5.c\<close>), the creation of the cache directory (\<^verbatim>\<open>mkdir_p.c\<close>), and the questions
  put to a compiler through a pipe (\<^verbatim>\<open>compiler_properties.c\<close>). The benchmark
  (\<^verbatim>\<open>bench_inodecache.c\<close>) compares reading the cache with asking the compiler: it runs several child
  processes that meet at a barrier in shared memory (\<^verbatim>\<open>barrier.c\<close>) and merge running statistics
  (\<^verbatim>\<open>bench_stats.c\<close>) under a lock. \<^verbatim>\<open>dat/thunderingherd.cpp\<close> is a separate experiment: one producer and
  several workers on a bounded queue.

  \<^bold>\<open>The theories.\<close> Each names the functions of its file as the source does.
    \<^item> \<open>Prelude\<close>: machine words, C strings and buffers, the hint collections \<open>frame_simps\<close> and
      \<open>op_defs\<close>. \<open>Step_Systems\<close>: the locale \<open>ranked_system\<close>, interpreted for the barrier, the
      children of the benchmark and the queue.
    \<^item> \<open>Posix\<close>: the system and library calls on a record \<open>world\<close> (inodes, descriptors, locks, heap,
      \<open>errno\<close>); \<open>Posix_Frame\<close>: what each call does to the resources of the process, the predicate
      \<open>owns\<close>; \<open>Posix_Quiet\<close>: the calls when no fault is scheduled; \<open>Posix_Process\<close>: pipes, children
      and streams.
    \<^item> \<^verbatim>\<open>md5.c\<close>: \<open>MD5\<close> (the 64 unrolled steps, the streaming context, the digest string) and
      \<open>MD5_Reference\<close> (RFC 1321 with its own tables, words, padding and digits; the locale
      \<open>incremental_hash\<close> and its interpretation; the refinement).
    \<^item> \<^verbatim>\<open>inodecache.c\<close>: \<open>Inode_Cache\<close> (all functions), \<open>Inode_Cache_Safety\<close> (resources, whatever
      fails), \<open>Inode_Cache_View\<close> (the cache directory as a map), \<open>Inode_Cache_Function\<close> (the effect of
      each operation when nothing fails), \<open>Inode_Cache_Contract\<close> (the locale \<open>kv_store\<close>, its
      interpretation, sequences of operations against an abstract map, the names of the entries).
    \<^item> \<^verbatim>\<open>mkdir_p.c\<close>: \<open>Mkdir_P\<close>, with the buffer the function cuts at its slashes.
    \<^item> \<^verbatim>\<open>barrier.c\<close>: \<open>Barrier\<close>; \<open>barrier_wait\<close> is a type \<open>pc\<close> of control points and a function
      \<open>wait_step\<close>, the interleavings are the relation \<open>bstep\<close>.
    \<^item> \<^verbatim>\<open>bench_stats.c\<close>: \<open>Bench_Stats\<close>.
    \<^item> \<^verbatim>\<open>compiler_properties.c\<close>: \<open>Compiler_Properties\<close> (both sides of every \<open>fork\<close>) and
      \<open>Compiler_Runs\<close> (the contracts).
    \<^item> \<^verbatim>\<open>bench_inodecache.c\<close>: \<open>Bench_Inode_Cache\<close> (the child as \<open>child_step\<close>, the shared record, the
      parent, \<open>main\<close>), \<open>Bench_Runs\<close> (one process at a time), \<open>Bench_Children\<close> (all children together).
    \<^item> \<^verbatim>\<open>thunderingherd.cpp\<close>: \<open>Thundering_Herd\<close> (the two threads as \<open>producer_step\<close> and
      \<open>worker_step\<close>), \<open>Thundering_Herd_Runs\<close> (safety and liveness), \<open>Herd_Command_Line\<close>.

  \<^bold>\<open>What the lemmas show.\<close> Four kinds recur. Refinements: the digest is the standard's, the cache
  is a map, the one-pass statistics are those of the samples, the totals of the benchmark are
  those of all children. Resources: whatever calls fail, descriptors, locks and heap blocks are
  accounted for exactly (the \<open>_clean\<close> and \<open>_no_leak\<close> theorems). Concurrency: invariants of all
  interleavings by rule induction, absence of deadlock, and a rank that bounds every execution.
  Errors: what the code does on the paths where it does not do what its comments say; these
  theorems are named after the defect.

  \<^bold>\<open>Failures.\<close> Every call that can fail takes one element of the list \<open>faults\<close> of the world first:
  pass, fail with an error, or transfer fewer bytes. Theorems that quantify over the list hold for
  all patterns of failures; those with \<open>faults w = []\<close> speak of a system without failures. The
  barrier and the shared record take the failure of a call as an argument.

  \<^bold>\<open>Undefined behaviour.\<close> The field \<open>ub_log\<close> of the world collects it: a bad \<open>free\<close>, a dangling
  pointer, an unterminated string, a read outside a buffer, the signed overflow of the modification
  time in microseconds (\<open>mtime_checked\<close>), and \<open>isspace\<close> of a negative \<open>char\<close>
  (\<open>isspace_checked\<close>). After it the model goes on as the usual compilers do; a theorem that a log is
  unchanged says that nothing undefined has happened, and the others name what may. Not recorded
  are the overflow of the \<open>int\<close> that numbers the items of the queue after 2147483648 of them, which
  wraps in the model, and that of the counter of the barrier, an unbounded integer, which would take
  as many processes.

  \<^bold>\<open>Conventions and bounds.\<close> Hosts are little-endian with 64-bit \<open>time_t\<close>; plain \<open>char\<close> is signed.
  Loops are total functions with a measure, so no fuel is used. A process makes at most 8 actions in
  the barrier, a child of the benchmark at most 16, and the producer and \<open>n\<close> workers with \<open>m\<close> items
  together at most \<open>m * (3 * n + 15) + 7 * n + 5\<close> when no wake-up is spurious.

  \<^bold>\<open>Parameters.\<close> What the sources only call: the programs a child executes (\<open>child_env\<close>), the
  arithmetic of \<open>double\<close> (\<open>arith\<close>; the exact one is the instance that the theorems on moments use), the
  clock, \<open>sysconf\<close> and \<open>getenv\<close>, what is on the stack before it is written (\<open>stack_byte\<close>), and,
  for the parent of the benchmark, what its children leave behind.

  \<^bold>\<open>Not modelled.\<close> What is printed, permission bits, the disposition of \<open>SIGPIPE\<close>, thread names,
  sleeping and spinning. Pipes are taken to hold all the output of a child. The C test programs and
  the Python packages are left aside; the tests are the next step of the plan, with the properties
  of \<open>bench_main\<close> as a whole.
\<close>

end
